(* ===== verification/Mahimahi_Prelude.thy ===== *)
theory Mahimahi_Prelude
  imports Complex_Main "HOL-Library.Word" "HOL-Library.Sublist"
begin

text \<open>
  The vocabulary the components share.

  \<^item> Machine integers: \<open>u8\<close> ... \<open>u64\<close> are words. A C++ \<open>int\<close> field is a \<open>u32\<close> that is read
    through \<open>sint\<close>; arithmetic on it wraps, and the invariants of the components show that the
    wrap is not reached.
  \<^item> Failures: \<open>error\<close> lists the ways a C++ call can end without a value (an exception, a failed
    \<open>assert\<close>, a bounds-checked access, undefined behaviour, a loop that was not given enough
    fuel), \<open>'a res\<close> is \<open>error + 'a\<close>, and \<open>res_bind\<close> sequences such calls.
  \<^item> \<open>std::string\<close> searches over lists (\<open>find_str\<close>, \<open>find_index\<close>) and \<open>myatoi\<close>
    (src/src/util/ezio.cc) with the part of \<open>strtol\<close> it relies on.
  \<^item> \<open>env\<close>: what a queue operation reads from outside the program, the clock and the
    pseudo-random generator.
  \<^item> Clock readings of src/src/util/timestamp.cc.
\<close>

section \<open>Machine integers\<close>

type_synonym u8 = "8 word"
type_synonym u16 = "16 word"
type_synonym u32 = "32 word"
type_synonym u64 = "64 word"
type_synonym byte = u8

text \<open>The collections the component proofs draw on.\<close>

named_theorems queue_simps \<open>unfolding rules of the packet queue operations\<close>
named_theorems link_simps \<open>unfolding rules of the link emulation\<close>
named_theorems http_simps \<open>unfolding rules of the HTTP parser\<close>

section \<open>Failing computations\<close>

datatype error =
    Runtime_error string
  | Unix_error string
  | Assertion_failed
  | Out_of_range
  | Undefined_behaviour
  | Out_of_fuel

type_synonym 'a res = "error + 'a"

definition res_bind :: "'a res \<Rightarrow> ('a \<Rightarrow> 'b res) \<Rightarrow> 'b res" where
  "res_bind m f = (case m of Inl e \<Rightarrow> Inl e | Inr x \<Rightarrow> f x)"

text \<open>\<open>assert( b )\<close> followed by the rest of the function.\<close>

definition asserting :: "bool \<Rightarrow> 'a res \<Rightarrow> 'a res" where
  "asserting b k = (if b then k else Inl Assertion_failed)"

text \<open>
  \<open>assert_not_root\<close>, src/src/util/util.cc, before the rest of a function that must not run as root;
  \<open>is_root\<close> says whether the effective user or group of the process is root.
\<close>

definition assert_not_root :: "bool \<Rightarrow> 'a res \<Rightarrow> 'a res" where
  "assert_not_root is_root k =
     (if is_root then Inl (Runtime_error ''BUG: privileges not dropped in sensitive region'') else k)"

section \<open>Strings\<close>

text \<open>
  \<open>s.find( needle )\<close>: the offset of the first occurrence, \<open>None\<close> for \<open>npos\<close>; and the search
  that starts at an offset.
\<close>

fun find_str :: "'a list \<Rightarrow> 'a list \<Rightarrow> nat option" where
  "find_str needle [] = (if needle = [] then Some 0 else None)"
| "find_str needle (x # xs) =
     (if prefix needle (x # xs) then Some 0 else map_option Suc (find_str needle xs))"

definition find_str_from :: "'a list \<Rightarrow> 'a list \<Rightarrow> nat \<Rightarrow> nat option" where
  "find_str_from needle s pos =
     (if pos \<le> length s then map_option (\<lambda>i. pos + i) (find_str needle (drop pos s)) else None)"

text \<open>\<open>find_first_of\<close> and \<open>find_first_not_of\<close> are searches for a character with a property.\<close>

fun find_index :: "('a \<Rightarrow> bool) \<Rightarrow> 'a list \<Rightarrow> nat option" where
  "find_index P [] = None"
| "find_index P (x # xs) = (if P x then Some 0 else map_option Suc (find_index P xs))"

definition CRLF :: string where
  "CRLF = [CHR 0x0D, CHR 0x0A]"

section \<open>Integer parsing\<close>

definition isspace :: "char \<Rightarrow> bool" where
  "isspace c \<longleftrightarrow> c \<in> {CHR 0x20, CHR 0x09, CHR 0x0A, CHR 0x0B, CHR 0x0C, CHR 0x0D}"

definition digit_value :: "char \<Rightarrow> nat option" where
  "digit_value c =
     (let n = (of_char c :: nat) in
      if 48 \<le> n \<and> n \<le> 57 then Some (n - 48)
      else if 97 \<le> n \<and> n \<le> 122 then Some (n - 87)
      else if 65 \<le> n \<and> n \<le> 90 then Some (n - 55)
      else None)"

definition is_digit_in :: "nat \<Rightarrow> char \<Rightarrow> bool" where
  "is_digit_in base c = (case digit_value c of None \<Rightarrow> False | Some d \<Rightarrow> d < base)"

text \<open>
  The digits at the front of a string: their value, accumulated, and what follows them.
\<close>

fun scan_digits :: "nat \<Rightarrow> nat \<Rightarrow> string \<Rightarrow> nat \<times> string" where
  "scan_digits base acc [] = (acc, [])"
| "scan_digits base acc (c # cs) =
     (case digit_value c of
        Some d \<Rightarrow> if d < base then scan_digits base (acc * base + d) cs else (acc, c # cs)
      | None \<Rightarrow> (acc, c # cs))"

text \<open>The optional \<open>0x\<close> of base 16, which counts only when a digit follows it.\<close>

definition skip_0x :: "nat \<Rightarrow> string \<Rightarrow> string" where
  "skip_0x base s =
     (case s of
        c0 # c1 # c2 # cs \<Rightarrow>
          if base = 16 \<and> c0 = CHR ''0'' \<and> (c1 = CHR ''x'' \<or> c1 = CHR ''X'') \<and> is_digit_in base c2
          then c2 # cs else s
      | _ \<Rightarrow> s)"

definition strip_sign :: "string \<Rightarrow> bool \<times> string" where
  "strip_sign s =
     (case s of
        [] \<Rightarrow> (False, [])
      | c # cs \<Rightarrow> if c = CHR ''-'' then (True, cs) else if c = CHR ''+'' then (False, cs) else (False, s))"

text \<open>
  \<open>strtol( s, &end, base )\<close>: the value and the unparsed rest (all of \<open>s\<close> when there is no
  digit), before the check of the range of \<open>long\<close>.
\<close>

definition strtol :: "nat \<Rightarrow> string \<Rightarrow> int \<times> string" where
  "strtol base s =
     (let (neg, t) = strip_sign (dropWhile isspace s);
          u = skip_0x base t
      in if u = [] \<or> \<not> is_digit_in base (hd u) then (0, s)
         else let (n, rest) = scan_digits base 0 u in (if neg then - int n else int n, rest))"

text \<open>\<open>myatoi( str, base )\<close>, src/src/util/ezio.cc. A NUL ends the C string.\<close>

definition myatoi :: "nat \<Rightarrow> string \<Rightarrow> int res" where
  "myatoi base str =
     (if str = [] then Inl (Runtime_error ''Invalid integer string: empty'')
      else
        let cstr = takeWhile (\<lambda>c. c \<noteq> CHR 0x00) str;
            (v, rest) = strtol base cstr
        in if v < - (2 ^ 63) \<or> 2 ^ 63 \<le> v then Inl (Unix_error ''strtol'')
           else if length cstr - length rest \<noteq> length str
           then Inl (Runtime_error (''Invalid integer: '' @ str))
           else Inr v)"

text \<open>\<open>std::to_string\<close> on an unsigned number, and its analogue in another base.\<close>

definition digit_char :: "nat \<Rightarrow> char" where
  "digit_char d = (if d < 10 then char_of (48 + d) else char_of (87 + d))"

fun show_base :: "nat \<Rightarrow> nat \<Rightarrow> string" where
  "show_base b n =
     (if b < 2 \<or> n < b then [digit_char n] else show_base b (n div b) @ [digit_char (n mod b)])"

declare show_base.simps [simp del]

abbreviation show_nat :: "nat \<Rightarrow> string" where
  "show_nat \<equiv> show_base 10"

section \<open>The environment of a queue operation\<close>

text \<open>
  \<open>clock e i\<close> is what the \<open>i\<close>-th call of \<open>timestamp()\<close> inside one operation returns, and
  \<open>uniform e\<close> what \<open>uniform_generator_( prng_ )\<close> draws. \<open>meter_clock\<close> serves the calls a live
  graph makes.
\<close>

record env =
  clock :: "nat \<Rightarrow> u64"
  meter_clock :: "nat \<Rightarrow> u64"
  uniform :: real

text \<open>
  src/src/util/timestamp.cc: \<open>raw_timestamp\<close> turns a \<open>timespec\<close> into milliseconds,
  \<open>timestamp\<close> subtracts the first reading, and the microsecond variants do the same.
\<close>

definition raw_timestamp :: "int \<Rightarrow> int \<Rightarrow> u64" where
  "raw_timestamp tv_sec tv_nsec = of_int (tv_nsec div 1000000) + of_int tv_sec * 1000"

definition timestamp :: "u64 \<Rightarrow> u64 \<Rightarrow> u64" where
  "timestamp initial_value raw = raw - initial_value"

definition raw_microtimestamp :: "int \<Rightarrow> int \<Rightarrow> u64" where
  "raw_microtimestamp tv_sec tv_nsec = of_int (tv_nsec div 1000) + of_int tv_sec * 1000000"

definition microtimestamp :: "u64 \<Rightarrow> u64 \<Rightarrow> u64" where
  "microtimestamp initial_value raw = raw - initial_value"

section \<open>Rules for failing computations\<close>

lemma res_bind_simps [simp]:
  "res_bind (Inl e) f = Inl e"
  "res_bind (Inr x) f = f x"
  by (simp_all add: res_bind_def)

lemma res_bind_Inr_iff [simp]:
  "res_bind m f = Inr y \<longleftrightarrow> (\<exists>x. m = Inr x \<and> f x = Inr y)"
  by (cases m) simp_all

lemma asserting_simps [simp]:
  "asserting True k = k"
  "asserting False k = Inl Assertion_failed"
  "asserting b k = Inr y \<longleftrightarrow> b \<and> k = Inr y"
  by (simp_all add: asserting_def)

lemma res_bind_cong [fundef_cong]:
  "m = m' \<Longrightarrow> (\<And>x. m' = Inr x \<Longrightarrow> f x = f' x) \<Longrightarrow> res_bind m f = res_bind m' f'"
  by (cases m') simp_all

lemma asserting_cong [fundef_cong]:
  "b = b' \<Longrightarrow> (b' \<Longrightarrow> k = k') \<Longrightarrow> asserting b k = asserting b' k'"
  by (simp add: asserting_def)

section \<open>Rules for machine integers\<close>

lemma sint_of_nat_u32: "n < 2 ^ 31 \<Longrightarrow> sint (of_nat n :: u32) = int n"
  by (simp add: signed_of_nat signed_take_bit_int_eq_self)

lemma sint_small:
  fixes w :: u32
  assumes "unat w < 2 ^ 31"
  shows "sint w = uint w"
  using sint_of_nat_u32 [OF assms] by (simp only: of_nat_unat ucast_id)

lemma unat_add_small:
  fixes a b :: "'a::len word"
  shows "unat a + unat b < 2 ^ LENGTH('a) \<Longrightarrow> unat (a + b) = unat a + unat b"
  by (simp add: unat_word_ariths)

lemma unat_add_1:
  fixes a b :: "'a::len word"
  assumes "a < b"
  shows "unat (a + 1) = Suc (unat a)"
proof -
  have "unat b < 2 ^ LENGTH('a)" by (rule unsigned_less)
  moreover from assms have "unat a < unat b" by (simp add: word_less_nat_alt)
  ultimately have "Suc (unat a) < 2 ^ LENGTH('a)" by linarith
  then show ?thesis by (simp add: unat_add_small)
qed

section \<open>Rules for string searches\<close>

lemma find_str_Some:
  "find_str needle s = Some i \<Longrightarrow>
     i + length needle \<le> length s \<and> take (length needle) (drop i s) = needle"
proof (induction needle s arbitrary: i rule: find_str.induct)
  case (2 needle x xs)
  show ?case
  proof (cases "prefix needle (x # xs)")
    case True
    then obtain zs where z: "x # xs = needle @ zs"
      by (rule prefixE)
    have "take (length needle) (x # xs) = needle"
      unfolding z by simp
    moreover have "length needle \<le> length (x # xs)"
      unfolding z by simp
    moreover from "2.prems" True have "i = 0" by simp
    ultimately show ?thesis by simp
  next
    case False
    with 2 show ?thesis by auto
  qed
qed (simp split: if_splits)

lemma find_str_first:
  "find_str needle s = Some i \<Longrightarrow> j < i \<Longrightarrow> \<not> prefix needle (drop j s)"
proof (induction needle s arbitrary: i j rule: find_str.induct)
  case (2 needle x xs)
  then show ?case by (cases j) (auto split: if_splits)
qed (simp split: if_splits)

lemma find_str_None:
  "find_str needle s = None \<Longrightarrow> \<not> prefix needle (drop j s)"
proof (induction needle s arbitrary: j rule: find_str.induct)
  case (2 needle x xs)
  then show ?case by (cases j) (auto split: if_splits)
qed (auto split: if_splits)

lemma find_str_append:
  "(\<And>j. j < length a \<Longrightarrow> \<not> prefix needle (drop j a @ needle @ b)) \<Longrightarrow>
     find_str needle (a @ needle @ b) = Some (length a)"
proof (induction a)
  case Nil
  show ?case
  proof (cases "needle @ b")
    case (Cons y ys)
    have "prefix needle (y # ys)"
      unfolding Cons [symmetric] by simp
    then show ?thesis by (simp add: Cons)
  qed simp
next
  case (Cons x a)
  have "\<not> prefix needle (x # a @ needle @ b)"
    using Cons.prems [of 0] by simp
  moreover have "find_str needle (a @ needle @ b) = Some (length a)"
  proof (rule Cons.IH)
    fix j
    assume "j < length a"
    then show "\<not> prefix needle (drop j a @ needle @ b)"
      using Cons.prems [of "Suc j"] by simp
  qed
  ultimately show ?case by simp
qed

lemma find_str_skip:
  "needle \<noteq> [] \<Longrightarrow> hd needle \<notin> set a \<Longrightarrow> find_str needle (a @ needle @ b) = Some (length a)"
proof (rule find_str_append)
  fix j
  assume n: "needle \<noteq> []" "hd needle \<notin> set a" and j: "j < length a"
  have "drop j a = a ! j # drop (Suc j) a" using j by (simp add: Cons_nth_drop_Suc)
  moreover have "a ! j \<noteq> hd needle" using n(2) nth_mem [OF j] by force
  ultimately show "\<not> prefix needle (drop j a @ needle @ b)"
    using n(1) by (cases needle) auto
qed

lemma find_str_absent: "needle \<noteq> [] \<Longrightarrow> hd needle \<notin> set s \<Longrightarrow> find_str needle s = None"
proof (induction s)
  case (Cons x s)
  then have "\<not> prefix needle (x # s)" by (cases needle) auto
  with Cons show ?case by simp
qed simp

lemma find_index_Some:
  "find_index P s = Some i \<Longrightarrow> i < length s \<and> P (s ! i) \<and> (\<forall>x \<in> set (take i s). \<not> P x)"
proof (induction s arbitrary: i)
  case (Cons x xs)
  then show ?case by (cases i) (auto split: if_splits)
qed simp

lemma find_index_None [simp]: "find_index P s = None \<longleftrightarrow> (\<forall>x \<in> set s. \<not> P x)"
  by (induction s) auto

lemma find_index_append:
  "(\<forall>x \<in> set a. \<not> P x) \<Longrightarrow> P x \<Longrightarrow> find_index P (a @ x # b) = Some (length a)"
  by (induction a) auto

section \<open>Printing and parsing numbers\<close>

lemma digit_value_digit_char [simp]: "d < 36 \<Longrightarrow> digit_value (digit_char d) = Some d"
  by (simp add: digit_value_def digit_char_def Let_def)

lemma show_base_digits:
  "2 \<le> b \<Longrightarrow> b \<le> 36 \<Longrightarrow> c \<in> set (show_base b n) \<Longrightarrow> is_digit_in b c"
proof (induction b n rule: show_base.induct)
  case (1 b n)
  show ?case
  proof (cases "n < b")
    case True
    with "1.prems" show ?thesis by (subst (asm) show_base.simps) (simp add: is_digit_in_def)
  next
    case False
    have "n mod b < b" using "1.prems"(1) by simp
    then have "is_digit_in b (digit_char (n mod b))" using "1.prems"(2) by (simp add: is_digit_in_def)
    with 1 False show ?thesis by (subst (asm) show_base.simps) auto
  qed
qed

lemma show_base_ne [simp]: "show_base b n \<noteq> []"
  by (subst show_base.simps) simp

lemma scan_digits_append:
  "\<forall>c \<in> set s. is_digit_in b c \<Longrightarrow> scan_digits b acc (s @ t) = scan_digits b (fst (scan_digits b acc s)) t"
  by (induction s arbitrary: acc) (auto simp: is_digit_in_def split: option.splits)

lemma scan_digits_show: "2 \<le> b \<Longrightarrow> b \<le> 36 \<Longrightarrow> scan_digits b 0 (show_base b n) = (n, [])"
proof (induction b n rule: show_base.induct)
  case (1 b n)
  show ?case
  proof (cases "n < b")
    case True
    with "1.prems" show ?thesis by (subst show_base.simps) simp
  next
    case False
    have m: "n mod b < b" using "1.prems"(1) by simp
    then have m36: "n mod b < 36" using "1.prems"(2) by linarith
    have e: "show_base b n = show_base b (n div b) @ [digit_char (n mod b)]"
      using False "1.prems" by (subst show_base.simps) simp
    have IH: "scan_digits b 0 (show_base b (n div b)) = (n div b, [])"
      using 1 False by simp
    have "scan_digits b 0 (show_base b n) = scan_digits b (n div b) [digit_char (n mod b)]"
      unfolding e using scan_digits_append [of "show_base b (n div b)" b 0] show_base_digits "1.prems" IH by simp
    also have "\<dots> = (n, [])" using m by (simp add: digit_value_digit_char [OF m36])
    finally show ?thesis .
  qed
qed

lemma digit_not_special:
  assumes "is_digit_in b c"
  shows "\<not> isspace c" and "c \<noteq> CHR ''-''" and "c \<noteq> CHR ''+''" and "c \<noteq> CHR 0x00" and "c \<noteq> CHR '',''"
    and "c \<noteq> CHR '';''" and "b \<le> 16 \<Longrightarrow> c \<noteq> CHR ''x'' \<and> c \<noteq> CHR ''X''" and "c \<noteq> CHR 0x0D" and "c \<noteq> CHR 0x0A"
  using assms by (auto simp: is_digit_in_def digit_value_def isspace_def)

lemma skip_0x_digits: "\<forall>c \<in> set s. is_digit_in b c \<Longrightarrow> b \<le> 16 \<Longrightarrow> skip_0x b s = s"
  using digit_not_special(7) by (fastforce simp: skip_0x_def split: list.splits)

lemma strtol_show:
  assumes "2 \<le> b" and "b \<le> 16"
  shows "strtol b (show_base b n) = (int n, [])"
proof -
  obtain c cs where s: "show_base b n = c # cs" by (cases "show_base b n") auto
  have d: "\<forall>c \<in> set (show_base b n). is_digit_in b c" using show_base_digits assms by simp
  then have c: "is_digit_in b c" by (simp add: s)
  have "dropWhile isspace (show_base b n) = show_base b n" and "strip_sign (show_base b n) = (False, show_base b n)"
    using digit_not_special [OF c] by (simp_all add: s strip_sign_def)
  then show ?thesis
    using skip_0x_digits [OF d assms(2)] scan_digits_show [of b n] assms c
    by (simp add: strtol_def s)
qed

text \<open>\<open>myatoi\<close> reads back what \<open>to_string\<close> prints, in any base up to 16.\<close>

lemma myatoi_show:
  assumes "2 \<le> b" and "b \<le> 16" and "n < 2 ^ 63"
  shows "myatoi b (show_base b n) = Inr (int n)"
proof -
  have "takeWhile (\<lambda>c. c \<noteq> CHR 0x00) (show_base b n) = show_base b n"
    using show_base_digits digit_not_special(4) assms by (fastforce simp: takeWhile_eq_all_conv)
  moreover have "int n < 2 ^ 63" using assms(3) by (simp only: of_nat_less_numeral_power_cancel_iff)
  ultimately show ?thesis
    unfolding myatoi_def Let_def using strtol_show [OF assms(1,2), of n] by (simp del: takeWhile_eq_all_conv)
qed

end
