(* ===== verification/Packet_Header.thy ===== *)
theory Packet_Header
  imports Mahimahi_Prelude
begin

unbundle bit_operations_syntax

text \<open>
  src/src/packet/packet_header.hh, the variant that is compiled (\<open>UDT4_PKT\<close> is defined):
  the fields an Octopus packet carries behind its TUN, IP and UDP headers, and src/src/packet/
  queued_packet.hh. A packet is the byte string read from the TUN device. The constructor copies
  words out of it without looking at its length, so reading past the terminating NUL of the
  string is \<open>Undefined_behaviour\<close>.
\<close>

section \<open>Model\<close>

text \<open>\<open>struct QueuedPacket\<close>: a packet waiting in a queue.\<close>

record QueuedPacket =
  arrival_time :: u64
  contents :: "byte list"
  is_drop :: bool

definition mk_QueuedPacket :: "byte list \<Rightarrow> u64 \<Rightarrow> QueuedPacket" where
  "mk_QueuedPacket s_contents s_arrival_time =
     \<lparr>arrival_time = s_arrival_time, contents = s_contents, is_drop = False\<rparr>"

datatype PktPos = FIRST | LAST | MID | SOLO

record PacketHeader =
  seq :: u32
  msg_field :: u32
  wildcard :: u32
  ip_field :: u32
  udp_field :: u32

definition app_header_offset :: nat where
  "app_header_offset = 32"

text \<open>\<open>memcpy( &w, c_str() + off, 4 ); w = ntohl( w )\<close>.\<close>

definition be32 :: "byte \<Rightarrow> byte \<Rightarrow> byte \<Rightarrow> byte \<Rightarrow> u32" where
  "be32 b0 b1 b2 b3 =
     push_bit 24 (ucast b0) OR push_bit 16 (ucast b1) OR push_bit 8 (ucast b2) OR ucast b3"

definition read_be32 :: "byte list \<Rightarrow> nat \<Rightarrow> u32 res" where
  "read_be32 payload off =
     (let c_str = payload @ [0] in
      if off + 4 \<le> length c_str
      then Inr (be32 (c_str ! off) (c_str ! (off + 1)) (c_str ! (off + 2)) (c_str ! (off + 3)))
      else Inl Undefined_behaviour)"

text \<open>\<open>PacketHeader::PacketHeader\<close>.\<close>

definition mk_PacketHeader :: "byte list \<Rightarrow> PacketHeader res" where
  "mk_PacketHeader payload =
     res_bind (read_be32 payload 12) (\<lambda>ip.
     res_bind (read_be32 payload 24) (\<lambda>udp.
     res_bind (read_be32 payload app_header_offset) (\<lambda>sq.
     res_bind (read_be32 payload (app_header_offset + 4)) (\<lambda>msg.
     res_bind (read_be32 payload (app_header_offset + 8)) (\<lambda>wild.
       Inr \<lparr>seq = sq, msg_field = msg, wildcard = wild, ip_field = ip, udp_field = udp\<rparr>)))))"

text \<open>\<open>msg_no\<close> is an \<open>int32_t\<close>; it is read through \<open>sint\<close>.\<close>

definition msg_no :: "PacketHeader \<Rightarrow> u32" where
  "msg_no h = msg_field h AND 0x1fffffff"

definition pkt_pos :: "PacketHeader \<Rightarrow> PktPos" where
  "pkt_pos h =
     (if msg_field h AND 0xc0000000 = 0x80000000 then FIRST
      else if msg_field h AND 0xc0000000 = 0x40000000 then LAST
      else if msg_field h AND 0xc0000000 = 0x00000000 then MID
      else SOLO)"

definition priority :: "PacketHeader \<Rightarrow> u32" where
  "priority h = drop_bit 29 (wildcard h AND 0xe0000000)"

definition priority_threshold :: "PacketHeader \<Rightarrow> u32" where
  "priority_threshold h = drop_bit 26 (wildcard h AND 0x1c000000)"

definition is_preempt :: "PacketHeader \<Rightarrow> bool" where
  "is_preempt h \<longleftrightarrow> wildcard h AND 0x2000000 \<noteq> 0"

definition slack_time :: "PacketHeader \<Rightarrow> u32" where
  "slack_time h = drop_bit 16 (wildcard h AND 0x01ff0000)"

definition bitrate :: "PacketHeader \<Rightarrow> u32" where
  "bitrate h = wildcard h AND 0x0000ffff"

definition is_udp :: "PacketHeader \<Rightarrow> bool" where
  "is_udp h \<longleftrightarrow> drop_bit 16 (ip_field h) AND 0x000000ff = 17"

definition is_octopus :: "PacketHeader \<Rightarrow> bool" where
  "is_octopus h \<longleftrightarrow> is_udp h \<and> seq h AND 0xa0000000 = 0"

definition dstport :: "PacketHeader \<Rightarrow> u16" where
  "dstport h = ucast (udp_field h AND 0x0000ffff)"

section \<open>Reading a header\<close>

text \<open>A packet is long enough for its header to be read iff it has at least 43 bytes.\<close>

abbreviation readable :: "byte list \<Rightarrow> bool" where
  "readable payload \<equiv> 43 \<le> length payload"

lemma read_be32_Inr: "off + 4 \<le> length payload + 1 \<Longrightarrow> \<exists>w. read_be32 payload off = Inr w"
  by (simp add: read_be32_def Let_def)

lemma mk_PacketHeader_readable: "readable payload \<Longrightarrow> \<exists>h. mk_PacketHeader payload = Inr h"
  by (simp add: mk_PacketHeader_def read_be32_def app_header_offset_def Let_def)

lemma mk_PacketHeader_unreadable: "\<not> readable payload \<Longrightarrow> mk_PacketHeader payload = Inl Undefined_behaviour"
  by (auto simp: mk_PacketHeader_def read_be32_def app_header_offset_def Let_def)

lemma mk_PacketHeader_readableE:
  assumes "mk_PacketHeader payload = Inr h"
  shows "readable payload"
  using assms mk_PacketHeader_unreadable by fastforce

section \<open>The fields of the wildcard word\<close>

lemma mask_numerals:
  "(0xe0000000 :: u32) = push_bit 29 (mask 3)"
  "(0x1c000000 :: u32) = push_bit 26 (mask 3)"
  "(0x2000000 :: u32) = push_bit 25 (mask 1)"
  "(0x01ff0000 :: u32) = push_bit 16 (mask 9)"
  "(0x0000ffff :: u32) = mask 16"
  "(0x1fffffff :: u32) = mask 29"
  by (simp_all add: mask_eq_exp_minus_1 push_bit_eq_mult)

lemma bit_field:
  "bit (drop_bit n ((w :: u32) AND push_bit n (mask k))) i \<longleftrightarrow> bit w (n + i) \<and> i < k"
  using bit_imp_le_length [of w "n + i"] by (auto simp: bit_simps)

lemma drop_bit_field: "drop_bit n ((w :: u32) AND push_bit n (mask k)) = drop_bit n w AND mask k"
proof (rule bit_word_eqI)
  fix i
  assume "i < LENGTH(32)"
  then show "bit (drop_bit n (w AND push_bit n (mask k))) i \<longleftrightarrow> bit (drop_bit n w AND mask k) i"
    unfolding bit_field by (auto simp: bit_simps)
qed

lemma unat_field_less: "unat (drop_bit n ((w :: u32) AND push_bit n (mask k))) < 2 ^ k"
proof -
  have "int (unat (drop_bit n w AND mask k)) < 2 ^ k"
    using and_mask_lt_2p [of "drop_bit n w" k] by (simp only: uint_nat)
  then show ?thesis by (simp only: drop_bit_field of_nat_less_numeral_power_cancel_iff)
qed

lemma bit_preempt_mask: "bit (0x2000000 :: int) n \<longleftrightarrow> n = 25"
proof -
  have "(0x2000000 :: int) = push_bit 25 1" by (simp add: push_bit_eq_mult)
  then show ?thesis by (simp only: bit_push_bit_iff_int bit_1_iff) auto
qed

lemma priority_bound: "unat (priority h) < 8"
  using unat_field_less [of 29 "wildcard h" 3] by (simp only: priority_def mask_numerals) simp

lemma priority_threshold_bound: "unat (priority_threshold h) < 8"
  using unat_field_less [of 26 "wildcard h" 3] by (simp only: priority_threshold_def mask_numerals) simp

lemma slack_time_bound: "unat (slack_time h) < 512"
  using unat_field_less [of 16 "wildcard h" 9] by (simp only: slack_time_def mask_numerals) simp

lemma bitrate_bound: "unat (bitrate h) < 2 ^ 16"
  using unat_field_less [of 0 "wildcard h" 16] by (simp only: bitrate_def mask_numerals) simp

lemma msg_no_bound: "unat (msg_no h) < 2 ^ 29"
  using unat_field_less [of 0 "msg_field h" 29] by (simp only: msg_no_def mask_numerals) simp

lemma is_preempt_bit: "is_preempt h \<longleftrightarrow> bit (wildcard h) 25"
proof -
  have "wildcard h AND 0x2000000 = (if bit (wildcard h) 25 then 0x2000000 else 0)"
    by (rule bit_word_eqI) (auto simp: bit_and_iff bit_preempt_mask)
  then show ?thesis by (simp add: is_preempt_def)
qed

lemma bit_wildcard_fields:
  "bit (priority h) i \<longleftrightarrow> bit (wildcard h) (29 + i) \<and> i < 3"
  "bit (priority_threshold h) i \<longleftrightarrow> bit (wildcard h) (26 + i) \<and> i < 3"
  "bit (slack_time h) i \<longleftrightarrow> bit (wildcard h) (16 + i) \<and> i < 9"
  "bit (bitrate h) i \<longleftrightarrow> bit (wildcard h) i \<and> i < 16"
  unfolding priority_def priority_threshold_def slack_time_def bitrate_def mask_numerals bit_field
  by (auto simp: bit_simps)

lemma wildcard_fields:
  "wildcard h = push_bit 29 (priority h) OR push_bit 26 (priority_threshold h) OR
     (if is_preempt h then 0x2000000 else 0) OR push_bit 16 (slack_time h) OR bitrate h"
  (is "_ = ?r")
proof (rule bit_word_eqI)
  fix n
  assume n: "n < LENGTH(32)"
  consider "n < 16" | "16 \<le> n" "n < 25" | "n = 25" | "26 \<le> n" "n < 29" | "29 \<le> n"
    by linarith
  then show "bit (wildcard h) n \<longleftrightarrow> bit ?r n"
    using n by cases (auto simp: bit_simps bit_wildcard_fields is_preempt_bit bit_preempt_mask)
qed

text \<open>
  An Octopus packet of 44 bytes for evaluations: destination port, position bits, message number,
  the byte that holds the priority, and the bitrate below 256.
\<close>

definition sample_packet :: "byte \<Rightarrow> byte \<Rightarrow> byte \<Rightarrow> byte \<Rightarrow> byte \<Rightarrow> byte list" where
  "sample_packet port pos msg prio rate =
     replicate 13 0 @ [17] @ replicate 12 0 @ [0, port] @ replicate 8 0 @ [pos, 0, 0, msg] @ [prio, 0, 0, rate]"

lemma mk_PacketHeader_sample:
  "mk_PacketHeader (sample_packet port pos msg prio rate) =
     Inr \<lparr>seq = 0, msg_field = be32 pos 0 0 msg, wildcard = be32 prio 0 0 rate,
          ip_field = 0x110000, udp_field = be32 0 0 0 port\<rparr>"
proof -
  have c: "sample_packet port pos msg prio rate @ [0] =
      [0,0,0,0,0,0,0,0,0,0,0,0, 0,17,0,0, 0,0,0,0,0,0,0,0, 0,0,0,port, 0,0,0,0, 0,0,0,0, pos,0,0,msg, prio,0,0,rate, 0]"
    by (simp add: sample_packet_def eval_nat_numeral)
  show ?thesis
    unfolding mk_PacketHeader_def read_be32_def app_header_offset_def c Let_def
    by (simp add: nth_Cons_numeral) (simp add: be32_def)
qed

lemmas header_eval = mk_PacketHeader_sample be32_def is_octopus_def is_udp_def pkt_pos_def msg_no_def dstport_def
  slack_time_def bitrate_def priority_def priority_threshold_def is_preempt_def mk_QueuedPacket_def

section \<open>Properties\<close>

text \<open>
  C28: The header of a packet can be read iff the packet has at least 43 bytes. The accessors of the
  wildcard word cut it into disjoint fields that together are the whole word, and each value lies
  in the range its users index arrays and compare times with.
\<close>

theorem header_fields:
  assumes "mk_PacketHeader payload = Inr h"
  shows "readable payload \<and>
     wildcard h = push_bit 29 (priority h) OR push_bit 26 (priority_threshold h) OR
       (if is_preempt h then 0x2000000 else 0) OR push_bit 16 (slack_time h) OR bitrate h \<and>
     unat (priority h) < 8 \<and> unat (priority_threshold h) < 8 \<and> unat (slack_time h) < 512 \<and>
     unat (bitrate h) < 2 ^ 16 \<and> 0 \<le> sint (msg_no h) \<and> sint (msg_no h) < 2 ^ 29"
proof -
  have "sint (msg_no h) = uint (msg_no h)"
    using msg_no_bound [of h] by (intro sint_small) simp
  moreover have "int (unat (msg_no h)) < 2 ^ 29"
    using msg_no_bound [of h] by (simp only: of_nat_less_numeral_power_cancel_iff)
  ultimately have "0 \<le> sint (msg_no h) \<and> sint (msg_no h) < 2 ^ 29" by simp
  then show ?thesis
    using mk_PacketHeader_readableE [OF assms] wildcard_fields priority_bound priority_threshold_bound
      slack_time_bound bitrate_bound by auto
qed

theorem header_fields_witness:
  "\<exists>h. mk_PacketHeader (sample_packet 80 0xc0 7 0x61 9) = Inr h \<and> unat (priority h) = 3 \<and>
     wildcard h = push_bit 29 (priority h) OR push_bit 26 (priority_threshold h) OR
       (if is_preempt h then 0x2000000 else 0) OR push_bit 16 (slack_time h) OR bitrate h"
proof -
  obtain h where h: "mk_PacketHeader (sample_packet 80 0xc0 7 0x61 9) = Inr h" and p: "unat (priority h) = 3"
    by (simp add: header_eval)
  with header_fields [OF h] show ?thesis by blast
qed

end
