(* ===== verification/Packet_Queue.thy ===== *)
theory Packet_Queue
  imports Packet_Header
begin

text \<open>
  The packet queue interface and its base class: src/src/packet/abstract_packet_queue.hh and
  src/src/packet/dropping_packet_queue.{hh,cc}.

  \<open>dropping_queue\<close> is the state of \<open>DroppingPacketQueue\<close>; the subclasses extend the record, as
  the C++ classes extend the base class, and the base operations work on every extension.
  \<open>queue_ops\<close> is the table of virtual functions of \<open>AbstractPacketQueue\<close>. The locale
  \<open>packet_queue\<close> states what a client may rely on when it calls through that table, and
  \<open>reliable_packet_queue\<close> adds that the calls return; both are interpreted by the queue classes
  in their own theories. \<open>queue_run\<close> is a sequence of calls through the table.
\<close>

section \<open>Model\<close>

text \<open>
  A line of the log file: its format and the numbers printed into it. \<open>log_fd = None\<close> is the
  null \<open>FILE *\<close>. \<open>bandwidth = None\<close> is the indeterminate value the field has until
  \<open>set_bandwidth\<close> is called, since no constructor initialises it.
\<close>

type_synonym log_line = "string \<times> int list"

record dropping_queue =
  queue_size_in_bytes :: u32
  queue_size_in_packets :: u32
  internal_queue :: "QueuedPacket list"
  packet_limit :: u32
  byte_limit :: u32
  log_fd :: "log_line list option"
  bandwidth :: "u32 option"

definition log_print :: "string \<Rightarrow> int list \<Rightarrow> 'a dropping_queue_scheme \<Rightarrow> 'a dropping_queue_scheme" where
  "log_print fmt args q = q\<lparr>log_fd := map_option (\<lambda>ls. ls @ [(fmt, args)]) (log_fd q)\<rparr>"

text \<open>\<open>size_bytes\<close>, \<open>size_packets\<close>, \<open>good_with\<close>, \<open>good\<close>, \<open>empty\<close>, \<open>accept\<close>.\<close>

definition size_bytes :: "'a dropping_queue_scheme \<Rightarrow> u32 res" where
  "size_bytes q = asserting (0 \<le> sint (queue_size_in_bytes q)) (Inr (queue_size_in_bytes q))"

definition size_packets :: "'a dropping_queue_scheme \<Rightarrow> u32 res" where
  "size_packets q = asserting (0 \<le> sint (queue_size_in_packets q)) (Inr (queue_size_in_packets q))"

definition good_with :: "u32 \<Rightarrow> u32 \<Rightarrow> 'a dropping_queue_scheme \<Rightarrow> bool" where
  "good_with size_in_bytes size_in_packets q \<longleftrightarrow>
     (byte_limit q \<noteq> 0 \<longrightarrow> size_in_bytes \<le> byte_limit q) \<and>
     (packet_limit q \<noteq> 0 \<longrightarrow> size_in_packets \<le> packet_limit q)"

definition good :: "'a dropping_queue_scheme \<Rightarrow> bool res" where
  "good q = res_bind (size_bytes q) (\<lambda>b. res_bind (size_packets q) (\<lambda>n. Inr (good_with b n q)))"

definition queue_empty :: "'a dropping_queue_scheme \<Rightarrow> bool" where
  "queue_empty q \<longleftrightarrow> internal_queue q = []"

definition accept :: "QueuedPacket \<Rightarrow> 'a dropping_queue_scheme \<Rightarrow> 'a dropping_queue_scheme" where
  "accept p q = q\<lparr>queue_size_in_bytes := queue_size_in_bytes q + of_nat (length (contents p)),
                  queue_size_in_packets := queue_size_in_packets q + 1,
                  internal_queue := internal_queue q @ [p]\<rparr>"

text \<open>
  \<open>assert( good() )\<close> before a value is returned, and the test every limited \<open>enqueue\<close> makes:
  \<open>good_with( size_bytes() + p.contents.size(), size_packets() + 1 )\<close>.
\<close>

definition assert_good :: "'a dropping_queue_scheme \<Rightarrow> 'b res \<Rightarrow> 'b res" where
  "assert_good q k = res_bind (good q) (\<lambda>g. asserting g k)"

definition has_room :: "QueuedPacket \<Rightarrow> 'a dropping_queue_scheme \<Rightarrow> bool res" where
  "has_room p q =
     res_bind (size_bytes q) (\<lambda>b. res_bind (size_packets q) (\<lambda>n.
       Inr (good_with (b + of_nat (length (contents p))) (n + 1) q)))"

text \<open>
  Removing the front packet: \<open>pop_front\<close> on the deque, and the two counters, which
  \<open>dequeue\<close> adjusts after it has written the log.
\<close>

definition uncount :: "QueuedPacket \<Rightarrow> 'a dropping_queue_scheme \<Rightarrow> 'a dropping_queue_scheme" where
  "uncount p q = q\<lparr>queue_size_in_bytes := queue_size_in_bytes q - of_nat (length (contents p)),
                   queue_size_in_packets := queue_size_in_packets q - 1\<rparr>"

definition log_dequeue :: "u64 \<Rightarrow> QueuedPacket \<Rightarrow> 'a dropping_queue_scheme \<Rightarrow> 'a dropping_queue_scheme res" where
  "log_dequeue ts ret q =
     (if log_fd q = None then Inr q
      else res_bind (mk_PacketHeader (contents ret)) (\<lambda>h. res_bind (size_bytes q) (\<lambda>sz.
        Inr (if is_udp h
             then log_print ''dequeue, UDP''
                    [uint ts, int (length (contents ret)), uint sz, sint (ts - arrival_time ret), uint (seq h)] q
             else log_print ''dequeue, TCP''
                    [uint ts, int (length (contents ret)), uint sz, sint (ts - arrival_time ret)] q))))"

text \<open>\<open>DroppingPacketQueue::dequeue\<close>.\<close>

definition dropping_dequeue :: "u64 \<Rightarrow> 'a dropping_queue_scheme \<Rightarrow> (QueuedPacket \<times> 'a dropping_queue_scheme) res" where
  "dropping_dequeue ts q =
     (case internal_queue q of
        [] \<Rightarrow> Inl Assertion_failed
      | ret # rest \<Rightarrow>
          res_bind (log_dequeue ts ret (q\<lparr>internal_queue := rest\<rparr>)) (\<lambda>q1.
            let q2 = uncount ret q1 in assert_good q2 (Inr (ret, q2))))"

definition set_bandwidth :: "u32 \<Rightarrow> 'a dropping_queue_scheme \<Rightarrow> 'a dropping_queue_scheme" where
  "set_bandwidth b q = q\<lparr>bandwidth := Some b\<rparr>"

text \<open>\<open>to_string\<close>, over the name \<open>type()\<close> gives.\<close>

definition dropping_to_string :: "string \<Rightarrow> 'a dropping_queue_scheme \<Rightarrow> string" where
  "dropping_to_string type q =
     type @ '' ['' @
     (if byte_limit q \<noteq> 0 then ''bytes='' @ show_nat (unat (byte_limit q)) else []) @
     (if packet_limit q \<noteq> 0
      then (if byte_limit q \<noteq> 0 then '', '' else []) @ ''packets='' @ show_nat (unat (packet_limit q))
      else []) @ '']''"

text \<open>\<open>DroppingPacketQueue::get_arg\<close>.\<close>

definition get_arg :: "string \<Rightarrow> string \<Rightarrow> string res" where
  "get_arg args name =
     (case find_str name args of
        None \<Rightarrow> Inr []
      | Some i \<Rightarrow>
          let offset = i + length name;
              failure = Inl (Runtime_error (''could not parse queue arguments: '' @ args))
          in if take 1 (drop offset args) \<noteq> ''='' then failure
             else
               let rest = drop (offset + 1) args;
                   digit_string = (case find_index (\<lambda>c. c = CHR '','') rest of
                                     None \<Rightarrow> rest | Some j \<Rightarrow> take j rest)
               in if digit_string = [] then failure else Inr digit_string)"

text \<open>
  The pattern of every constructor: a numeric argument that keeps its default when it is absent
  (a \<open>long\<close> stored into an \<open>unsigned int\<close>).
\<close>

definition numeric_arg :: "string \<Rightarrow> string \<Rightarrow> u32 res" where
  "numeric_arg args name =
     res_bind (get_arg args name) (\<lambda>argv.
       if argv = [] then Inr 0 else res_bind (myatoi 10 argv) (\<lambda>v. Inr (of_int v)))"

text \<open>
  The constructor. \<open>fopen_ok\<close> says for which names \<open>fopen( name, "w" )\<close> gives a file; the code
  stores the null pointer otherwise.
\<close>

definition mk_dropping_queue :: "(string \<Rightarrow> bool) \<Rightarrow> string \<Rightarrow> dropping_queue res" where
  "mk_dropping_queue fopen_ok args =
     res_bind (numeric_arg args ''packets'') (\<lambda>pl.
     res_bind (numeric_arg args ''bytes'') (\<lambda>bl.
       if pl = 0 \<and> bl = 0 then Inl (Runtime_error ''Dropping queue must have a byte or packet limit.'')
       else res_bind (get_arg args ''log_file'') (\<lambda>f.
         Inr \<lparr>queue_size_in_bytes = 0, queue_size_in_packets = 0, internal_queue = [],
              packet_limit = pl, byte_limit = bl,
              log_fd = (if f \<noteq> [] \<and> fopen_ok f then Some [] else None), bandwidth = None\<rparr>)))"

text \<open>The virtual functions of \<open>AbstractPacketQueue\<close>.\<close>

record 'q queue_ops =
  op_enqueue :: "env \<Rightarrow> QueuedPacket \<Rightarrow> 'q \<Rightarrow> 'q res"
  op_dequeue :: "env \<Rightarrow> 'q \<Rightarrow> (QueuedPacket \<times> 'q) res"
  op_empty :: "'q \<Rightarrow> bool"
  op_to_string :: "'q \<Rightarrow> string"
  op_size_bytes :: "'q \<Rightarrow> u32 res"
  op_size_packets :: "'q \<Rightarrow> u32 res"
  op_set_bandwidth :: "u32 \<Rightarrow> 'q \<Rightarrow> 'q"

section \<open>The contract\<close>

text \<open>What identifies a packet: the drop mark is the only field a queue writes.\<close>

definition stamp :: "QueuedPacket \<Rightarrow> u64 \<times> byte list" where
  "stamp p = (arrival_time p, contents p)"

abbreviation pkt_bytes :: "QueuedPacket \<Rightarrow> nat" where
  "pkt_bytes p \<equiv> length (contents p)"

definition total_bytes :: "QueuedPacket list \<Rightarrow> nat" where
  "total_bytes ps = sum_list (map pkt_bytes ps)"

text \<open>There is room in the \<open>int\<close> counters for one more packet.\<close>

definition fits :: "QueuedPacket \<Rightarrow> QueuedPacket list \<Rightarrow> bool" where
  "fits p ps \<longleftrightarrow> total_bytes ps + pkt_bytes p < 2 ^ 31 \<and> length ps + 1 < 2 ^ 31"

text \<open>\<open>served xs ys\<close>: \<open>xs\<close> arises from \<open>ys\<close> by leaving packets out, never by reordering,
  altering or inventing them.\<close>

definition served :: "QueuedPacket list \<Rightarrow> QueuedPacket list \<Rightarrow> bool" where
  "served xs ys \<longleftrightarrow> subseq (map stamp xs) (map stamp ys)"

lemma total_bytes_simps [simp]:
  "total_bytes [] = 0"
  "total_bytes (p # ps) = pkt_bytes p + total_bytes ps"
  "total_bytes (ps @ qs) = total_bytes ps + total_bytes qs"
  by (simp_all add: total_bytes_def)

lemma total_bytes_stamp: "total_bytes ps = sum_list (map (\<lambda>s. length (snd s)) (map stamp ps))"
  by (induction ps) (simp_all add: stamp_def)

lemma subseq_sum_list_le: "subseq xs ys \<Longrightarrow> sum_list (map f xs) \<le> (sum_list (map f ys) :: nat)"
  by (induction rule: list_emb.induct) auto

lemma served_refl [simp]: "served xs xs"
  by (simp add: served_def)

lemma served_trans: "served xs ys \<Longrightarrow> served ys zs \<Longrightarrow> served xs zs"
  by (auto simp: served_def intro: subseq_order.order_trans)

lemma served_append: "served xs ys \<Longrightarrow> served us vs \<Longrightarrow> served (xs @ us) (ys @ vs)"
  by (auto simp: served_def intro: list_emb_append_mono)

lemma served_Cons: "served xs ys \<Longrightarrow> served (p # xs) (p # ys)"
  by (simp add: served_def)

lemma served_skip: "served xs ys \<Longrightarrow> served xs (p # ys)"
  by (auto simp: served_def intro: list_emb_Cons)

lemma served_tail: "served (p # xs) ys \<Longrightarrow> served xs ys"
  by (auto simp: served_def dest: subseq_Cons')

lemma served_length: "served xs ys \<Longrightarrow> length xs \<le> length ys"
  by (auto simp: served_def dest: list_emb_length)

lemma served_total_bytes: "served xs ys \<Longrightarrow> total_bytes xs \<le> total_bytes ys"
  unfolding served_def total_bytes_stamp by (rule subseq_sum_list_le)

lemma served_member: "served xs ys \<Longrightarrow> p \<in> set xs \<Longrightarrow> stamp p \<in> stamp ` set ys"
  unfolding served_def by (drule list_emb_set [where x = "stamp p"]) auto

lemma served_all:
  assumes "served xs ys" and "\<And>p q. stamp p = stamp q \<Longrightarrow> P p = P q" and "\<forall>p \<in> set ys. P p"
  shows "\<forall>p \<in> set xs. P p"
  using served_member [OF assms(1)] assms(2,3) by blast

locale packet_queue =
  fixes ops :: "'q queue_ops"
    and pkts :: "'q \<Rightarrow> QueuedPacket list"
    and inv :: "'q \<Rightarrow> bool"
  assumes op_empty_iff: "op_empty ops q \<longleftrightarrow> pkts q = []"
    and op_size_bytes_eq: "inv q \<Longrightarrow> op_size_bytes ops q = Inr (of_nat (total_bytes (pkts q)))"
    and op_size_packets_eq: "inv q \<Longrightarrow> op_size_packets ops q = Inr (of_nat (length (pkts q)))"
    and inv_bounds: "inv q \<Longrightarrow> total_bytes (pkts q) < 2 ^ 31 \<and> length (pkts q) < 2 ^ 31"
    and enqueue_inv: "inv q \<Longrightarrow> fits p (pkts q) \<Longrightarrow> op_enqueue ops e p q = Inr q' \<Longrightarrow> inv q'"
    and enqueue_served: "inv q \<Longrightarrow> fits p (pkts q) \<Longrightarrow> op_enqueue ops e p q = Inr q' \<Longrightarrow>
           served (pkts q') (pkts q @ [p])"
    and dequeue_inv: "inv q \<Longrightarrow> op_dequeue ops e q = Inr (p, q') \<Longrightarrow> inv q'"
    and dequeue_served: "inv q \<Longrightarrow> op_dequeue ops e q = Inr (p, q') \<Longrightarrow> served (p # pkts q') (pkts q)"
    and bandwidth_inv: "inv q \<Longrightarrow> inv (op_set_bandwidth ops b q)"
    and bandwidth_pkts: "pkts (op_set_bandwidth ops b q) = pkts q"
begin

text \<open>The two assertions \<open>LinkQueue::read_packet\<close> makes about the queue it calls.\<close>

lemma enqueue_grows_by_at_most_one:
  assumes "inv q" and "fits p (pkts q)" and "op_enqueue ops e p q = Inr q'"
  shows "length (pkts q') \<le> length (pkts q) + 1"
  using served_length [OF enqueue_served [OF assms]] by simp

lemma enqueue_bytes_grow_by_at_most:
  assumes "inv q" and "fits p (pkts q)" and "op_enqueue ops e p q = Inr q'"
  shows "total_bytes (pkts q') \<le> total_bytes (pkts q) + pkt_bytes p"
  using served_total_bytes [OF enqueue_served [OF assms]] by simp

lemma dequeue_from_nonempty: "inv q \<Longrightarrow> op_dequeue ops e q = Inr (p, q') \<Longrightarrow> pkts q \<noteq> []"
  using dequeue_served served_length by fastforce

lemma dequeue_member: "inv q \<Longrightarrow> op_dequeue ops e q = Inr (p, q') \<Longrightarrow> stamp p \<in> stamp ` set (pkts q)"
  using served_member [OF dequeue_served] by simp

lemma dequeue_rest: "inv q \<Longrightarrow> op_dequeue ops e q = Inr (p, q') \<Longrightarrow> served (pkts q') (pkts q)"
  using dequeue_served served_tail by blast

end

locale reliable_packet_queue = packet_queue +
  assumes enqueue_returns: "inv q \<Longrightarrow> fits p (pkts q) \<Longrightarrow> readable (contents p) \<Longrightarrow>
       \<exists>q'. op_enqueue ops e p q = Inr q'"
    and dequeue_returns: "inv q \<Longrightarrow> pkts q \<noteq> [] \<Longrightarrow> \<forall>p \<in> set (pkts q). readable (contents p) \<Longrightarrow>
       \<exists>p q'. op_dequeue ops e q = Inr (p, q')"

section \<open>Sequences of calls\<close>

text \<open>What a client does with a queue, and the packets that come out of it.\<close>

datatype queue_call = Enqueue_call env QueuedPacket | Dequeue_call env | Bandwidth_call u32

fun queue_run :: "'q queue_ops \<Rightarrow> queue_call list \<Rightarrow> 'q \<Rightarrow> (QueuedPacket list \<times> 'q) res" where
  "queue_run ops [] q = Inr ([], q)"
| "queue_run ops (Enqueue_call e p # cs) q = res_bind (op_enqueue ops e p q) (queue_run ops cs)"
| "queue_run ops (Dequeue_call e # cs) q =
     res_bind (op_dequeue ops e q) (\<lambda>(p, q1). res_bind (queue_run ops cs q1) (\<lambda>(out, q2). Inr (p # out, q2)))"
| "queue_run ops (Bandwidth_call b # cs) q = queue_run ops cs (op_set_bandwidth ops b q)"

fun offered :: "queue_call list \<Rightarrow> QueuedPacket list" where
  "offered [] = []"
| "offered (Enqueue_call e p # cs) = p # offered cs"
| "offered (c # cs) = offered cs"

definition small :: "QueuedPacket list \<Rightarrow> bool" where
  "small ps \<longleftrightarrow> total_bytes ps < 2 ^ 31 \<and> length ps < 2 ^ 31"

lemma small_served: "served xs ys \<Longrightarrow> small ys \<Longrightarrow> small xs"
  using served_total_bytes served_length unfolding small_def by (meson le_less_trans)

context packet_queue
begin

lemma queue_run_keeps:
  "queue_run ops cs q = Inr (out, q') \<Longrightarrow> inv q \<Longrightarrow> small (pkts q @ offered cs) \<Longrightarrow>
     inv q' \<and> served (out @ pkts q') (pkts q @ offered cs)"
proof (induction cs arbitrary: q out)
  case (Cons c cs)
  show ?case
  proof (cases c)
    case (Enqueue_call e p)
    obtain q1 where q1: "op_enqueue ops e p q = Inr q1" "queue_run ops cs q1 = Inr (out, q')"
      using Cons.prems(1) Enqueue_call by auto
    have "fits p (pkts q)" using Cons.prems(3) Enqueue_call by (simp add: fits_def small_def)
    note step = enqueue_inv [OF Cons.prems(2) this q1(1)] enqueue_served [OF Cons.prems(2) this q1(1)]
    have sv: "served (pkts q1 @ offered cs) (pkts q @ offered (c # cs))"
      using served_append [OF step(2) served_refl [of "offered cs"]] Enqueue_call by simp
    then show ?thesis using Cons.IH [OF q1(2) step(1)] small_served [OF sv Cons.prems(3)] served_trans by blast
  next
    case (Dequeue_call e)
    obtain p q1 out1 where q1: "op_dequeue ops e q = Inr (p, q1)" "queue_run ops cs q1 = Inr (out1, q')" "out = p # out1"
      using Cons.prems(1) Dequeue_call by auto
    note step = dequeue_inv [OF Cons.prems(2) q1(1)] dequeue_served [OF Cons.prems(2) q1(1)]
    have sv: "served (p # pkts q1 @ offered cs) (pkts q @ offered (c # cs))"
      using served_append [OF step(2) served_refl [of "offered cs"]] Dequeue_call by simp
    have "inv q' \<and> served (out1 @ pkts q') (pkts q1 @ offered cs)"
      using Cons.IH [OF q1(2) step(1)] small_served [OF served_tail [OF sv] Cons.prems(3)] by blast
    then show ?thesis using served_trans [OF served_Cons sv] q1(3) by simp
  next
    case (Bandwidth_call b)
    then show ?thesis using Cons.IH [of "op_set_bandwidth ops b q" out] Cons.prems bandwidth_inv [of q b] by (simp add: bandwidth_pkts)
  qed
qed simp

end

section \<open>The base class keeps its counters\<close>

text \<open>The counters count what is queued, and have not wrapped.\<close>

definition dq_inv :: "'a dropping_queue_scheme \<Rightarrow> bool" where
  "dq_inv q \<longleftrightarrow>
     total_bytes (internal_queue q) < 2 ^ 31 \<and> length (internal_queue q) < 2 ^ 31 \<and>
     queue_size_in_bytes q = of_nat (total_bytes (internal_queue q)) \<and>
     queue_size_in_packets q = of_nat (length (internal_queue q))"

text \<open>The limits are met.\<close>

definition within_limits :: "'a dropping_queue_scheme \<Rightarrow> bool" where
  "within_limits q \<longleftrightarrow>
     (byte_limit q \<noteq> 0 \<longrightarrow> total_bytes (internal_queue q) \<le> unat (byte_limit q)) \<and>
     (packet_limit q \<noteq> 0 \<longrightarrow> length (internal_queue q) \<le> unat (packet_limit q))"

lemma unat_of_nat_u32: "n < 2 ^ 32 \<Longrightarrow> unat (of_nat n :: u32) = n"
  by (simp add: unat_of_nat)

lemma of_nat_le_u32: "n < 2 ^ 32 \<Longrightarrow> (of_nat n :: u32) \<le> w \<longleftrightarrow> n \<le> unat w"
  by (simp add: word_le_nat_alt unat_of_nat)

lemma of_nat_add_le_u32: "m + n < 2 ^ 32 \<Longrightarrow> (of_nat m + of_nat n :: u32) \<le> w \<longleftrightarrow> m + n \<le> unat w"
  using of_nat_le_u32 [of "m + n" w] by simp

lemma of_nat_Suc_le_u32: "Suc n < 2 ^ 32 \<Longrightarrow> (of_nat n + 1 :: u32) \<le> w \<longleftrightarrow> Suc n \<le> unat w"
  using of_nat_add_le_u32 [of n 1 w] by simp

lemma size_bytes_inv [queue_simps]:
  "dq_inv q \<Longrightarrow> size_bytes q = Inr (of_nat (total_bytes (internal_queue q)))"
  by (simp add: dq_inv_def size_bytes_def sint_of_nat_u32)

lemma size_packets_inv [queue_simps]:
  "dq_inv q \<Longrightarrow> size_packets q = Inr (of_nat (length (internal_queue q)))"
  by (simp add: dq_inv_def size_packets_def sint_of_nat_u32)

lemma good_inv [queue_simps]: "dq_inv q \<Longrightarrow> good q = Inr (within_limits q)"
  by (simp add: good_def queue_simps)
     (simp add: good_with_def within_limits_def of_nat_le_u32 dq_inv_def)

lemma has_room_inv [queue_simps]:
  "dq_inv q \<Longrightarrow> fits p (internal_queue q) \<Longrightarrow> has_room p q = Inr (within_limits (accept p q))"
  unfolding has_room_def
  by (simp add: queue_simps)
     (simp add: good_with_def within_limits_def of_nat_add_le_u32 of_nat_Suc_le_u32 accept_def fits_def)

lemma assert_good_inv [queue_simps]:
  "dq_inv q \<Longrightarrow> assert_good q k = (if within_limits q then k else Inl Assertion_failed)"
  by (simp add: assert_good_def queue_simps asserting_def)

lemma accept_inv [intro]: "dq_inv q \<Longrightarrow> fits p (internal_queue q) \<Longrightarrow> dq_inv (accept p q)"
  by (simp add: dq_inv_def accept_def fits_def)

lemma internal_queue_accept [simp]: "internal_queue (accept p q) = internal_queue q @ [p]"
  by (simp add: accept_def)

lemma pop_inv [intro]:
  "dq_inv q \<Longrightarrow> internal_queue q = p # rest \<Longrightarrow> dq_inv (uncount p (q\<lparr>internal_queue := rest\<rparr>))"
  by (simp add: dq_inv_def uncount_def)

lemma pop_within_limits [intro]:
  "within_limits q \<Longrightarrow> internal_queue q = p # rest \<Longrightarrow> within_limits (uncount p (q\<lparr>internal_queue := rest\<rparr>))"
  by (auto simp: within_limits_def uncount_def)

text \<open>Logging and \<open>set_bandwidth\<close> leave the packets, the counters and the limits alone.\<close>

lemma log_print_frame [simp]:
  "internal_queue (log_print f a q) = internal_queue q"
  "dq_inv (log_print f a q) = dq_inv q"
  "within_limits (log_print f a q) = within_limits q"
  "dq_inv (q\<lparr>log_fd := l\<rparr>) = dq_inv q"
  "within_limits (q\<lparr>log_fd := l\<rparr>) = within_limits q"
  by (simp_all add: log_print_def dq_inv_def within_limits_def)

lemma set_bandwidth_frame [simp]:
  "internal_queue (set_bandwidth b q) = internal_queue q"
  "dq_inv (set_bandwidth b q) = dq_inv q"
  "within_limits (set_bandwidth b q) = within_limits q"
  by (simp_all add: set_bandwidth_def dq_inv_def within_limits_def)

lemma uncount_log_print: "uncount p (log_print f a q) = log_print f a (uncount p q)"
  by (simp add: uncount_def log_print_def)

lemma size_bytes_drop_front:
  "dq_inv q \<Longrightarrow> size_bytes (q\<lparr>internal_queue := ps\<rparr>) = Inr (of_nat (total_bytes (internal_queue q)))"
  by (simp add: dq_inv_def size_bytes_def sint_of_nat_u32)

lemma log_dequeue_frame:
  assumes "log_dequeue ts p q = Inr q'"
  shows "\<exists>l. q' = q\<lparr>log_fd := l\<rparr>"
  using assms by (auto simp: log_dequeue_def log_print_def split: if_splits) (metis dropping_queue.surjective dropping_queue.update_convs(6))

lemma log_dequeue_returns:
  assumes "dq_inv q" and "readable (contents p)"
  shows "\<exists>l. log_dequeue ts p (q\<lparr>internal_queue := ps\<rparr>) = Inr (q\<lparr>internal_queue := ps, log_fd := l\<rparr>)"
proof -
  from assms(2) obtain h where h: "mk_PacketHeader (contents p) = Inr h"
    using mk_PacketHeader_readable by blast
  show ?thesis
  proof (cases "log_fd q")
    case None
    then have "log_dequeue ts p (q\<lparr>internal_queue := ps\<rparr>) = Inr (q\<lparr>internal_queue := ps, log_fd := None\<rparr>)"
      by (cases q) (simp add: log_dequeue_def)
    then show ?thesis ..
  next
    case (Some l)
    with h assms(1) show ?thesis
      by (auto simp: log_dequeue_def size_bytes_drop_front log_print_def)
  qed
qed

text \<open>What \<open>DroppingPacketQueue::dequeue\<close> does: it hands out the front packet.\<close>

lemma dropping_dequeue_Inr:
  assumes "dropping_dequeue ts q = Inr (p, q')"
  obtains rest l where "internal_queue q = p # rest"
    and "q' = (uncount p (q\<lparr>internal_queue := rest\<rparr>))\<lparr>log_fd := l\<rparr>"
proof -
  from assms obtain rest q1 where q: "internal_queue q = p # rest"
    and l: "log_dequeue ts p (q\<lparr>internal_queue := rest\<rparr>) = Inr q1" and q': "q' = uncount p q1"
    by (auto simp: dropping_dequeue_def Let_def assert_good_def split: list.splits)
  from log_dequeue_frame [OF l] obtain m where "q1 = q\<lparr>internal_queue := rest, log_fd := m\<rparr>"
    by blast
  with q' have "q' = (uncount p (q\<lparr>internal_queue := rest\<rparr>))\<lparr>log_fd := m\<rparr>"
    by (simp add: uncount_def)
  with q show thesis by (rule that)
qed

lemma dropping_dequeue_inv:
  assumes "dq_inv q" and "dropping_dequeue ts q = Inr (p, q')"
  shows "dq_inv q'" and "internal_queue q = p # internal_queue q'"
proof -
  obtain rest l where q: "internal_queue q = p # rest"
    and q': "q' = (uncount p (q\<lparr>internal_queue := rest\<rparr>))\<lparr>log_fd := l\<rparr>"
    using assms(2) by (rule dropping_dequeue_Inr)
  show "dq_inv q'"
    unfolding q' log_print_frame using assms(1) q by (rule pop_inv)
  show "internal_queue q = p # internal_queue q'"
    unfolding q' q by (simp add: uncount_def)
qed

lemma dropping_dequeue_limits:
  assumes "within_limits q" and "dropping_dequeue ts q = Inr (p, q')"
  shows "within_limits q'"
proof -
  obtain rest l where q: "internal_queue q = p # rest"
    and q': "q' = (uncount p (q\<lparr>internal_queue := rest\<rparr>))\<lparr>log_fd := l\<rparr>"
    using assms(2) by (rule dropping_dequeue_Inr)
  show ?thesis
    unfolding q' log_print_frame using assms(1) q by (rule pop_within_limits)
qed

lemma dropping_dequeue_returns:
  assumes "dq_inv q" and "within_limits q" and "internal_queue q = p # rest" and "readable (contents p)"
  shows "\<exists>l. dropping_dequeue ts q = Inr (p, (uncount p (q\<lparr>internal_queue := rest\<rparr>))\<lparr>log_fd := l\<rparr>)"
proof -
  obtain l where l: "log_dequeue ts p (q\<lparr>internal_queue := rest\<rparr>) = Inr (q\<lparr>internal_queue := rest, log_fd := l\<rparr>)"
    using log_dequeue_returns assms(1,4) by blast
  have "uncount p (q\<lparr>internal_queue := rest, log_fd := l\<rparr>) = (uncount p (q\<lparr>internal_queue := rest\<rparr>))\<lparr>log_fd := l\<rparr>"
    by (simp add: uncount_def)
  with l show ?thesis
    using pop_inv [OF assms(1,3)] pop_within_limits [OF assms(2,3)] assms(3)
    by (auto simp: dropping_dequeue_def Let_def assert_good_inv)
qed

section \<open>Constructing a queue\<close>

lemma myatoi_show_nat: "n < 2 ^ 63 \<Longrightarrow> myatoi 10 (show_nat n) = Inr (int n)"
  by (rule myatoi_show) simp_all

lemma show_nat_no_letter: "digit_value c \<noteq> None \<Longrightarrow> 10 \<le> the (digit_value c) \<Longrightarrow> c \<notin> set (show_nat n)"
  using show_base_digits [of 10 c n] by (auto simp: is_digit_in_def)

lemma show_nat_no_comma: "\<forall>c \<in> set (show_nat n). c \<noteq> CHR '',''"
  using show_base_digits [of 10 _ n] digit_not_special(5) by auto

text \<open>A number argument is found, cut at the comma and read back.\<close>

lemma get_arg_found:
  assumes "name \<noteq> []" and "hd name \<notin> set before" and "digits \<noteq> []" and "\<forall>c \<in> set digits. c \<noteq> CHR '',''"
    and "rest = [] \<or> hd rest = CHR '',''"
  shows "get_arg (before @ name @ ''='' @ digits @ rest) name = Inr digits"
proof -
  have f: "find_str name (before @ name @ CHR ''='' # digits @ rest) = Some (length before)"
    using find_str_skip [OF assms(1,2)] .
  have i: "find_index (\<lambda>c. c = CHR '','') (digits @ rest) = (if rest = [] then None else Some (length digits))"
    using assms(4,5) by (cases rest) (simp_all add: find_index_append)
  show ?thesis
    using assms(3) by (simp add: get_arg_def Let_def f i)
qed

lemma numeric_arg_found:
  assumes "name \<noteq> []" and "hd name \<notin> set before" and "n < 2 ^ 63" and "rest = [] \<or> hd rest = CHR '',''"
  shows "numeric_arg (before @ name @ ''='' @ show_nat n @ rest) name = Inr (of_nat n)"
  using get_arg_found [of name before "show_nat n" rest] assms show_nat_no_comma
  by (simp add: numeric_arg_def myatoi_show_nat)

text \<open>
  Writing limits into an argument string and constructing a queue from it gives a queue with
  these limits, empty, with exact counters and the limits met; the log file is absent when the
  string does not name one.
\<close>

lemma mk_dropping_queue_args:
  assumes "0 < n" and "n < 2 ^ 32" and "0 < m" and "m < 2 ^ 32"
  shows "\<exists>q. mk_dropping_queue fopen_ok (''packets='' @ show_nat n @ '',bytes='' @ show_nat m) = Inr q \<and>
     unat (packet_limit q) = n \<and> unat (byte_limit q) = m \<and> log_fd q = None \<and>
     dq_inv q \<and> within_limits q \<and> internal_queue q = []"
proof -
  let ?args = "''packets='' @ show_nat n @ '',bytes='' @ show_nat m"
  have p: "numeric_arg ?args ''packets'' = Inr (of_nat n)"
    using numeric_arg_found [of "''packets''" "[]" n "'',bytes='' @ show_nat m"] assms by simp
  have no_b: "CHR ''b'' \<notin> set (show_nat n)" and no_l: "CHR ''l'' \<notin> set (show_nat k)" for k
    by (rule show_nat_no_letter, simp_all add: digit_value_def)+
  have b: "numeric_arg ?args ''bytes'' = Inr (of_nat m)"
    using numeric_arg_found [of "''bytes''" "''packets='' @ show_nat n @ '',''" m "[]"] assms no_b by simp
  have l: "get_arg ?args ''log_file'' = Inr []"
    using find_str_absent [of "''log_file''" ?args] no_l by (simp add: get_arg_def)
  have nz: "of_nat n \<noteq> (0 :: u32)"
    using assms(1,2) unat_of_nat_u32 [of n] by (metis less_not_refl unat_0)
  show ?thesis
    using p b l nz assms
    by (simp add: mk_dropping_queue_def unat_of_nat_u32 dq_inv_def within_limits_def del: append.simps)
qed

end
