(* ===== verification/Basic_Queues.thy ===== *)
theory Basic_Queues
  imports Packet_Queue
begin

text \<open>
  The three plain queue disciplines: \<open>InfinitePacketQueue\<close> (src/src/packet/
  infinite_packet_queue.hh), \<open>DropTailPacketQueue\<close> (drop_tail_packet_queue.hh) and
  \<open>DropHeadPacketQueue\<close> (drop_head_packet_queue.hh). The first two implement the reliable
  contract. Drop-head implements the contract only for the calls that return: its \<open>enqueue\<close>
  drops through the base class's \<open>dequeue\<close>, which asserts that one removal was enough.
\<close>

section \<open>Model\<close>

record infinite_queue =
  iq_internal_queue :: "QueuedPacket list"
  iq_queue_size_in_bytes :: u32
  iq_queue_size_in_packets :: u32

definition mk_infinite_queue :: "string \<Rightarrow> infinite_queue res" where
  "mk_infinite_queue args =
     (if args \<noteq> [] then Inl (Runtime_error ''InfinitePacketQueue does not take arguments.'')
      else Inr \<lparr>iq_internal_queue = [], iq_queue_size_in_bytes = 0, iq_queue_size_in_packets = 0\<rparr>)"

definition infinite_enqueue :: "QueuedPacket \<Rightarrow> infinite_queue \<Rightarrow> infinite_queue res" where
  "infinite_enqueue p q =
     Inr (q\<lparr>iq_queue_size_in_bytes := iq_queue_size_in_bytes q + of_nat (length (contents p)),
            iq_queue_size_in_packets := iq_queue_size_in_packets q + 1,
            iq_internal_queue := iq_internal_queue q @ [p]\<rparr>)"

definition infinite_dequeue :: "infinite_queue \<Rightarrow> (QueuedPacket \<times> infinite_queue) res" where
  "infinite_dequeue q =
     (case iq_internal_queue q of
        [] \<Rightarrow> Inl Assertion_failed
      | ret # rest \<Rightarrow>
          Inr (ret, q\<lparr>iq_internal_queue := rest,
                      iq_queue_size_in_bytes := iq_queue_size_in_bytes q - of_nat (length (contents ret)),
                      iq_queue_size_in_packets := iq_queue_size_in_packets q - 1\<rparr>))"

definition infinite_empty :: "infinite_queue \<Rightarrow> bool" where
  "infinite_empty q \<longleftrightarrow> iq_internal_queue q = []"

definition infinite_size_bytes :: "infinite_queue \<Rightarrow> u32 res" where
  "infinite_size_bytes q =
     asserting (0 \<le> sint (iq_queue_size_in_bytes q)) (Inr (iq_queue_size_in_bytes q))"

definition infinite_size_packets :: "infinite_queue \<Rightarrow> u32 res" where
  "infinite_size_packets q =
     asserting (0 \<le> sint (iq_queue_size_in_packets q)) (Inr (iq_queue_size_in_packets q))"

definition infinite_ops :: "infinite_queue queue_ops" where
  "infinite_ops =
     \<lparr>op_enqueue = (\<lambda>e. infinite_enqueue), op_dequeue = (\<lambda>e. infinite_dequeue),
      op_empty = infinite_empty, op_to_string = (\<lambda>q. ''infinite''),
      op_size_bytes = infinite_size_bytes, op_size_packets = infinite_size_packets,
      op_set_bandwidth = (\<lambda>b q. q)\<rparr>"

text \<open>
  \<open>DropTailPacketQueue::enqueue\<close>. The header is built before anything else, whether or not it
  is logged. \<open>log_tail\<close> is the pair of \<open>fprintf\<close> calls both branches make.
\<close>

definition log_tail :: "string \<Rightarrow> int \<Rightarrow> QueuedPacket \<Rightarrow> PacketHeader \<Rightarrow> dropping_queue \<Rightarrow> dropping_queue res" where
  "log_tail event ts p h q =
     (if log_fd q = None then Inr q
      else res_bind (size_bytes q) (\<lambda>sz.
        Inr (if is_udp h
             then log_print (event @ '', UDP'')
                    [ts, int (length (contents p)), uint sz, sint (seq h), sint (msg_no h)] q
             else log_print (event @ '', TCP'') [ts, int (length (contents p)), uint sz] q)))"

definition droptail_enqueue :: "u64 \<Rightarrow> QueuedPacket \<Rightarrow> dropping_queue \<Rightarrow> dropping_queue res" where
  "droptail_enqueue ts p q =
     res_bind (mk_PacketHeader (contents p)) (\<lambda>h.
     res_bind (log_tail ''enqueue'' (sint ts) p h q) (\<lambda>q1.
     res_bind (has_room p q1) (\<lambda>room.
     res_bind (if room then Inr (accept p q1) else log_tail ''drop'' (uint ts) p h q1) (\<lambda>q2.
       assert_good q2 (Inr q2)))))"

definition droptail_ops :: "dropping_queue queue_ops" where
  "droptail_ops =
     \<lparr>op_enqueue = (\<lambda>e. droptail_enqueue (clock e 0)), op_dequeue = (\<lambda>e. dropping_dequeue (clock e 0)),
      op_empty = queue_empty, op_to_string = dropping_to_string ''droptail'',
      op_size_bytes = size_bytes, op_size_packets = size_packets, op_set_bandwidth = set_bandwidth\<rparr>"

text \<open>\<open>DropHeadPacketQueue::enqueue\<close>: \<open>while ( not good() ) { dequeue(); }\<close>.\<close>

function drophead_trim :: "(nat \<Rightarrow> u64) \<Rightarrow> dropping_queue \<Rightarrow> dropping_queue res" where
  "drophead_trim ts q =
     res_bind (good q) (\<lambda>g.
       if g then Inr q
       else res_bind (dropping_dequeue (ts 0) q) (\<lambda>r. drophead_trim (\<lambda>i. ts (Suc i)) (snd r)))"
  by pat_completeness auto
termination
proof (relation "measure (\<lambda>(ts, q). length (internal_queue q))")
  fix ts :: "nat \<Rightarrow> u64" and q :: dropping_queue and g :: bool
    and r :: "QueuedPacket \<times> dropping_queue"
  assume "dropping_dequeue (ts 0) q = Inr r"
  then have "dropping_dequeue (ts 0) q = Inr (fst r, snd r)" by simp
  then show "((\<lambda>i. ts (Suc i), snd r), ts, q) \<in> measure (\<lambda>(ts, q). length (internal_queue q))"
    by (rule dropping_dequeue_Inr) (simp add: uncount_def)
qed simp

definition drophead_enqueue :: "(nat \<Rightarrow> u64) \<Rightarrow> QueuedPacket \<Rightarrow> dropping_queue \<Rightarrow> dropping_queue res" where
  "drophead_enqueue ts p q = drophead_trim ts (accept p q)"

definition drophead_ops :: "dropping_queue queue_ops" where
  "drophead_ops =
     \<lparr>op_enqueue = (\<lambda>e. drophead_enqueue (clock e)), op_dequeue = (\<lambda>e. dropping_dequeue (clock e 0)),
      op_empty = queue_empty, op_to_string = dropping_to_string ''drophead'',
      op_size_bytes = size_bytes, op_size_packets = size_packets, op_set_bandwidth = set_bandwidth\<rparr>"

section \<open>The infinite queue\<close>

definition iq_inv :: "infinite_queue \<Rightarrow> bool" where
  "iq_inv q \<longleftrightarrow>
     total_bytes (iq_internal_queue q) < 2 ^ 31 \<and> length (iq_internal_queue q) < 2 ^ 31 \<and>
     iq_queue_size_in_bytes q = of_nat (total_bytes (iq_internal_queue q)) \<and>
     iq_queue_size_in_packets q = of_nat (length (iq_internal_queue q))"

lemmas infinite_defs = infinite_ops_def infinite_enqueue_def infinite_dequeue_def infinite_empty_def
  infinite_size_bytes_def infinite_size_packets_def

interpretation infinite: reliable_packet_queue infinite_ops iq_internal_queue iq_inv
  by unfold_locales
    (auto simp: infinite_defs iq_inv_def sint_of_nat_u32 fits_def split: list.splits)

section \<open>Drop-tail\<close>

declare drophead_trim.simps [simp del]

lemma log_tail_frame: "log_tail ev ts p h q = Inr q' \<Longrightarrow> \<exists>l. q' = q\<lparr>log_fd := l\<rparr>"
  by (cases q) (auto simp: log_tail_def log_print_def split: if_splits)

lemma log_tail_returns: "dq_inv q \<Longrightarrow> \<exists>l. log_tail ev ts p h q = Inr (q\<lparr>log_fd := l\<rparr>)"
  by (cases q) (auto simp: log_tail_def log_print_def queue_simps)

lemma accept_log [simp]:
  "accept p (q\<lparr>log_fd := l\<rparr>) = (accept p q)\<lparr>log_fd := l\<rparr>"
  by (simp add: accept_def)

text \<open>
  All that drop-tail does, up to the log: it appends the packet if the limits allow it and
  leaves the queue as it is otherwise.
\<close>

lemma droptail_enqueue_eq:
  assumes "dq_inv q" and "within_limits q" and "fits p (internal_queue q)" and "readable (contents p)"
  shows "\<exists>l. droptail_enqueue ts p q =
           Inr ((if within_limits (accept p q) then accept p q else q)\<lparr>log_fd := l\<rparr>)"
proof -
  obtain h where h: "mk_PacketHeader (contents p) = Inr h"
    using assms(4) mk_PacketHeader_readable by blast
  obtain l1 where l1: "log_tail ''enqueue'' (sint ts) p h q = Inr (q\<lparr>log_fd := l1\<rparr>)"
    using log_tail_returns [OF assms(1)] by blast
  have room: "has_room p (q\<lparr>log_fd := l1\<rparr>) = Inr (within_limits (accept p q))"
    using assms by (simp add: has_room_inv)
  show ?thesis
  proof (cases "within_limits (accept p q)")
    case True
    then show ?thesis
      using accept_inv [OF assms(1,3)] by (auto simp: droptail_enqueue_def h l1 room assert_good_inv)
  next
    case False
    obtain l2 where "log_tail ''drop'' (uint ts) p h (q\<lparr>log_fd := l1\<rparr>) = Inr (q\<lparr>log_fd := l2\<rparr>)"
      using log_tail_returns [of "q\<lparr>log_fd := l1\<rparr>" "''drop''" "uint ts" p h] assms(1) by auto
    with False show ?thesis
      using assms by (auto simp: droptail_enqueue_def h l1 room assert_good_inv)
  qed
qed

abbreviation limited_inv :: "'a dropping_queue_scheme \<Rightarrow> bool" where
  "limited_inv q \<equiv> dq_inv q \<and> within_limits q"

lemma droptail_enqueue_readable: "droptail_enqueue ts p q = Inr q' \<Longrightarrow> readable (contents p)"
  by (auto simp: droptail_enqueue_def dest: mk_PacketHeader_readableE)

lemma dq_inv_bounds: "dq_inv q \<Longrightarrow> total_bytes (internal_queue q) < 2 ^ 31 \<and> length (internal_queue q) < 2 ^ 31"
  by (simp add: dq_inv_def)

lemma droptail_enqueue_Inr:
  assumes "limited_inv q" and "fits p (internal_queue q)" and "droptail_enqueue ts p q = Inr q'"
  shows "limited_inv q' \<and> (internal_queue q' = internal_queue q @ [p] \<or> internal_queue q' = internal_queue q)"
  using droptail_enqueue_eq [of q p ts] droptail_enqueue_readable [OF assms(3)] assms accept_inv [of q p]
  by (auto split: if_splits)

lemma served_snoc_skip: "served ps (ps @ [p])"
  using served_append [OF served_refl, of "[]" "[p]" ps] by (simp add: served_def)

text \<open>What every subclass that keeps the base class's counters owes to the contract.\<close>

lemma base_dequeue_inv: "limited_inv q \<Longrightarrow> dropping_dequeue ts q = Inr (p, q') \<Longrightarrow> limited_inv q'"
  using dropping_dequeue_inv(1) dropping_dequeue_limits by blast

lemma base_dequeue_served:
  "limited_inv q \<Longrightarrow> dropping_dequeue ts q = Inr (p, q') \<Longrightarrow> served (p # internal_queue q') (internal_queue q)"
  using dropping_dequeue_inv(2) by fastforce

lemma base_dequeue_returns:
  assumes "limited_inv q" and "internal_queue q \<noteq> []" and "\<forall>p \<in> set (internal_queue q). readable (contents p)"
  shows "\<exists>p q'. dropping_dequeue ts q = Inr (p, q')"
  using assms dropping_dequeue_returns [of q "hd (internal_queue q)" "tl (internal_queue q)" ts]
  by (cases "internal_queue q") auto

interpretation droptail: reliable_packet_queue droptail_ops internal_queue limited_inv
proof (unfold_locales, goal_cases)
  case (4 q) then show ?case by (simp add: dq_inv_def)
next
  case (5 q p e q') then show ?case
    using droptail_enqueue_Inr [of q p "clock e 0" q'] by (auto simp: droptail_ops_def)
next
  case (6 q p e q') then show ?case
    using droptail_enqueue_Inr [of q p "clock e 0" q'] by (auto simp: droptail_ops_def served_snoc_skip)
next
  case (11 q p e) then show ?case
    using droptail_enqueue_eq [of q p "clock e 0"] by (auto simp: droptail_ops_def)
next
  case (12 q e) then show ?case
    using base_dequeue_returns [of q "clock e 0"] by (auto simp: droptail_ops_def)
next
  case (7 q e p q') then show ?case
    using base_dequeue_inv by (simp add: droptail_ops_def)
next
  case (8 q e p q') then show ?case
    using base_dequeue_served by (simp add: droptail_ops_def)
qed (simp_all add: droptail_ops_def queue_empty_def queue_simps dq_inv_bounds)

section \<open>Drop-head\<close>

text \<open>The queue after \<open>pop_front\<close> and the adjustment of the counters.\<close>

abbreviation without_front :: "'a dropping_queue_scheme \<Rightarrow> 'a dropping_queue_scheme" where
  "without_front q \<equiv> uncount (hd (internal_queue q)) (q\<lparr>internal_queue := tl (internal_queue q)\<rparr>)"

lemma drophead_trim_good: "dq_inv q \<Longrightarrow> within_limits q \<Longrightarrow> drophead_trim ts q = Inr q"
  by (subst drophead_trim.simps) (simp add: good_inv)

lemma dropping_dequeue_outcome:
  assumes "dq_inv q" and "internal_queue q \<noteq> []" and "readable (contents (hd (internal_queue q)))"
  shows "\<exists>l. dropping_dequeue ts q =
           (if within_limits (without_front q)
            then Inr (hd (internal_queue q), (without_front q)\<lparr>log_fd := l\<rparr>) else Inl Assertion_failed)"
proof -
  obtain p rest where q: "internal_queue q = p # rest"
    using assms(2) by (cases "internal_queue q") auto
  obtain l where l: "log_dequeue ts p (q\<lparr>internal_queue := rest\<rparr>) = Inr (q\<lparr>internal_queue := rest, log_fd := l\<rparr>)"
    using log_dequeue_returns [OF assms(1)] assms(3) q by fastforce
  have "uncount p (q\<lparr>internal_queue := rest, log_fd := l\<rparr>) = (uncount p (q\<lparr>internal_queue := rest\<rparr>))\<lparr>log_fd := l\<rparr>"
    by (simp add: uncount_def)
  with l show ?thesis
    using pop_inv [OF assms(1) q] by (auto simp: q dropping_dequeue_def Let_def assert_good_inv)
qed

lemma drophead_enqueue_cases:
  assumes "dq_inv q" and "fits p (internal_queue q)"
    and "readable (contents (hd (internal_queue q @ [p])))"
  shows "\<exists>l. drophead_enqueue ts p q =
     (if within_limits (accept p q) then Inr (accept p q)
      else if within_limits (without_front (accept p q)) then Inr ((without_front (accept p q))\<lparr>log_fd := l\<rparr>)
      else Inl Assertion_failed)"
proof -
  let ?q = "accept p q"
  have inv: "dq_inv ?q" using assms(1,2) by (rule accept_inv)
  have ne: "internal_queue ?q \<noteq> []" by simp
  obtain l where l: "dropping_dequeue (ts 0) ?q =
      (if within_limits (without_front ?q)
       then Inr (hd (internal_queue ?q), (without_front ?q)\<lparr>log_fd := l\<rparr>) else Inl Assertion_failed)"
    using dropping_dequeue_outcome [OF inv ne] assms(3) by auto
  have inv': "dq_inv (without_front ?q)"
    by (rule pop_inv [OF inv]) simp
  have trim: "within_limits (without_front ?q) \<Longrightarrow>
      drophead_trim ts' ((without_front ?q)\<lparr>log_fd := l\<rparr>) = Inr ((without_front ?q)\<lparr>log_fd := l\<rparr>)" for ts'
    using inv' by (simp add: drophead_trim_good del: internal_queue_accept)
  have "drophead_enqueue ts p q =
     (if within_limits ?q then Inr ?q
      else if within_limits (without_front ?q) then Inr ((without_front ?q)\<lparr>log_fd := l\<rparr>)
      else Inl Assertion_failed)"
    unfolding drophead_enqueue_def
    by (subst drophead_trim.simps)
      (simp add: good_inv [OF inv] l trim del: internal_queue_accept)
  then show ?thesis ..
qed

lemma drophead_trim_inv:
  "drophead_trim ts q = Inr q' \<Longrightarrow> dq_inv q \<Longrightarrow>
     dq_inv q' \<and> within_limits q' \<and> suffix (internal_queue q') (internal_queue q)"
proof (induction ts q rule: drophead_trim.induct)
  case (1 ts q)
  show ?case
  proof (cases "within_limits q")
    case True
    with 1 show ?thesis by (simp add: drophead_trim_good)
  next
    case False
    with "1.prems" obtain p q1 where d: "dropping_dequeue (ts 0) q = Inr (p, q1)"
      and r: "drophead_trim (\<lambda>i. ts (Suc i)) q1 = Inr q'"
      by (subst (asm) drophead_trim.simps) (auto simp: good_inv)
    have "dq_inv q' \<and> within_limits q' \<and> suffix (internal_queue q') (internal_queue q1)"
      using "1.IH" [of False "(p, q1)"] False "1.prems" d r dropping_dequeue_inv(1) [OF "1.prems"(2) d]
      by (simp add: good_inv)
    then show ?thesis
      using dropping_dequeue_inv(2) [OF "1.prems"(2) d] by (simp add: suffix_ConsI)
  qed
qed

lemma suffix_served: "suffix xs ys \<Longrightarrow> served xs ys"
  by (auto simp: served_def suffix_def intro: list_emb_append2)

interpretation drophead: packet_queue drophead_ops internal_queue limited_inv
proof (unfold_locales, goal_cases)
  case (4 q) then show ?case by (simp add: dq_inv_def)
next
  case (5 q p e q') then show ?case
    using drophead_trim_inv [of "clock e" "accept p q" q'] accept_inv [of q p]
    by (auto simp: drophead_ops_def drophead_enqueue_def)
next
  case (6 q p e q') then show ?case
    using drophead_trim_inv [of "clock e" "accept p q" q'] accept_inv [of q p]
    by (simp add: drophead_ops_def drophead_enqueue_def suffix_served del: suffix_snoc)
next
  case (7 q e p q') then show ?case
    using base_dequeue_inv by (simp add: drophead_ops_def)
next
  case (8 q e p q') then show ?case
    using base_dequeue_served by (simp add: drophead_ops_def)
qed (simp_all add: drophead_ops_def queue_empty_def queue_simps dq_inv_bounds)

section \<open>Properties\<close>

definition sample_base :: "QueuedPacket list \<Rightarrow> dropping_queue" where
  "sample_base ps =
     \<lparr>queue_size_in_bytes = of_nat (total_bytes ps), queue_size_in_packets = of_nat (length ps), internal_queue = ps,
      packet_limit = 1, byte_limit = 60, log_fd = None, bandwidth = None\<rparr>"

lemmas sample_base_simps = sample_base_def dq_inv_def within_limits_def fits_def accept_def mk_QueuedPacket_def uncount_def

text \<open>
  Drop-tail is a bounded first-in-first-out queue: \<open>enqueue\<close> returns, appends the packet at the
  end when the byte and packet limits allow it, and otherwise leaves the queued packets as they
  are; the counters stay exact and the limits met.
\<close>

lemma droptail_enqueue_spec:
  assumes "dq_inv q" and "within_limits q" and "fits p (internal_queue q)" and "readable (contents p)"
  shows "\<exists>q'. droptail_enqueue ts p q = Inr q' \<and> dq_inv q' \<and> within_limits q' \<and>
     internal_queue q' = (if within_limits (accept p q) then internal_queue q @ [p] else internal_queue q)"
  using droptail_enqueue_eq [OF assms, of ts] accept_inv [OF assms(1,3)] assms(1,2) by auto

text \<open>
  C22: Every outcome of drop-head's \<open>enqueue\<close>: the packet is appended when the limits allow it; else
  the front packet is dropped when that is enough; and when dropping one packet is not enough the
  call aborts on the assertion of \<open>DroppingPacketQueue::dequeue\<close>.
\<close>

theorem drophead_enqueue_outcome:
  assumes "dq_inv q" and "fits p (internal_queue q)" and "readable (contents (hd (internal_queue q @ [p])))"
  shows "if within_limits (accept p q) then drophead_enqueue ts p q = Inr (accept p q)
     else if within_limits (without_front (accept p q))
     then \<exists>q'. drophead_enqueue ts p q = Inr q' \<and> dq_inv q' \<and> internal_queue q' = tl (internal_queue q @ [p])
     else drophead_enqueue ts p q = Inl Assertion_failed"
proof -
  obtain l where "drophead_enqueue ts p q =
     (if within_limits (accept p q) then Inr (accept p q)
      else if within_limits (without_front (accept p q)) then Inr ((without_front (accept p q))\<lparr>log_fd := l\<rparr>)
      else Inl Assertion_failed)"
    using drophead_enqueue_cases [OF assms] by blast
  moreover have "dq_inv (without_front (accept p q))"
    by (rule pop_inv [OF accept_inv [OF assms(1,2)]]) simp
  ultimately show ?thesis by (simp add: uncount_def)
qed

theorem drophead_enqueue_outcome_witness:
  "drophead_enqueue (\<lambda>_. 0) (mk_QueuedPacket (replicate 61 0) 3) (sample_base [mk_QueuedPacket (replicate 50 0) 1]) =
     Inl Assertion_failed"
  using drophead_enqueue_outcome [of "sample_base [mk_QueuedPacket (replicate 50 0) 1]"
      "mk_QueuedPacket (replicate 61 0) 3" "\<lambda>_. 0"]
  by (simp add: sample_base_simps)

end
