(* ===== verification/Codel_Queue.thy ===== *)
theory Codel_Queue
  imports Basic_Queues
begin

text \<open>
  \<open>CODELPacketQueue\<close>, src/src/packet/codel_packet_queue.{hh,cc}: controlled delay queue
  management. The state extends the base class. The square root in \<open>control_law\<close> is taken in
  the reals; the code takes it in \<open>double\<close>.

  In \<open>dequeue\<close> the packets taken while dropping are bound to an inner variable \<open>r\<close> that hides
  the outer one, so what is returned is always the packet that was at the front when the call
  began, and the packets that are discarded are those behind it. The model does the same.
\<close>

section \<open>Model\<close>

record codel_queue = dropping_queue +
  target :: u32
  interval :: u32
  first_above_time :: u64
  drop_next :: u64
  count :: u32
  lastcount :: u32
  dropping :: bool

definition PACKET_SIZE :: nat where
  "PACKET_SIZE = 1504"

definition mk_codel_queue :: "(string \<Rightarrow> bool) \<Rightarrow> string \<Rightarrow> codel_queue res" where
  "mk_codel_queue fopen_ok args =
     res_bind (mk_dropping_queue fopen_ok args) (\<lambda>base.
     res_bind (numeric_arg args ''target'') (\<lambda>t.
     res_bind (numeric_arg args ''interval'') (\<lambda>i.
       if t = 0 \<or> i = 0
       then Inl (Runtime_error ''CoDel queue must have target and interval arguments.'')
       else Inr (dropping_queue.extend base
              (codel_queue.fields t i 0 0 0 0 False)))))"

text \<open>
  \<open>CODELPacketQueue::dodequeue\<close>. Popping an empty deque is undefined. The first component is
  the packet, the second \<open>ok_to_drop\<close>.
\<close>

definition dodequeue :: "u64 \<Rightarrow> codel_queue \<Rightarrow> ((QueuedPacket \<times> bool) \<times> codel_queue) res" where
  "dodequeue now q =
     (case internal_queue q of
        [] \<Rightarrow> Inl Undefined_behaviour
      | p # rest \<Rightarrow>
          let q1 = uncount p (q\<lparr>internal_queue := rest\<rparr>) in
          assert_good q1
            (if queue_empty q1 then Inr ((p, False), q1\<lparr>first_above_time := 0\<rparr>)
             else res_bind (size_bytes q1) (\<lambda>sz.
               let sojourn_time = now - arrival_time p in
               if sojourn_time < ucast (target q1) \<or> unat sz \<le> PACKET_SIZE
               then Inr ((p, False), q1\<lparr>first_above_time := 0\<rparr>)
               else if first_above_time q1 = 0
               then Inr ((p, False), q1\<lparr>first_above_time := now + ucast (interval q1)\<rparr>)
               else Inr ((p, first_above_time q1 \<le> now), q1))))"

lemma dodequeue_Inr:
  assumes "dodequeue now q = Inr ((p, ok), q')"
  obtains rest f where "internal_queue q = p # rest"
    and "q' = (uncount p (q\<lparr>internal_queue := rest\<rparr>))\<lparr>first_above_time := f\<rparr>"
    and "ok \<Longrightarrow> rest \<noteq> []"
proof (cases "internal_queue q")
  case Nil
  with assms show thesis by (simp add: dodequeue_def)
next
  case (Cons x rest)
  let ?q = "uncount x (q\<lparr>internal_queue := rest\<rparr>)"
  have e: "\<exists>f. ?q = ?q\<lparr>first_above_time := f\<rparr>"
    by (rule exI [of _ "first_above_time ?q"]) simp
  have "internal_queue q = p # rest" and "ok \<Longrightarrow> rest \<noteq> []"
    using assms Cons
    by (auto simp: dodequeue_def Let_def assert_good_def queue_empty_def uncount_def split: if_splits)
  moreover have "\<exists>f. q' = ?q\<lparr>first_above_time := f\<rparr>"
    using assms Cons e
    by (auto simp: dodequeue_def Let_def assert_good_def simp del: ex_simps split: if_splits)
  ultimately show thesis using that Cons by auto
qed

lemma dodequeue_shorter:
  assumes "dodequeue now q = Inr r"
  shows "length (internal_queue (snd r)) < length (internal_queue q)"
proof -
  obtain p ok q' where r: "r = ((p, ok), q')" by (metis prod.exhaust)
  from assms [unfolded r] show ?thesis
    by (rule dodequeue_Inr) (simp add: r uncount_def)
qed

text \<open>\<open>control_law\<close>: \<open>t + (uint64_t) ( interval_ / sqrt (count) )\<close>; the cast of an infinite
  quotient is undefined.\<close>

definition control_law :: "u64 \<Rightarrow> u32 \<Rightarrow> codel_queue \<Rightarrow> u64 res" where
  "control_law t c q =
     (if c = 0 then Inl Undefined_behaviour
      else Inr (t + of_int \<lfloor>real (unat (interval q)) / sqrt (real (unat c))\<rfloor>))"

text \<open>\<open>while ( now >= drop_next_ && dropping_ )\<close>.\<close>

function codel_drop_loop :: "u64 \<Rightarrow> codel_queue \<Rightarrow> codel_queue res" where
  "codel_drop_loop now q =
     (if drop_next q \<le> now \<and> dropping q
      then res_bind (dodequeue now q) (\<lambda>r.
        let q1 = (snd r)\<lparr>count := count (snd r) + 1\<rparr> in
        if \<not> snd (fst r) then codel_drop_loop now (q1\<lparr>dropping := False\<rparr>)
        else res_bind (control_law (drop_next q1) (count q1) q1) (\<lambda>dn.
          codel_drop_loop now (q1\<lparr>drop_next := dn\<rparr>)))
      else Inr q)"
  by pat_completeness auto
termination
  by (relation "measure (\<lambda>(now, q). length (internal_queue q))")
    (auto dest: dodequeue_shorter)

definition codel_log_dequeue :: "u64 \<Rightarrow> QueuedPacket \<Rightarrow> codel_queue \<Rightarrow> codel_queue res" where
  "codel_log_dequeue ts p q =
     (if log_fd q = None then Inr q
      else res_bind (mk_PacketHeader (contents p)) (\<lambda>h. res_bind (size_bytes q) (\<lambda>sz.
        Inr (if is_udp h
             then log_print ''dequeue, UDP''
                    [sint ts, int (length (contents p)), uint sz, sint (ts - arrival_time p), sint (seq h)] q
             else log_print ''dequeue, TCP''
                    [sint ts, int (length (contents p)), uint sz, sint (ts - arrival_time p)] q))))"

text \<open>
  \<open>CODELPacketQueue::dequeue\<close>. \<open>16 * interval_\<close> is computed in 32 bits, \<open>delta\<close> too.
\<close>

definition codel_enter_dropping :: "u64 \<Rightarrow> codel_queue \<Rightarrow> codel_queue res" where
  "codel_enter_dropping now q =
     res_bind (dodequeue now q) (\<lambda>r.
       let q1 = (snd r)\<lparr>dropping := True\<rparr>;
           delta = count q1 - lastcount q1;
           c = (if 1 < delta \<and> now - drop_next q1 < ucast (16 * interval q1) then delta else 1)
       in res_bind (control_law now c (q1\<lparr>count := c\<rparr>)) (\<lambda>dn.
            Inr (q1\<lparr>count := c, drop_next := dn, lastcount := c\<rparr>)))"

definition codel_dequeue :: "(nat \<Rightarrow> u64) \<Rightarrow> codel_queue \<Rightarrow> (QueuedPacket \<times> codel_queue) res" where
  "codel_dequeue clk q =
     (let now = clk 0 in
      res_bind (dodequeue now q) (\<lambda>r.
      let p = fst (fst r); ok = snd (fst r); q1 = snd r in
      res_bind
        (if dropping q1
         then codel_drop_loop now (if \<not> ok then q1\<lparr>dropping := False\<rparr> else q1)
         else if ok then codel_enter_dropping now q1
         else Inr q1) (\<lambda>q2.
      res_bind (codel_log_dequeue (clk 1) p q2) (\<lambda>q3. Inr (p, q3)))))"

text \<open>\<open>CODELPacketQueue::enqueue\<close>.\<close>

definition codel_enqueue :: "u64 \<Rightarrow> QueuedPacket \<Rightarrow> codel_queue \<Rightarrow> codel_queue res" where
  "codel_enqueue ts p q =
     res_bind (has_room p q) (\<lambda>room.
     res_bind
       (if room
        then res_bind
          (if log_fd q = None then Inr q
           else res_bind (mk_PacketHeader (contents p)) (\<lambda>h. res_bind (size_bytes q) (\<lambda>sz.
             Inr (if is_udp h
                  then log_print ''enqueue, UDP'' [sint ts, int (length (contents p)), uint sz, sint (seq h)] q
                  else log_print ''enqueue, TCP'' [sint ts, int (length (contents p)), uint sz] q))))
          (\<lambda>q1. Inr (accept p q1))
        else Inr q) (\<lambda>q2.
       assert_good q2 (Inr q2)))"

definition codel_ops :: "codel_queue queue_ops" where
  "codel_ops =
     \<lparr>op_enqueue = (\<lambda>e. codel_enqueue (clock e 0)), op_dequeue = (\<lambda>e. codel_dequeue (clock e)),
      op_empty = queue_empty, op_to_string = dropping_to_string ''codel'',
      op_size_bytes = size_bytes, op_size_packets = size_packets, op_set_bandwidth = set_bandwidth\<rparr>"

section \<open>The dequeue loop\<close>

declare codel_drop_loop.simps [simp del]

lemma codel_frame [simp]:
  "dq_inv (q\<lparr>first_above_time := f\<rparr>) = dq_inv q" "within_limits (q\<lparr>first_above_time := f\<rparr>) = within_limits q"
  "dq_inv (q\<lparr>drop_next := d\<rparr>) = dq_inv q" "within_limits (q\<lparr>drop_next := d\<rparr>) = within_limits q"
  "dq_inv (q\<lparr>count := c\<rparr>) = dq_inv q" "within_limits (q\<lparr>count := c\<rparr>) = within_limits q"
  "dq_inv (q\<lparr>lastcount := c\<rparr>) = dq_inv q" "within_limits (q\<lparr>lastcount := c\<rparr>) = within_limits q"
  "dq_inv (q\<lparr>dropping := b\<rparr>) = dq_inv q" "within_limits (q\<lparr>dropping := b\<rparr>) = within_limits q"
  by (simp_all add: dq_inv_def within_limits_def)

lemma dodequeue_inv:
  assumes "limited_inv q" and "dodequeue now q = Inr ((p, ok), q')"
  shows "limited_inv q'" and "internal_queue q = p # internal_queue q'"
    and "count q' = count q" and "dropping q' = dropping q" and "log_fd q' = log_fd q"
proof -
  obtain rest f where q: "internal_queue q = p # rest"
    and q': "q' = (uncount p (q\<lparr>internal_queue := rest\<rparr>))\<lparr>first_above_time := f\<rparr>"
    using assms(2) by (rule dodequeue_Inr)
  show "limited_inv q'"
    unfolding q' codel_frame using pop_inv [OF _ q] pop_within_limits [OF _ q] assms(1) by blast
  show "internal_queue q = p # internal_queue q'" and "count q' = count q"
    and "dropping q' = dropping q" and "log_fd q' = log_fd q"
    unfolding q' using q by (simp_all add: uncount_def)
qed

lemma dodequeue_ok:
  assumes "limited_inv q" and "dodequeue now q = Inr ((p, True), q')"
  shows "PACKET_SIZE < total_bytes (internal_queue q')" and "ucast (target q) \<le> now - arrival_time p"
    and "first_above_time q \<noteq> 0" and "first_above_time q \<le> now"
proof -
  obtain rest f where q: "internal_queue q = p # rest"
    and q': "q' = (uncount p (q\<lparr>internal_queue := rest\<rparr>))\<lparr>first_above_time := f\<rparr>"
    using assms(2) by (rule dodequeue_Inr)
  let ?q = "uncount p (q\<lparr>internal_queue := rest\<rparr>)"
  have inv: "dq_inv ?q" using pop_inv [OF _ q] assms(1) by blast
  have sz: "size_bytes ?q = Inr (of_nat (total_bytes rest))"
    using size_bytes_inv [OF inv] by (simp add: uncount_def)
  have fields: "target ?q = target q" "first_above_time ?q = first_above_time q"
    by (simp_all add: uncount_def)
  have iq: "internal_queue q' = rest" by (simp add: q' uncount_def)
  have small: "unat (of_nat (total_bytes rest) :: u32) = total_bytes rest"
    using inv by (intro unat_of_nat_u32) (simp add: dq_inv_def uncount_def)
  show "PACKET_SIZE < total_bytes (internal_queue q')" and "ucast (target q) \<le> now - arrival_time p"
    and "first_above_time q \<noteq> 0" and "first_above_time q \<le> now"
    using assms(2) q q' iq
    by (auto simp: dodequeue_def Let_def assert_good_def sz small fields split: if_splits)
qed

lemma dodequeue_returns:
  assumes "limited_inv q" and "internal_queue q \<noteq> []"
  shows "\<exists>ok q'. dodequeue now q = Inr ((hd (internal_queue q), ok), q')"
proof -
  obtain p rest where q: "internal_queue q = p # rest"
    using assms(2) by (cases "internal_queue q") auto
  have "limited_inv (uncount p (q\<lparr>internal_queue := rest\<rparr>))"
    using pop_inv [OF _ q] pop_within_limits [OF _ q] assms(1) by blast
  then show ?thesis
    by (auto simp: q dodequeue_def Let_def assert_good_inv size_bytes_inv)
qed

lemma codel_drop_loop_inv:
  "codel_drop_loop now q = Inr q' \<Longrightarrow> limited_inv q \<Longrightarrow>
     limited_inv q' \<and> suffix (internal_queue q') (internal_queue q)"
proof (induction now q rule: codel_drop_loop.induct)
  case (1 now q)
  show ?case
  proof (cases "drop_next q \<le> now \<and> dropping q")
    case False
    with "1.prems" show ?thesis by (subst (asm) codel_drop_loop.simps) auto
  next
    case True
    then obtain p ok q1 where d: "dodequeue now q = Inr ((p, ok), q1)"
      using "1.prems"(1) by (subst (asm) codel_drop_loop.simps) (auto simp: Let_def)
    note facts = dodequeue_inv [OF "1.prems"(2) d]
    show ?thesis
    proof (cases ok)
      case True
      with \<open>drop_next q \<le> now \<and> dropping q\<close> "1.prems"(1) d obtain dn where
        cl: "control_law (drop_next q1) (count q1 + 1) (q1\<lparr>count := count q1 + 1\<rparr>) = Inr dn" and
        "codel_drop_loop now (q1\<lparr>count := count q1 + 1, drop_next := dn\<rparr>) = Inr q'"
        by (subst (asm) codel_drop_loop.simps) (auto simp: Let_def)
      then show ?thesis
        using "1.IH"(2) [OF \<open>drop_next q \<le> now \<and> dropping q\<close> d refl, of dn] True facts
        by (auto intro: suffix_ConsI)
    next
      case False
      with \<open>drop_next q \<le> now \<and> dropping q\<close> "1.prems"(1) d have
        "codel_drop_loop now (q1\<lparr>count := count q1 + 1, dropping := False\<rparr>) = Inr q'"
        by (subst (asm) codel_drop_loop.simps) (auto simp: Let_def)
      then show ?thesis
        using "1.IH"(1) [OF \<open>drop_next q \<le> now \<and> dropping q\<close> d refl] False facts
        by (auto intro: suffix_ConsI)
    qed
  qed
qed

lemma codel_drop_loop_returns:
  "limited_inv q \<Longrightarrow> (dropping q \<Longrightarrow> internal_queue q \<noteq> []) \<Longrightarrow>
     unat (count q) + length (internal_queue q) < 2 ^ 32 \<Longrightarrow> \<exists>q'. codel_drop_loop now q = Inr q'"
proof (induction now q rule: codel_drop_loop.induct)
  case (1 now q)
  show ?case
  proof (cases "drop_next q \<le> now \<and> dropping q")
    case False
    then show ?thesis by (subst codel_drop_loop.simps) auto
  next
    case True
    then have ne: "internal_queue q \<noteq> []" using "1.prems"(2) by blast
    obtain p ok q1 where d: "dodequeue now q = Inr ((p, ok), q1)"
      using dodequeue_returns [OF "1.prems"(1) ne] by blast
    note facts = dodequeue_inv [OF "1.prems"(1) d]
    have c: "unat (count q1 + 1) = unat (count q) + 1"
      using "1.prems"(3) facts(2,3) by (simp add: unat_word_ariths)
    have c': "unat (count q1 + 1) + length (internal_queue q1) < 2 ^ 32"
      using "1.prems"(3) facts(2) unfolding c by simp
    show ?thesis
    proof (cases ok)
      case ok: True
      have "count q1 + 1 \<noteq> 0" using c by auto
      then obtain dn where
        cl: "control_law (drop_next q1) (count q1 + 1) (q1\<lparr>count := count q1 + 1\<rparr>) = Inr dn"
        by (simp add: control_law_def)
      have "internal_queue q1 \<noteq> []"
        using dodequeue_ok(1) [OF "1.prems"(1), of now p q1] d ok by auto
      then have "\<exists>q'. codel_drop_loop now (q1\<lparr>count := count q1 + 1, drop_next := dn\<rparr>) = Inr q'"
        using "1.IH"(2) [OF True d refl, of dn] ok cl facts(1) c' by simp
      then show ?thesis
        using True d ok cl by (subst codel_drop_loop.simps) (simp add: Let_def)
    next
      case False
      then have "\<exists>q'. codel_drop_loop now (q1\<lparr>count := count q1 + 1, dropping := False\<rparr>) = Inr q'"
        using "1.IH"(1) [OF True d refl] facts(1) c' by simp
      then show ?thesis
        using True d False by (subst codel_drop_loop.simps) (simp add: Let_def)
    qed
  qed
qed

lemma codel_enter_dropping_inv:
  assumes "codel_enter_dropping now q = Inr q'" and "limited_inv q"
  shows "limited_inv q' \<and> suffix (internal_queue q') (internal_queue q)"
proof -
  from assms(1) obtain p ok q1 c dn where d: "dodequeue now q = Inr ((p, ok), q1)"
    and q': "q' = q1\<lparr>dropping := True, count := c, drop_next := dn, lastcount := c\<rparr>"
    by (auto simp: codel_enter_dropping_def Let_def)
  show ?thesis
    using dodequeue_inv [OF assms(2) d] unfolding q' by (auto intro: suffix_ConsI)
qed

lemma codel_enter_dropping_returns:
  assumes "limited_inv q" and "internal_queue q \<noteq> []"
  shows "\<exists>q'. codel_enter_dropping now q = Inr q'"
proof -
  obtain p ok q1 where "dodequeue now q = Inr ((p, ok), q1)"
    using dodequeue_returns [OF assms] by blast
  moreover have "\<exists>dn. control_law now c q2 = Inr dn" if "c \<noteq> 0" for c q2
    using that by (simp add: control_law_def)
  moreover have "delta \<noteq> 0" if "1 < delta" for delta :: u32
    using that by auto
  ultimately show ?thesis
    by (simp add: codel_enter_dropping_def Let_def) blast
qed

lemma codel_log_dequeue_frame: "codel_log_dequeue ts p q = Inr q' \<Longrightarrow> \<exists>l. q' = q\<lparr>log_fd := l\<rparr>"
  by (cases q) (auto simp: codel_log_dequeue_def log_print_def split: if_splits)

lemma codel_log_dequeue_returns:
  "dq_inv q \<Longrightarrow> readable (contents p) \<Longrightarrow> \<exists>q'. codel_log_dequeue ts p q = Inr q'"
  using mk_PacketHeader_readable [of "contents p"] by (auto simp: codel_log_dequeue_def queue_simps)

section \<open>What dequeue returns and what it discards\<close>

lemma codel_dequeue_inv:
  assumes "codel_dequeue clk q = Inr (p, q')" and "limited_inv q"
  shows "limited_inv q'" and "internal_queue q \<noteq> []" and "p = hd (internal_queue q)"
    and "suffix (internal_queue q') (tl (internal_queue q))"
proof -
  from assms(1) obtain ok q1 q2 where d: "dodequeue (clk 0) q = Inr ((p, ok), q1)"
    and q2: "(if dropping q1 then codel_drop_loop (clk 0) (if \<not> ok then q1\<lparr>dropping := False\<rparr> else q1)
              else if ok then codel_enter_dropping (clk 0) q1 else Inr q1) = Inr q2"
    and l: "codel_log_dequeue (clk 1) p q2 = Inr q'"
    unfolding codel_dequeue_def Let_def by (auto cong: if_cong)
  obtain m where q': "q' = q2\<lparr>log_fd := m\<rparr>" using codel_log_dequeue_frame [OF l] by blast
  note facts = dodequeue_inv [OF assms(2) d]
  have "limited_inv q2 \<and> suffix (internal_queue q2) (internal_queue q1)"
    using q2 facts(1) codel_enter_dropping_inv [of "clk 0" q1 q2] codel_drop_loop_inv [of "clk 0" q1 q2]
      codel_drop_loop_inv [of "clk 0" "q1\<lparr>dropping := False\<rparr>" q2]
    by (auto split: if_splits)
  then show "limited_inv q'" and "suffix (internal_queue q') (tl (internal_queue q))"
    using facts(2) by (simp_all add: q')
  show "internal_queue q \<noteq> []" and "p = hd (internal_queue q)" using facts(2) by simp_all
qed

lemma codel_dequeue_returns_aux:
  assumes "limited_inv q" and "internal_queue q \<noteq> []" and "\<forall>p \<in> set (internal_queue q). readable (contents p)"
    and "unat (count q) + length (internal_queue q) < 2 ^ 32"
  shows "\<exists>p q'. codel_dequeue clk q = Inr (p, q')"
proof -
  obtain p ok q1 where d: "dodequeue (clk 0) q = Inr ((p, ok), q1)"
    using dodequeue_returns [OF assms(1,2)] by blast
  note facts = dodequeue_inv [OF assms(1) d]
  have ne: "ok \<Longrightarrow> internal_queue q1 \<noteq> []"
    using dodequeue_ok(1) [OF assms(1)] d by fastforce
  have bound: "unat (count q1) + length (internal_queue q1) < 2 ^ 32"
    using assms(4) facts(2,3) by simp
  obtain q2 where q2: "(if dropping q1 then codel_drop_loop (clk 0) (if \<not> ok then q1\<lparr>dropping := False\<rparr> else q1)
              else if ok then codel_enter_dropping (clk 0) q1 else Inr q1) = Inr q2"
    using codel_drop_loop_returns [of q1 "clk 0"] codel_drop_loop_returns [of "q1\<lparr>dropping := False\<rparr>" "clk 0"]
      codel_enter_dropping_returns [of q1 "clk 0"] facts(1) ne bound
    by (cases ok; cases "dropping q1") auto
  have "dq_inv q2"
    using q2 facts(1) codel_enter_dropping_inv [of "clk 0" q1 q2] codel_drop_loop_inv [of "clk 0" q1 q2]
      codel_drop_loop_inv [of "clk 0" "q1\<lparr>dropping := False\<rparr>" q2]
    by (auto split: if_splits)
  moreover have "readable (contents p)" using assms(3) facts(2) by simp
  ultimately obtain q3 where "codel_log_dequeue (clk 1) p q2 = Inr q3"
    using codel_log_dequeue_returns by blast
  with d q2 show ?thesis by (cases ok; cases "dropping q1") (auto simp: codel_dequeue_def Let_def)
qed

lemma codel_enqueue_Inr:
  assumes "limited_inv q" and "fits p (internal_queue q)" and "codel_enqueue ts p q = Inr q'"
  shows "limited_inv q' \<and> (internal_queue q' = internal_queue q @ [p] \<or> internal_queue q' = internal_queue q)"
  using assms accept_inv [of q p]
  by (auto simp: codel_enqueue_def has_room_inv assert_good_inv log_print_def split: if_splits)

lemma codel_enqueue_returns:
  assumes "limited_inv q" and "fits p (internal_queue q)" and "readable (contents p)"
  shows "\<exists>q'. codel_enqueue ts p q = Inr q'"
proof -
  obtain h where h: "mk_PacketHeader (contents p) = Inr h"
    using mk_PacketHeader_readable [OF assms(3)] by blast
  have "dq_inv (accept p q)" using assms accept_inv by blast
  then show ?thesis
    using assms by (simp add: codel_enqueue_def has_room_inv assert_good_inv log_print_def size_bytes_inv h)
qed

interpretation codel: packet_queue codel_ops internal_queue limited_inv
proof (unfold_locales, goal_cases)
  case (4 q) then show ?case by (simp add: dq_inv_def)
next
  case (5 q p e q') then show ?case
    using codel_enqueue_Inr [of q p "clock e 0" q'] by (simp add: codel_ops_def)
next
  case (6 q p e q') then show ?case
    using codel_enqueue_Inr [of q p "clock e 0" q'] by (auto simp: codel_ops_def served_snoc_skip)
next
  case (7 q e p q') then show ?case
    using codel_dequeue_inv(1) by (simp add: codel_ops_def)
next
  case (8 q e p q')
  then have "p # tl (internal_queue q) = internal_queue q"
    and "suffix (internal_queue q') (tl (internal_queue q))"
    using codel_dequeue_inv [of "clock e" q p q'] by (auto simp: codel_ops_def)
  then show ?case using suffix_served served_Cons by metis
qed (simp_all add: codel_ops_def queue_empty_def queue_simps)

section \<open>Properties\<close>

definition sample_codel :: codel_queue where
  "sample_codel =
     (let ps = map (mk_QueuedPacket (replicate 1000 0)) [1, 2, 3, 4] in
      \<lparr>queue_size_in_bytes = 4000, queue_size_in_packets = 4, internal_queue = ps, packet_limit = 9, byte_limit = 0,
       log_fd = None, bandwidth = None, target = 5, interval = 100, first_above_time = 50, drop_next = 0,
       count = 0, lastcount = 0, dropping = False\<rparr>)"

lemmas sample_codel_simps = sample_codel_def Let_def dq_inv_def within_limits_def mk_QueuedPacket_def

lemma sample_codel_inv:
  "limited_inv sample_codel" "internal_queue sample_codel \<noteq> []"
  "\<forall>p \<in> set (internal_queue sample_codel). readable (contents p)"
  "unat (count sample_codel) + length (internal_queue sample_codel) < 2 ^ 32"
  by (simp_all add: sample_codel_simps)

text \<open>
  On a CoDel queue that is not empty \<open>dequeue\<close> returns (the drop loop ends, no assertion fails,
  the queue is never popped when empty), as long as the drop counter cannot wrap to 0.
\<close>

lemma codel_dequeue_total:
  assumes "dq_inv q" and "within_limits q" and "internal_queue q \<noteq> []"
    and "\<forall>p \<in> set (internal_queue q). readable (contents p)"
    and "unat (count q) + length (internal_queue q) < 2 ^ 32"
  shows "\<exists>p q'. codel_dequeue clk q = Inr (p, q') \<and> dq_inv q' \<and> within_limits q'"
  using codel_dequeue_returns_aux [of q clk] codel_dequeue_inv(1) [of clk q] assms by blast

text \<open>
  C23: What CoDel's \<open>dequeue\<close> returns is always the packet at the front when the call began, also
  when it has decided to drop: the packets it discards are those behind the front, and the queue
  it leaves is a suffix of the rest.
\<close>

theorem codel_dequeue_front:
  assumes "dq_inv q" and "within_limits q" and "codel_dequeue clk q = Inr (p, q')"
  shows "p = hd (internal_queue q) \<and> suffix (internal_queue q') (tl (internal_queue q))"
  using codel_dequeue_inv(3,4) [OF assms(3)] assms(1,2) by blast

theorem codel_dequeue_front_witness:
  "\<exists>q'. codel_dequeue (\<lambda>_. 200) sample_codel = Inr (mk_QueuedPacket (replicate 1000 0) 1, q')"
proof -
  obtain p q' where d: "codel_dequeue (\<lambda>_. 200) sample_codel = Inr (p, q')"
    using codel_dequeue_returns_aux [OF sample_codel_inv] by blast
  with codel_dequeue_front [OF _ _ d] sample_codel_inv(1) have "p = hd (internal_queue sample_codel)" by blast
  with d show ?thesis by (simp add: sample_codel_simps)
qed

end
