(* ===== verification/Pie_Queue.thy ===== *)
theory Pie_Queue
  imports Basic_Queues
begin

text \<open>
  \<open>PIEPacketQueue\<close>, src/src/packet/pie_packet_queue.{hh,cc}: the proportional integral
  controller. The drop probability is a real number here and a \<open>double\<close> in the code. The random
  draw is the \<open>uniform\<close> component of the environment. A call of \<open>timestamp()\<close> returns the
  reading that is passed in.
\<close>

section \<open>Model\<close>

record pie_queue = dropping_queue +
  qdelay_ref :: u32
  max_burst :: u32
  drop_prob :: real
  burst_allowance :: u32
  qdelay_old :: u32
  current_qdelay :: u32
  dq_count :: u32
  dq_tstamp :: u32
  avg_dq_rate :: u32
  last_update :: u64

text \<open>Members the constructor sets and nothing changes, and the constants.\<close>

definition pie_alpha :: real where "pie_alpha = 0.125"
definition pie_beta :: real where "pie_beta = 1.25"
definition t_update :: u32 where "t_update = 30"
definition dq_threshold :: u32 where "dq_threshold = 16384"
definition DQ_COUNT_INVALID :: u32 where "DQ_COUNT_INVALID = - 1"
definition PIE_PACKET_SIZE :: u32 where "PIE_PACKET_SIZE = 1504"

definition mk_pie_queue :: "(string \<Rightarrow> bool) \<Rightarrow> u64 \<Rightarrow> string \<Rightarrow> pie_queue res" where
  "mk_pie_queue fopen_ok now args =
     res_bind (mk_dropping_queue fopen_ok args) (\<lambda>base.
     res_bind (numeric_arg args ''qdelay_ref'') (\<lambda>qr.
     res_bind (numeric_arg args ''max_burst'') (\<lambda>mb.
       if qr = 0 \<or> mb = 0
       then Inl (Runtime_error ''PIE AQM queue must have qdelay_ref and max_burst parameters'')
       else Inr (dropping_queue.extend base
              (pie_queue.fields qr mb 0 0 0 0 DQ_COUNT_INVALID 0 0 now)))))"

text \<open>One round of the loop in \<open>calculate_drop_prob\<close>, with the queue size already read.\<close>

definition pie_scale :: "real \<Rightarrow> real \<Rightarrow> real" where
  "pie_scale dp p = (if dp < 0.01 then p / 128 else if dp < 0.1 then p / 32 else p / 16)"

definition pie_round :: "u32 \<Rightarrow> pie_queue \<Rightarrow> pie_queue" where
  "pie_round sz q =
     (let old = current_qdelay q;
          cur = (if 0 < avg_dq_rate q then sz div avg_dq_rate q else 0);
          update0 = \<not> (cur = 0 \<and> sz \<noteq> 0);
          p = pie_alpha * of_int (sint (cur - qdelay_ref q)) + pie_beta * of_int (sint (cur - old));
          dp1 = drop_prob q + pie_scale (drop_prob q) p;
          dp2 = (if dp1 < 0 then 0 else if 1 < dp1 then 1 else dp1);
          update1 = (update0 \<and> \<not> 1 < dp1);
          dp3 = (if cur = 0 \<and> old = 0 \<and> update1 then dp2 * 0.98 else dp2);
          q1 = q\<lparr>qdelay_old := old, current_qdelay := cur, drop_prob := dp3,
                 burst_allowance := of_int (max 0 (sint (burst_allowance q - t_update))),
                 last_update := last_update q + ucast t_update\<rparr>
      in if dp3 = 0 \<and> cur < qdelay_ref q div 2 \<and> old < qdelay_ref q div 2 \<and> 0 < avg_dq_rate q
         then q1\<lparr>dq_count := DQ_COUNT_INVALID, avg_dq_rate := 0, burst_allowance := max_burst q\<rparr>
         else q1)"

text \<open>\<open>while ( now - last_update_ > t_update_ )\<close>.\<close>

lemma pie_round_last_update: "last_update (pie_round sz q) = last_update q + 30"
  by (simp add: pie_round_def Let_def t_update_def)

lemma later_update_closer:
  fixes now l :: u64
  assumes "30 < now - l"
  shows "unat (now - (l + 30)) = unat (now - l) - 30"
proof -
  have eq: "now - (l + 30) = (now - l) - 30" by (simp add: algebra_simps)
  show ?thesis
    unfolding eq using unat_sub [of 30 "now - l"] assms by simp
qed

function calculate_drop_prob :: "u64 \<Rightarrow> pie_queue \<Rightarrow> pie_queue res" where
  "calculate_drop_prob now q =
     (if ucast t_update < now - last_update q
      then res_bind (size_bytes q) (\<lambda>sz. calculate_drop_prob now (pie_round sz q))
      else Inr q)"
  by pat_completeness auto
termination
proof (relation "measure (\<lambda>(now, q). unat (now - last_update q))")
  fix now :: u64 and q :: pie_queue and sz :: u32
  assume "(ucast t_update :: u64) < now - last_update q"
  then have less: "30 < now - last_update q" by (simp add: t_update_def)
  then have "30 < unat (now - last_update q)" by (simp add: word_less_nat_alt)
  with later_update_closer [OF less]
  show "((now, pie_round sz q), now, q) \<in> measure (\<lambda>(now, q). unat (now - last_update q))"
    by (simp add: pie_round_last_update)
qed simp

text \<open>\<open>drop_early\<close>.\<close>

definition drop_early :: "real \<Rightarrow> pie_queue \<Rightarrow> bool res" where
  "drop_early random q =
     (if 0 < burst_allowance q then Inr False
      else if qdelay_old q < qdelay_ref q div 2 \<and> drop_prob q < 0.2 then Inr False
      else res_bind (size_bytes q) (\<lambda>sz.
        if sz < 2 * PIE_PACKET_SIZE then Inr False
        else Inr (random < drop_prob q)))"

definition pie_enqueue :: "u64 \<Rightarrow> real \<Rightarrow> QueuedPacket \<Rightarrow> pie_queue \<Rightarrow> pie_queue res" where
  "pie_enqueue now random p q =
     res_bind (calculate_drop_prob now q) (\<lambda>q1.
     res_bind (has_room p q1) (\<lambda>room.
       if \<not> room then Inr q1
       else res_bind (drop_early random q1) (\<lambda>early.
         let q2 = (if \<not> early then accept p q1 else q1) in assert_good q2 (Inr q2))))"

text \<open>
  \<open>dequeue\<close>: after the base class's \<open>dequeue\<close>, the estimate of the departure rate
  (\<open>pie_measure\<close>, over the 32-bit reading of the clock), then the probability.
\<close>

definition pie_measure :: "u32 \<Rightarrow> QueuedPacket \<Rightarrow> u32 \<Rightarrow> pie_queue \<Rightarrow> pie_queue" where
  "pie_measure now ret sz q =
     (let q1 = (if dq_threshold \<le> sz \<and> dq_count q = DQ_COUNT_INVALID
                then q\<lparr>dq_tstamp := now, dq_count := 0\<rparr> else q)
      in if dq_count q1 = DQ_COUNT_INVALID then q1
         else
           let q2 = q1\<lparr>dq_count := dq_count q1 + of_nat (length (contents ret))\<rparr>;
               dtime = now - dq_tstamp q2
           in if \<not> dq_threshold < dq_count q2 \<or> \<not> 0 < dtime then q2
              else
                let rate_sample = dq_count q2 div dtime;
                    q3 = q2\<lparr>avg_dq_rate :=
                             (if avg_dq_rate q2 = 0 then rate_sample
                              else avg_dq_rate q2 - drop_bit 3 (avg_dq_rate q2) + drop_bit 3 rate_sample)\<rparr>;
                    q4 = (if sz < dq_threshold then q3\<lparr>dq_count := DQ_COUNT_INVALID\<rparr>
                          else q3\<lparr>dq_count := 0, dq_tstamp := now\<rparr>)
                in if 0 < burst_allowance q4
                   then if dtime < burst_allowance q4
                        then q4\<lparr>burst_allowance := burst_allowance q4 - dtime\<rparr>
                        else q4\<lparr>burst_allowance := 0\<rparr>
                   else q4)"

definition pie_dequeue :: "(nat \<Rightarrow> u64) \<Rightarrow> pie_queue \<Rightarrow> (QueuedPacket \<times> pie_queue) res" where
  "pie_dequeue clk q =
     res_bind (dropping_dequeue (clk 0) q) (\<lambda>r.
     res_bind (size_bytes (snd r)) (\<lambda>sz.
     res_bind (calculate_drop_prob (clk 2) (pie_measure (ucast (clk 1)) (fst r) sz (snd r))) (\<lambda>q1.
       Inr (fst r, q1))))"

definition pie_ops :: "pie_queue queue_ops" where
  "pie_ops =
     \<lparr>op_enqueue = (\<lambda>e. pie_enqueue (clock e 0) (uniform e)), op_dequeue = (\<lambda>e. pie_dequeue (clock e)),
      op_empty = queue_empty, op_to_string = dropping_to_string ''pie'',
      op_size_bytes = size_bytes, op_size_packets = size_packets, op_set_bandwidth = set_bandwidth\<rparr>"

section \<open>The drop probability is a probability\<close>

declare calculate_drop_prob.simps [simp del]

definition pie_inv :: "pie_queue \<Rightarrow> bool" where
  "pie_inv q \<longleftrightarrow> limited_inv q \<and> 0 \<le> drop_prob q \<and> drop_prob q \<le> 1"

lemma pie_round_frame [simp]:
  "internal_queue (pie_round sz q) = internal_queue q"
  "dq_inv (pie_round sz q) = dq_inv q"
  "within_limits (pie_round sz q) = within_limits q"
  by (simp_all add: pie_round_def Let_def dq_inv_def within_limits_def)

lemma pie_round_prob: "0 \<le> drop_prob (pie_round sz q) \<and> drop_prob (pie_round sz q) \<le> 1"
  by (simp add: pie_round_def Let_def)

lemma pie_measure_frame [simp]:
  "internal_queue (pie_measure now p sz q) = internal_queue q"
  "dq_inv (pie_measure now p sz q) = dq_inv q"
  "within_limits (pie_measure now p sz q) = within_limits q"
  "drop_prob (pie_measure now p sz q) = drop_prob q"
  by (simp_all add: pie_measure_def Let_def dq_inv_def within_limits_def)

lemma calculate_drop_prob_inv:
  "dq_inv q \<Longrightarrow> \<exists>q'. calculate_drop_prob now q = Inr q' \<and> dq_inv q' \<and>
     internal_queue q' = internal_queue q \<and> within_limits q' = within_limits q \<and>
     (0 \<le> drop_prob q \<and> drop_prob q \<le> 1 \<longrightarrow> 0 \<le> drop_prob q' \<and> drop_prob q' \<le> 1) \<and>
     now - last_update q' \<le> ucast t_update"
proof (induction now q rule: calculate_drop_prob.induct)
  case (1 now q)
  show ?case
  proof (cases "(ucast t_update :: u64) < now - last_update q")
    case False
    then have "calculate_drop_prob now q = Inr q" by (subst calculate_drop_prob.simps) simp
    with False show ?thesis using "1.prems" by (simp add: not_less)
  next
    case True
    let ?sz = "of_nat (total_bytes (internal_queue q)) :: u32"
    have sz: "size_bytes q = Inr ?sz" using "1.prems" by (rule size_bytes_inv)
    have "calculate_drop_prob now q = calculate_drop_prob now (pie_round ?sz q)"
      using True by (subst calculate_drop_prob.simps) (simp add: sz)
    then show ?thesis
      using "1.IH" [OF True sz] "1.prems" pie_round_prob [of ?sz q] by auto
  qed
qed

lemma drop_early_returns: "dq_inv q \<Longrightarrow> \<exists>b. drop_early u q = Inr b"
  unfolding drop_early_def by (auto simp: size_bytes_inv simp del: ex_simps intro: exI [of _ False])

lemma drop_prob_accept [simp]: "drop_prob (accept p q) = drop_prob q"
  by (simp add: accept_def)

lemma pie_enqueue_outcome:
  assumes "pie_inv q" and "fits p (internal_queue q)"
  shows "\<exists>q'. pie_enqueue now u p q = Inr q' \<and> pie_inv q' \<and>
     (internal_queue q' = internal_queue q @ [p] \<or> internal_queue q' = internal_queue q)"
proof -
  obtain q1 where q1: "calculate_drop_prob now q = Inr q1" "dq_inv q1"
      "internal_queue q1 = internal_queue q" "within_limits q1" "0 \<le> drop_prob q1" "drop_prob q1 \<le> 1"
    using calculate_drop_prob_inv [of q now] assms(1) by (auto simp: pie_inv_def)
  have room: "has_room p q1 = Inr (within_limits (accept p q1))"
    using q1 assms(2) by (simp add: has_room_inv)
  obtain b where b: "drop_early u q1 = Inr b" using drop_early_returns q1(2) by blast
  have inv: "dq_inv (accept p q1)" using accept_inv [OF q1(2)] q1(3) assms(2) by simp
  show ?thesis
    using q1 inv by (auto simp: pie_enqueue_def q1(1) room b Let_def assert_good_inv pie_inv_def)
qed

lemma pie_dequeue_inv:
  assumes "pie_inv q" and "pie_dequeue clk q = Inr (p, q')"
  shows "pie_inv q'" and "internal_queue q = p # internal_queue q'"
proof -
  obtain q1 sz where d: "dropping_dequeue (clk 0) q = Inr (p, q1)"
    and c: "calculate_drop_prob (clk 2) (pie_measure (ucast (clk 1)) p sz q1) = Inr q'"
    using assms(2) by (auto simp: pie_dequeue_def)
  have dp: "drop_prob q1 = drop_prob q"
    using d by (rule dropping_dequeue_Inr) (simp add: uncount_def)
  have "limited_inv q1" using base_dequeue_inv [OF _ d] assms(1) by (simp add: pie_inv_def)
  then show "pie_inv q'" and "internal_queue q = p # internal_queue q'"
    using calculate_drop_prob_inv [of "pie_measure (ucast (clk 1)) p sz q1" "clk 2"] c dp assms(1)
      dropping_dequeue_inv(2) [OF _ d] by (auto simp: pie_inv_def)
qed

lemma pie_dequeue_returns:
  assumes "pie_inv q" and "internal_queue q \<noteq> []" and "\<forall>p \<in> set (internal_queue q). readable (contents p)"
  shows "\<exists>p q'. pie_dequeue clk q = Inr (p, q')"
proof -
  obtain p q1 where d: "dropping_dequeue (clk 0) q = Inr (p, q1)"
    using base_dequeue_returns [of q "clk 0"] assms by (auto simp: pie_inv_def)
  have inv: "dq_inv q1" using dropping_dequeue_inv(1) [OF _ d] assms(1) by (simp add: pie_inv_def)
  obtain sz where sz: "size_bytes q1 = Inr sz" using size_bytes_inv [OF inv] by blast
  obtain q2 where "calculate_drop_prob (clk 2) (pie_measure (ucast (clk 1)) p sz q1) = Inr q2"
    using calculate_drop_prob_inv [of "pie_measure (ucast (clk 1)) p sz q1" "clk 2"] inv by auto
  with d sz show ?thesis by (simp add: pie_dequeue_def)
qed

interpretation pie: reliable_packet_queue pie_ops internal_queue pie_inv
proof (unfold_locales, goal_cases)
  case (4 q) then show ?case by (simp add: pie_inv_def dq_inv_def)
next
  case (5 q p e q') then show ?case
    using pie_enqueue_outcome [of q p "clock e 0" "uniform e"] by (auto simp: pie_ops_def)
next
  case (6 q p e q') then show ?case
    using pie_enqueue_outcome [of q p "clock e 0" "uniform e"] by (auto simp: pie_ops_def served_snoc_skip)
next
  case (7 q e p q') then show ?case using pie_dequeue_inv(1) by (simp add: pie_ops_def)
next
  case (8 q e p q') then show ?case using pie_dequeue_inv(2) [of q "clock e" p q'] by (simp add: pie_ops_def)
next
  case (11 q p e) then show ?case
    using pie_enqueue_outcome [of q p "clock e 0" "uniform e"] by (auto simp: pie_ops_def)
next
  case (12 q e) then show ?case using pie_dequeue_returns by (simp add: pie_ops_def)
qed (simp_all add: pie_ops_def queue_empty_def queue_simps pie_inv_def set_bandwidth_def dq_inv_def within_limits_def)

section \<open>Properties\<close>

definition sample_pie :: pie_queue where
  "sample_pie =
     \<lparr>queue_size_in_bytes = 50, queue_size_in_packets = 1, internal_queue = [mk_QueuedPacket (replicate 50 0) 0],
      packet_limit = 9, byte_limit = 0, log_fd = None, bandwidth = None, qdelay_ref = 15, max_burst = 100,
      drop_prob = 0.5, burst_allowance = 0, qdelay_old = 20, current_qdelay = 20, dq_count = 0, dq_tstamp = 0,
      avg_dq_rate = 1, last_update = 0\<rparr>"

lemmas sample_pie_simps = sample_pie_def dq_inv_def within_limits_def mk_QueuedPacket_def fits_def

text \<open>
  C24: \<open>calculate_drop_prob\<close> returns after finitely many rounds, having caught up with the clock to
  within one update interval; the probability stays between 0 and 1, and the packets, counters and
  limits are untouched.
\<close>

theorem calculate_drop_prob_spec:
  assumes "dq_inv q" and "0 \<le> drop_prob q" and "drop_prob q \<le> 1"
  shows "\<exists>q'. calculate_drop_prob now q = Inr q' \<and> 0 \<le> drop_prob q' \<and> drop_prob q' \<le> 1 \<and>
     now - last_update q' \<le> 30 \<and> dq_inv q' \<and> internal_queue q' = internal_queue q"
  using calculate_drop_prob_inv [OF assms(1), of now] assms(2,3) by (auto simp: t_update_def)

theorem calculate_drop_prob_spec_witness:
  "\<exists>q'. calculate_drop_prob 100 sample_pie = Inr q' \<and> drop_prob q' \<le> 1 \<and> 100 - last_update q' \<le> 30"
proof -
  have "dq_inv sample_pie" "0 \<le> drop_prob sample_pie" "drop_prob sample_pie \<le> 1" by (simp_all add: sample_pie_simps)
  from calculate_drop_prob_spec [OF this] show ?thesis by blast
qed

text \<open>
  C25: PIE's \<open>enqueue\<close> always returns, either appending the packet or leaving the queued packets as
  they are, and keeps the invariant (exact counters, limits met, probability in range); a packet
  that would exceed the limits is never appended.
\<close>

theorem pie_enqueue_spec:
  assumes "pie_inv q" and "fits p (internal_queue q)"
  shows "\<exists>q'. pie_enqueue now u p q = Inr q' \<and> pie_inv q' \<and>
     (internal_queue q' = internal_queue q @ [p] \<or> internal_queue q' = internal_queue q)"
  using pie_enqueue_outcome [OF assms] .

theorem pie_enqueue_spec_witness:
  "\<exists>q'. pie_enqueue 100 0.9 (mk_QueuedPacket (replicate 50 0) 3) sample_pie = Inr q' \<and> pie_inv q'"
proof -
  have "pie_inv sample_pie" "fits (mk_QueuedPacket (replicate 50 0) 3) (internal_queue sample_pie)"
    by (simp_all add: pie_inv_def sample_pie_simps)
  from pie_enqueue_spec [OF this] show ?thesis by blast
qed

end
