(* ===== verification/Bitrate_Queue.thy ===== *)
theory Bitrate_Queue
  imports Basic_Queues "HOL-Library.AList"
begin

text \<open>
  \<open>DropBitrateDequeueQueue\<close>, src/src/packet/drop_bitrate_dequeue_queue.{hh,cc}: the Octopus
  router logic. Packets carry a message number, the position of the packet in its message, a
  priority, a bitrate and a slack time; whole messages are dropped when they are dequeued, either
  because their bitrate exceeds the fair share of the flow or because a later message of the flow
  preempts them.

  The \<open>std::map\<close> members are functions or association lists over the destination port.
  \<open>operator[]\<close> inserts a default value, which matters in three places and is modelled there: a
  flow without rate has rate 0, without droppers the droppers are 0 (not -1), and without a
  message in drop the message in drop is number 0. Message numbers are \<open>int32_t\<close> below
  \<open>2 ^ 29\<close>; counters of packets are unbounded integers.
\<close>

section \<open>Model\<close>

record bitrate_queue = dropping_queue +
  frame_counter :: "u16 \<Rightarrow> u32 \<rightharpoonup> int"
  msg_in_drop :: "u16 \<Rightarrow> u32"
  prio_to_droppers :: "u16 \<rightharpoonup> u32 list"
  enqueue_trace :: "u16 \<Rightarrow> (u64 \<times> u32) list"
  enqueue_rate :: "(u16 \<times> u32) list"

definition mk_bitrate_queue :: "(string \<Rightarrow> bool) \<Rightarrow> string \<Rightarrow> bitrate_queue res" where
  "mk_bitrate_queue fopen_ok args =
     res_bind (mk_dropping_queue fopen_ok args) (\<lambda>base.
       Inr (dropping_queue.extend base
         (bitrate_queue.fields (\<lambda>_. Map.empty) (\<lambda>_. 0) Map.empty (\<lambda>_. []) [])))"

text \<open>
  The estimate of the rate at which a flow enqueues. \<open>bytes_sent\<close> is summed over the trace and
  then overwritten by \<open>bytes_sent =- front().second\<close>; the product with 8 is an \<open>int\<close> that is
  sign-extended for the unsigned 64-bit division and truncated to \<open>int\<close> afterwards.
\<close>

definition trace_rate :: "(u64 \<times> u32) list \<Rightarrow> u32 res" where
  "trace_rate tr =
     (let bytes_sent = - snd (hd tr);
          dt = fst (last tr) - fst (hd tr)
      in if dt = 0 then Inl Undefined_behaviour
         else Inr (ucast ((scast (bytes_sent * 8) :: u64) div dt)))"

definition update_rate :: "u64 \<Rightarrow> u32 \<Rightarrow> u16 \<Rightarrow> bitrate_queue \<Rightarrow> bitrate_queue res" where
  "update_rate ts pkt_size port q =
     (let tr = enqueue_trace q port @ [(ts, pkt_size)];
          q1 = q\<lparr>enqueue_trace := (enqueue_trace q)(port := tr)\<rparr>
      in if fst (hd tr) + 100 < ts
         then res_bind (trace_rate tr) (\<lambda>r. Inr (q1\<lparr>enqueue_rate := AList.update port r (enqueue_rate q1)\<rparr>))
         else Inr q1)"

text \<open>The number of ends of a message that are queued, kept when an end is enqueued.\<close>

definition count_frame_end :: "PacketHeader \<Rightarrow> bitrate_queue \<Rightarrow> bitrate_queue res" where
  "count_frame_end h q =
     (let fc = frame_counter q (dstport h);
          set = (\<lambda>n. q\<lparr>frame_counter := (frame_counter q)(dstport h := fc(msg_no h \<mapsto> n))\<rparr>)
      in if pkt_pos h = FIRST \<or> pkt_pos h = LAST
         then Inr (set (case fc (msg_no h) of None \<Rightarrow> 1 | Some n \<Rightarrow> n + 1))
         else if pkt_pos h = SOLO
         then asserting (fc (msg_no h) = None) (Inr (set 2))
         else Inr q)"

text \<open>The last packet of a preempting message registers the message as a dropper.\<close>

definition register_dropper :: "PacketHeader \<Rightarrow> bitrate_queue \<Rightarrow> bitrate_queue" where
  "register_dropper h q =
     (if (pkt_pos h = LAST \<or> pkt_pos h = SOLO) \<and> is_preempt h
      then
        let thresh = unat (priority_threshold h);
            droppers = (case prio_to_droppers q (dstport h) of None \<Rightarrow> replicate 8 (- 1) | Some ds \<Rightarrow> ds);
            droppers' = (if sint (droppers ! thresh) < sint (msg_no h)
                         then droppers[thresh := msg_no h] else droppers)
        in q\<lparr>prio_to_droppers := (prio_to_droppers q)(dstport h \<mapsto> droppers')\<rparr>
      else q)"

definition log_octopus :: "string \<Rightarrow> int list \<Rightarrow> bitrate_queue \<Rightarrow> bitrate_queue res" where
  "log_octopus fmt args q =
     (if log_fd q = None then Inr q
      else res_bind (size_bytes q) (\<lambda>sz. Inr (log_print fmt (uint sz # args) q)))"

text \<open>\<open>DropBitrateDequeueQueue::enqueue\<close>.\<close>

definition bitrate_enqueue :: "u64 \<Rightarrow> QueuedPacket \<Rightarrow> bitrate_queue \<Rightarrow> bitrate_queue res" where
  "bitrate_enqueue ts p q =
     res_bind (has_room p q) (\<lambda>room.
       if \<not> room then Inr q
       else
         let pkt_size = length (contents p) in
         res_bind (mk_PacketHeader (contents p)) (\<lambda>h.
         let q1 = accept p q in
         if \<not> is_octopus h
         then res_bind (log_octopus ''enqueue, Other'' [sint ts, int pkt_size] q1) (\<lambda>q2.
                assert_good q2 (Inr q2))
         else
           res_bind (update_rate ts (of_nat pkt_size) (dstport h) q1) (\<lambda>q2.
           res_bind (log_octopus ''enqueue, Octopus''
                       [sint ts, int pkt_size, uint (seq h), sint (msg_no h), uint (dstport h)] q2) (\<lambda>q3.
           res_bind (count_frame_end h q3) (\<lambda>q4.
             Inr (register_dropper h q4))))))"

text \<open>The share of the link a flow may use, from the rates of the flows.\<close>

definition own_rate :: "u16 \<Rightarrow> (u16 \<times> u32) list \<Rightarrow> u32" where
  "own_rate port rates = (case map_of rates port of None \<Rightarrow> 0 | Some r \<Rightarrow> r)"

definition fair_share :: "u32 \<Rightarrow> u32 \<Rightarrow> u32 \<Rightarrow> u32" where
  "fair_share bw peer own =
     (if peer = 0 then bw
      else if bw div 2 \<le> peer \<and> bw div 2 \<le> own then bw div 2
      else if peer \<le> bw div 2 \<and> own \<le> bw div 2 then bw div 2
      else if peer \<le> bw div 2 \<and> bw div 2 \<le> own then bw - peer
      else if bw div 2 \<le> peer \<and> own \<le> bw div 2 then own + 500
      else 0)"

definition flow_fair_share :: "u32 \<Rightarrow> u16 \<Rightarrow> (u16 \<times> u32) list \<Rightarrow> u32" where
  "flow_fair_share bw port rates =
     (let own = own_rate port rates;
          peer = sum_list (map snd (AList.update port own rates)) - own
      in fair_share bw peer own)"

text \<open>\<open>latest_dropper\<close>: the latest message that preempts messages of this priority.\<close>

definition latest_dropper :: "u32 list \<Rightarrow> nat \<Rightarrow> int" where
  "latest_dropper droppers prio = fold (\<lambda>d acc. max acc (sint d)) (take (prio + 1) droppers) (- 1)"

text \<open>
  The decision \<open>dequeuefront\<close> takes about an Octopus packet, \<open>complete\<close> being the test that both
  ends of its message are queued.
\<close>

definition frame_complete :: "PacketHeader \<Rightarrow> bitrate_queue \<Rightarrow> bool" where
  "frame_complete h q \<longleftrightarrow> frame_counter q (dstport h) (msg_no h) = Some 2"

definition drop_decision :: "u64 \<Rightarrow> QueuedPacket \<Rightarrow> PacketHeader \<Rightarrow> u32 \<Rightarrow> bitrate_queue \<Rightarrow> bool \<times> bitrate_queue" where
  "drop_decision ts p h fair q =
     (if frame_complete h q
      then
        let sojourn_time = sint (ts - arrival_time p);
            droppers = (case prio_to_droppers q (dstport h) of None \<Rightarrow> replicate 8 0 | Some ds \<Rightarrow> ds);
            q1 = q\<lparr>prio_to_droppers := (prio_to_droppers q)(dstport h \<mapsto> droppers)\<rparr>;
            latest = latest_dropper droppers (unat (priority h));
            marked = q1\<lparr>msg_in_drop := (msg_in_drop q1)(dstport h := msg_no h)\<rparr>
        in if fair < bitrate h \<and> uint (slack_time h) \<le> sojourn_time
           then (True, log_print ''sema-drop, bitrate''
                   [uint ts, uint (seq h), sint (msg_no h), uint (bitrate h), uint fair, uint (slack_time h)] marked)
           else if sint (msg_no h) < latest \<and> uint (slack_time h) \<le> sojourn_time
           then (True, log_print ''sema-drop, priority''
                   [uint ts, uint (seq h), sint (msg_no h), uint (priority h), latest, uint (slack_time h)] marked)
           else (False, q1)
      else (msg_no h = msg_in_drop q (dstport h), q))"

text \<open>The counter of queued ends after an Octopus packet has left.\<close>

definition uncount_frame_end :: "PacketHeader \<Rightarrow> bitrate_queue \<Rightarrow> bitrate_queue res" where
  "uncount_frame_end h q =
     (let fc = frame_counter q (dstport h);
          set = (\<lambda>m. q\<lparr>frame_counter := (frame_counter q)(dstport h := m)\<rparr>)
      in if pkt_pos h = FIRST \<or> pkt_pos h = LAST
         then (case fc (msg_no h) of
                 None \<Rightarrow> Inl Out_of_range
               | Some n \<Rightarrow> Inr (set (if n - 1 = 0 then fc(msg_no h := None) else fc(msg_no h \<mapsto> n - 1))))
         else if pkt_pos h = SOLO
         then asserting (fc (msg_no h) = Some 2) (Inr (set (fc(msg_no h := None))))
         else Inr q)"

text \<open>\<open>dequeuefront\<close>. Every path that computes the fair share reads \<open>bandwidth_\<close>.\<close>

definition dequeuefront :: "u64 \<Rightarrow> bitrate_queue \<Rightarrow> (QueuedPacket \<times> bitrate_queue) res" where
  "dequeuefront ts q =
     (case internal_queue q of
        [] \<Rightarrow> Inl Undefined_behaviour
      | p # rest \<Rightarrow>
          let q1 = uncount p (q\<lparr>internal_queue := rest\<rparr>) in
          res_bind (mk_PacketHeader (contents p)) (\<lambda>h.
          if \<not> is_octopus h then Inr (p, q1)
          else
            case bandwidth q1 of
              None \<Rightarrow> Inl Undefined_behaviour
            | Some bw \<Rightarrow>
                let rates = AList.update (dstport h) (own_rate (dstport h) (enqueue_rate q1)) (enqueue_rate q1);
                    (drop, q2) = drop_decision ts p h (flow_fair_share bw (dstport h) (enqueue_rate q1))
                                   (q1\<lparr>enqueue_rate := rates\<rparr>)
                in res_bind (uncount_frame_end h q2) (\<lambda>q3.
                     Inr (if drop then p\<lparr>is_drop := True\<rparr> else p, q3))))"

lemma drop_decision_frame:
  "internal_queue (snd (drop_decision ts p h f q)) = internal_queue q"
  "queue_size_in_bytes (snd (drop_decision ts p h f q)) = queue_size_in_bytes q"
  "queue_size_in_packets (snd (drop_decision ts p h f q)) = queue_size_in_packets q"
  "byte_limit (snd (drop_decision ts p h f q)) = byte_limit q"
  "packet_limit (snd (drop_decision ts p h f q)) = packet_limit q"
  "bandwidth (snd (drop_decision ts p h f q)) = bandwidth q"
  "frame_counter (snd (drop_decision ts p h f q)) = frame_counter q"
  by (simp_all add: drop_decision_def Let_def log_print_def)

lemma uncount_frame_end_frame:
  assumes "uncount_frame_end h q = Inr q'"
  shows "\<exists>fc. q' = q\<lparr>frame_counter := fc\<rparr>"
proof -
  have "\<exists>fc. q = q\<lparr>frame_counter := fc\<rparr>" by (rule exI [of _ "frame_counter q"]) simp
  then show ?thesis
    using assms by (auto simp: uncount_frame_end_def Let_def simp del: ex_simps split: if_splits option.splits)
qed

text \<open>The two ways \<open>dequeuefront\<close> returns: a packet of another protocol, or an Octopus packet.\<close>

lemma dequeuefront_Inr:
  assumes "dequeuefront ts q = Inr (p', q')"
  obtains (other) p rest h where "internal_queue q = p # rest"
      and "mk_PacketHeader (contents p) = Inr h" and "\<not> is_octopus h"
      and "p' = p" and "q' = uncount p (q\<lparr>internal_queue := rest\<rparr>)"
  | (octopus) p rest h bw fair drop rates q2 where "internal_queue q = p # rest"
      and "mk_PacketHeader (contents p) = Inr h" and "is_octopus h" and "bandwidth q = Some bw"
      and "drop_decision ts p h fair ((uncount p (q\<lparr>internal_queue := rest\<rparr>))\<lparr>enqueue_rate := rates\<rparr>) = (drop, q2)"
      and "uncount_frame_end h q2 = Inr q'" and "p' = (if drop then p\<lparr>is_drop := True\<rparr> else p)"
      and "fair = flow_fair_share bw (dstport h) (enqueue_rate q)"
proof -
  obtain p rest where q: "internal_queue q = p # rest"
    using assms by (cases "internal_queue q") (simp_all add: dequeuefront_def)
  obtain h where h: "mk_PacketHeader (contents p) = Inr h"
    using assms unfolding dequeuefront_def q by (auto simp: Let_def)
  show thesis
  proof (cases "is_octopus h")
    case False
    then have "p' = p" and "q' = uncount p (q\<lparr>internal_queue := rest\<rparr>)"
      using assms unfolding dequeuefront_def q by (auto simp: Let_def h)
    with False q h show thesis by (intro other)
  next
    case True
    have bq: "bandwidth (uncount p (q\<lparr>internal_queue := rest\<rparr>)) = bandwidth q" by (simp add: uncount_def)
    obtain bw where bw: "bandwidth q = Some bw"
      using assms True unfolding dequeuefront_def q by (auto simp: Let_def h bq split: option.splits)
    let ?q1 = "uncount p (q\<lparr>internal_queue := rest\<rparr>)"
    let ?rates = "AList.update (dstport h) (own_rate (dstport h) (enqueue_rate ?q1)) (enqueue_rate ?q1)"
    let ?fair = "flow_fair_share bw (dstport h) (enqueue_rate ?q1)"
    obtain drop q2 where d: "drop_decision ts p h ?fair (?q1\<lparr>enqueue_rate := ?rates\<rparr>) = (drop, q2)"
      by (rule prod.exhaust)
    obtain q3 where u: "uncount_frame_end h q2 = Inr q3" and r: "(p', q') = (if drop then p\<lparr>is_drop := True\<rparr> else p, q3)"
      using assms True unfolding dequeuefront_def q by (auto simp: Let_def h bq bw d)
    from r have "q' = q3" and "p' = (if drop then p\<lparr>is_drop := True\<rparr> else p)" by simp_all
    then show thesis using octopus [OF q h True bw d] u by (simp add: uncount_def)
  qed
qed

lemma dequeuefront_frame:
  assumes "dequeuefront ts q = Inr (p', q')"
  obtains p where "internal_queue q = p # internal_queue q'" and "stamp p' = stamp p"
    and "queue_size_in_bytes q' = queue_size_in_bytes q - of_nat (pkt_bytes p)"
    and "queue_size_in_packets q' = queue_size_in_packets q - 1"
    and "byte_limit q' = byte_limit q" and "packet_limit q' = packet_limit q"
    and "bandwidth q' = bandwidth q"
  using assms
proof (cases rule: dequeuefront_Inr)
  case (other p rest h)
  then show thesis by (intro that [of p]) (simp_all add: uncount_def)
next
  case (octopus p rest h bw fair drop rates q2)
  from uncount_frame_end_frame [OF octopus(6)] obtain fc where q': "q' = q2\<lparr>frame_counter := fc\<rparr>" ..
  have q2: "q2 = snd (drop_decision ts p h fair ((uncount p (q\<lparr>internal_queue := rest\<rparr>))\<lparr>enqueue_rate := rates\<rparr>))"
    using octopus(5) by simp
  show thesis
    by (rule that [of p]) (simp_all add: q' q2 drop_decision_frame octopus(1,7) uncount_def stamp_def)
qed

lemma dequeuefront_served:
  assumes "dequeuefront ts q = Inr (p', q')"
  shows "served (p' # internal_queue q') (internal_queue q)"
  using assms by (rule dequeuefront_frame) (simp add: served_def)

lemma dequeuefront_shorter:
  assumes "dequeuefront ts q = Inr r"
  shows "length (internal_queue (snd r)) < length (internal_queue q)"
proof -
  from assms have "dequeuefront ts q = Inr (fst r, snd r)" by simp
  then show ?thesis by (rule dequeuefront_frame) simp
qed

text \<open>
  \<open>dequeue\<close>: \<open>bitrate_skip\<close> is the loop that passes over the packets of dropped messages. It
  stops when the queue is empty, even if the packet in hand is to be dropped. Every
  \<open>dequeuefront\<close> reads the clock once more.
\<close>

function bitrate_skip :: "(nat \<Rightarrow> u64) \<Rightarrow> QueuedPacket \<Rightarrow> bitrate_queue \<Rightarrow> (QueuedPacket \<times> bitrate_queue) res" where
  "bitrate_skip clk pkt q =
     (if internal_queue q = [] then Inr (pkt, q)
      else res_bind (mk_PacketHeader (contents pkt)) (\<lambda>h.
        if \<not> is_octopus h then Inr (pkt, q)
        else if is_drop pkt
        then res_bind (dequeuefront (clk 0) q) (\<lambda>r. bitrate_skip (\<lambda>i. clk (Suc i)) (fst r) (snd r))
        else Inr (pkt, q)))"
  by pat_completeness auto
termination
  by (relation "measure (\<lambda>(clk, pkt, q). length (internal_queue q))")
    (auto dest: dequeuefront_shorter)

declare bitrate_skip.simps [simp del]

definition bitrate_log_dequeue :: "u64 \<Rightarrow> QueuedPacket \<Rightarrow> bitrate_queue \<Rightarrow> bitrate_queue res" where
  "bitrate_log_dequeue ts pkt q =
     res_bind (mk_PacketHeader (contents pkt)) (\<lambda>h.
       if log_fd q \<noteq> None \<and> is_octopus h
       then res_bind (size_bytes q) (\<lambda>sz.
         case bandwidth q of
           None \<Rightarrow> Inl Undefined_behaviour
         | Some bw \<Rightarrow>
             Inr (log_print ''dequeue, Octopus''
               [uint ts, int (pkt_bytes pkt), uint sz, sint (ts - arrival_time pkt), uint (seq h),
                uint (msg_no h), uint (bitrate h), sint bw, uint (wildcard h)] q))
       else Inr q)"

definition bitrate_dequeue :: "(nat \<Rightarrow> u64) \<Rightarrow> bitrate_queue \<Rightarrow> (QueuedPacket \<times> bitrate_queue) res" where
  "bitrate_dequeue clk q =
     asserting (internal_queue q \<noteq> [])
       (res_bind (dequeuefront (clk 1) q) (\<lambda>r.
        res_bind (bitrate_skip (\<lambda>i. clk (Suc (Suc i))) (fst r) (snd r)) (\<lambda>s.
        res_bind (bitrate_log_dequeue (clk 0) (fst s) (snd s)) (\<lambda>q'. Inr (fst s, q')))))"

definition bitrate_ops :: "bitrate_queue queue_ops" where
  "bitrate_ops =
     \<lparr>op_enqueue = (\<lambda>e. bitrate_enqueue (clock e 0)), op_dequeue = (\<lambda>e. bitrate_dequeue (clock e)),
      op_empty = queue_empty, op_to_string = dropping_to_string ''dropbitrate_dequeue'',
      op_size_bytes = size_bytes, op_size_packets = size_packets, op_set_bandwidth = set_bandwidth\<rparr>"

section \<open>The frame counter counts the queued ends of a message\<close>

definition end_weight :: "u16 \<Rightarrow> u32 \<Rightarrow> QueuedPacket \<Rightarrow> nat" where
  "end_weight port msg p =
     (case mk_PacketHeader (contents p) of
        Inl _ \<Rightarrow> 0
      | Inr h \<Rightarrow>
          if is_octopus h \<and> dstport h = port \<and> msg_no h = msg
          then (case pkt_pos h of FIRST \<Rightarrow> 1 | LAST \<Rightarrow> 1 | SOLO \<Rightarrow> 2 | MID \<Rightarrow> 0) else 0)"

definition queued_ends :: "u16 \<Rightarrow> u32 \<Rightarrow> QueuedPacket list \<Rightarrow> nat" where
  "queued_ends port msg ps = sum_list (map (end_weight port msg) ps)"

definition counted :: "nat \<Rightarrow> int option" where
  "counted n = (if n = 0 then None else Some (int n))"

definition frames_counted :: "QueuedPacket list \<Rightarrow> (u16 \<Rightarrow> u32 \<rightharpoonup> int) \<Rightarrow> bool" where
  "frames_counted ps fc \<longleftrightarrow> (\<forall>port msg. fc port msg = counted (queued_ends port msg ps))"

definition bitrate_inv :: "bitrate_queue \<Rightarrow> bool" where
  "bitrate_inv q \<longleftrightarrow> limited_inv q \<and> frames_counted (internal_queue q) (frame_counter q)"

lemma queued_ends_simps [simp]:
  "queued_ends port msg [] = 0"
  "queued_ends port msg (p # ps) = end_weight port msg p + queued_ends port msg ps"
  "queued_ends port msg (ps @ qs) = queued_ends port msg ps + queued_ends port msg qs"
  by (simp_all add: queued_ends_def)

lemma counted_simps [simp]:
  "counted 0 = None" "counted (Suc n) = Some (int (Suc n))"
  "counted n = None \<longleftrightarrow> n = 0" "counted n = Some k \<longleftrightarrow> n \<noteq> 0 \<and> k = int n"
  by (auto simp: counted_def)

lemma end_weight_header:
  "mk_PacketHeader (contents p) = Inr h \<Longrightarrow>
     end_weight port msg p =
       (if is_octopus h \<and> dstport h = port \<and> msg_no h = msg
        then (case pkt_pos h of FIRST \<Rightarrow> 1 | LAST \<Rightarrow> 1 | SOLO \<Rightarrow> 2 | MID \<Rightarrow> 0) else 0)"
  by (simp add: end_weight_def)

lemma end_weight_stamp: "stamp p = stamp p' \<Longrightarrow> end_weight port msg p = end_weight port msg p'"
  by (simp add: end_weight_def stamp_def)

lemma count_frame_end_frame:
  assumes "count_frame_end h q = Inr q'"
  shows "\<exists>fc. q' = q\<lparr>frame_counter := fc\<rparr>"
proof -
  have "\<exists>fc. q = q\<lparr>frame_counter := fc\<rparr>" by (rule exI [of _ "frame_counter q"]) simp
  then show ?thesis
    using assms by (auto simp: count_frame_end_def Let_def simp del: ex_simps split: if_splits option.splits)
qed

lemma count_frame_end_inv:
  assumes "frames_counted ps (frame_counter q)" and "count_frame_end h q = Inr q'"
    and "mk_PacketHeader (contents p) = Inr h" and "is_octopus h"
  shows "frames_counted (ps @ [p]) (frame_counter q')"
  unfolding frames_counted_def
proof (intro allI)
  fix port msg
  have here: "frame_counter q (dstport h) (msg_no h) = counted (queued_ends (dstport h) (msg_no h) ps)"
    and there: "frame_counter q port msg = counted (queued_ends port msg ps)"
    using assms(1) unfolding frames_counted_def by simp_all
  show "frame_counter q' port msg = counted (queued_ends port msg (ps @ [p]))"
    using here there assms(2-4)
    by (cases "pkt_pos h"; cases "dstport h = port \<and> msg_no h = msg")
      (auto simp: count_frame_end_def Let_def end_weight_header counted_def split: if_splits)
qed

lemma uncount_frame_end_inv:
  assumes "frames_counted (p # ps) (frame_counter q)" and "uncount_frame_end h q = Inr q'"
    and "mk_PacketHeader (contents p) = Inr h" and "is_octopus h"
  shows "frames_counted ps (frame_counter q')"
  unfolding frames_counted_def
proof (intro allI)
  fix port msg
  have here: "frame_counter q (dstport h) (msg_no h) = counted (queued_ends (dstport h) (msg_no h) (p # ps))"
    and there: "frame_counter q port msg = counted (queued_ends port msg (p # ps))"
    using assms(1) unfolding frames_counted_def by simp_all
  show "frame_counter q' port msg = counted (queued_ends port msg ps)"
    using here there assms(2-4)
    by (cases "pkt_pos h"; cases "dstport h = port \<and> msg_no h = msg")
      (auto simp: uncount_frame_end_def Let_def end_weight_header counted_def split: if_splits)
qed

lemma frames_counted_other:
  "mk_PacketHeader (contents p) = Inr h \<Longrightarrow> \<not> is_octopus h \<Longrightarrow>
     frames_counted (ps @ [p]) fc = frames_counted ps fc \<and> frames_counted (p # ps) fc = frames_counted ps fc"
  by (simp add: frames_counted_def end_weight_header)

section \<open>Enqueueing\<close>

text \<open>The fields that the limits, the counters and the frame counter depend on.\<close>

definition same_core :: "bitrate_queue \<Rightarrow> bitrate_queue \<Rightarrow> bool" where
  "same_core q q' \<longleftrightarrow>
     internal_queue q' = internal_queue q \<and> queue_size_in_bytes q' = queue_size_in_bytes q \<and>
     queue_size_in_packets q' = queue_size_in_packets q \<and> byte_limit q' = byte_limit q \<and>
     packet_limit q' = packet_limit q \<and> bandwidth q' = bandwidth q"

lemma same_coreD:
  assumes "same_core q q'"
  shows "internal_queue q' = internal_queue q" and "dq_inv q' = dq_inv q" and "within_limits q' = within_limits q"
    and "bandwidth q' = bandwidth q"
  using assms by (simp_all add: same_core_def dq_inv_def within_limits_def)

lemma same_core_refl [simp]: "same_core q q"
  by (simp add: same_core_def)

lemma same_core_trans: "same_core q q' \<Longrightarrow> same_core q' q'' \<Longrightarrow> same_core q q''"
  by (simp add: same_core_def)

lemma log_octopus_core:
  "log_octopus f a q = Inr q' \<Longrightarrow> same_core q q' \<and> frame_counter q' = frame_counter q"
  by (auto simp: log_octopus_def log_print_def same_core_def split: if_splits)

lemma update_rate_core:
  "update_rate ts n port q = Inr q' \<Longrightarrow> same_core q q' \<and> frame_counter q' = frame_counter q"
  by (auto simp: update_rate_def Let_def same_core_def split: if_splits)

lemma count_frame_end_core: "count_frame_end h q = Inr q' \<Longrightarrow> same_core q q'"
  by (drule count_frame_end_frame) (auto simp: same_core_def)

lemma register_dropper_core:
  "same_core q (register_dropper h q) \<and> frame_counter (register_dropper h q) = frame_counter q"
  by (simp add: register_dropper_def Let_def same_core_def)

lemma bitrate_enqueue_inv:
  assumes inv: "bitrate_inv q" and fit: "fits p (internal_queue q)" and enq: "bitrate_enqueue ts p q = Inr q'"
  shows "bitrate_inv q'"
    and "internal_queue q' = internal_queue q @ [p] \<or> internal_queue q' = internal_queue q"
proof -
  from inv have dq: "dq_inv q" and lim: "within_limits q"
    and fc: "frames_counted (internal_queue q) (frame_counter q)" by (simp_all add: bitrate_inv_def)
  have "bitrate_inv q' \<and> (internal_queue q' = internal_queue q @ [p] \<or> internal_queue q' = internal_queue q)"
  proof (cases "within_limits (accept p q)")
    case False
    with enq have "q' = q" by (simp add: bitrate_enqueue_def has_room_inv [OF dq fit])
    with inv show ?thesis by simp
  next
    case room: True
    obtain h where h: "mk_PacketHeader (contents p) = Inr h"
      using enq room by (auto simp: bitrate_enqueue_def has_room_inv [OF dq fit] Let_def)
    have acc: "frame_counter (accept p q) = frame_counter q" by (simp add: accept_def)
    show ?thesis
    proof (cases "is_octopus h")
      case False
      with enq obtain q2 where q2: "log_octopus ''enqueue, Other'' [sint ts, int (pkt_bytes p)] (accept p q) = Inr q2"
        and a: "assert_good q2 (Inr q2) = Inr q'"
        using room h by (auto simp: bitrate_enqueue_def has_room_inv [OF dq fit] Let_def)
      have "same_core (accept p q) q'" "frame_counter q' = frame_counter q"
        using log_octopus_core [OF q2] a acc by (auto simp: assert_good_def)
      then show ?thesis
        using room accept_inv [OF dq fit] fc frames_counted_other [OF h False]
        by (simp add: bitrate_inv_def same_coreD)
    next
      case True
      with enq obtain q2 q3 q4 where q2: "update_rate ts (of_nat (pkt_bytes p)) (dstport h) (accept p q) = Inr q2"
        and q3: "log_octopus ''enqueue, Octopus''
               [sint ts, int (pkt_bytes p), uint (seq h), sint (msg_no h), uint (dstport h)] q2 = Inr q3"
        and q4: "count_frame_end h q3 = Inr q4" and q': "q' = register_dropper h q4"
        using room h by (auto simp: bitrate_enqueue_def has_room_inv [OF dq fit] Let_def)
      have core: "same_core (accept p q) q4"
        using update_rate_core [OF q2] log_octopus_core [OF q3] count_frame_end_core [OF q4]
        by (blast intro: same_core_trans)
      have c3: "frame_counter q3 = frame_counter q"
        using update_rate_core [OF q2] log_octopus_core [OF q3] acc by simp
      have "frames_counted (internal_queue q @ [p]) (frame_counter q4)"
        using count_frame_end_inv [OF _ q4 h True] fc c3 by simp
      moreover have "same_core (accept p q) q'" and "frame_counter q' = frame_counter q4"
        using core register_dropper_core [of q4 h] unfolding q' by (blast intro: same_core_trans)+
      ultimately show ?thesis
        using room accept_inv [OF dq fit] by (simp add: bitrate_inv_def same_coreD)
    qed
  qed
  then show "bitrate_inv q'" and "internal_queue q' = internal_queue q @ [p] \<or> internal_queue q' = internal_queue q"
    by simp_all
qed

section \<open>Dequeueing\<close>

lemma dequeuefront_inv:
  assumes inv: "bitrate_inv q" and d: "dequeuefront ts q = Inr (p', q')"
  shows "bitrate_inv q'"
proof -
  from inv have dq: "dq_inv q" and lim: "within_limits q"
    and fc: "frames_counted (internal_queue q) (frame_counter q)" by (simp_all add: bitrate_inv_def)
  obtain p where f: "internal_queue q = p # internal_queue q'" "queue_size_in_bytes q' = queue_size_in_bytes q - of_nat (pkt_bytes p)"
    "queue_size_in_packets q' = queue_size_in_packets q - 1" "byte_limit q' = byte_limit q" "packet_limit q' = packet_limit q"
    using d by (rule dequeuefront_frame)
  have "dq_inv q'" and "within_limits q'"
    using dq lim f by (auto simp: dq_inv_def within_limits_def)
  moreover have "frames_counted (internal_queue q') (frame_counter q')"
    using d
  proof (cases rule: dequeuefront_Inr)
    case (other p rest h)
    then show ?thesis
      using fc frames_counted_other [OF other(2,3), of rest] by (simp add: uncount_def)
  next
    case (octopus p rest h bw fair drop rates q2)
    have "frame_counter q2 = frame_counter q"
      using drop_decision_frame(7) [of ts p h fair "(uncount p (q\<lparr>internal_queue := rest\<rparr>))\<lparr>enqueue_rate := rates\<rparr>"]
      unfolding octopus(5) by (simp add: uncount_def)
    then show ?thesis
      using uncount_frame_end_inv [OF _ octopus(6,2,3)] fc octopus(1) f(1) by simp
  qed
  ultimately show ?thesis by (simp add: bitrate_inv_def)
qed

lemma bitrate_skip_inv:
  "bitrate_skip clk p q = Inr (p', q') \<Longrightarrow> bitrate_inv q \<Longrightarrow>
     bitrate_inv q' \<and> served (p' # internal_queue q') (p # internal_queue q)"
proof (induction clk p q rule: bitrate_skip.induct)
  case (1 clk p q)
  show ?case
  proof (cases "p' = p \<and> q' = q")
    case True
    with "1.prems" show ?thesis by simp
  next
    case False
    with "1.prems"(1) obtain h p1 q1 where h: "mk_PacketHeader (contents p) = Inr h" "is_octopus h" "is_drop p"
        "internal_queue q \<noteq> []" and d: "dequeuefront (clk 0) q = Inr (p1, q1)"
      and r: "bitrate_skip (\<lambda>i. clk (Suc i)) p1 q1 = Inr (p', q')"
      by (subst (asm) bitrate_skip.simps) (auto split: if_splits)
    have "bitrate_inv q' \<and> served (p' # internal_queue q') (p1 # internal_queue q1)"
      using "1.IH" [of h "(p1, q1)"] h d r dequeuefront_inv [OF "1.prems"(2) d] by simp
    moreover have "served (p1 # internal_queue q1) (p # internal_queue q)"
      using dequeuefront_served [OF d] by (rule served_skip)
    ultimately show ?thesis using served_trans by blast
  qed
qed

lemma bitrate_log_dequeue_core:
  "bitrate_log_dequeue ts p q = Inr q' \<Longrightarrow> same_core q q' \<and> frame_counter q' = frame_counter q"
  by (auto simp: bitrate_log_dequeue_def log_print_def same_core_def split: if_splits option.splits)

lemma bitrate_dequeue_inv:
  assumes inv: "bitrate_inv q" and d: "bitrate_dequeue clk q = Inr (p, q')"
  shows "bitrate_inv q'" and "served (p # internal_queue q') (internal_queue q)"
proof -
  from d obtain p1 q1 q2 where d1: "dequeuefront (clk 1) q = Inr (p1, q1)"
    and s: "bitrate_skip (\<lambda>i. clk (Suc (Suc i))) p1 q1 = Inr (p, q2)"
    and l: "bitrate_log_dequeue (clk 0) p q2 = Inr q'"
    by (auto simp: bitrate_dequeue_def)
  have *: "bitrate_inv q2 \<and> served (p # internal_queue q2) (p1 # internal_queue q1)"
    using bitrate_skip_inv [OF s dequeuefront_inv [OF inv d1]] .
  then show "bitrate_inv q'"
    using bitrate_log_dequeue_core [OF l] same_coreD [of q2 q'] by (simp add: bitrate_inv_def)
  have "internal_queue q' = internal_queue q2"
    using bitrate_log_dequeue_core [OF l] same_coreD(1) by blast
  with * show "served (p # internal_queue q') (internal_queue q)"
    using dequeuefront_served [OF d1] served_trans by metis
qed

interpretation bitrate: packet_queue bitrate_ops internal_queue bitrate_inv
proof (unfold_locales, goal_cases)
  case (4 q) then show ?case by (simp add: bitrate_inv_def dq_inv_def)
next
  case (5 q p e q') then show ?case
    using bitrate_enqueue_inv(1) [of q p "clock e 0" q'] by (simp add: bitrate_ops_def)
next
  case (6 q p e q') then show ?case
    using bitrate_enqueue_inv(2) [of q p "clock e 0" q'] by (auto simp: bitrate_ops_def served_snoc_skip)
next
  case (7 q e p q') then show ?case
    using bitrate_dequeue_inv(1) by (simp add: bitrate_ops_def)
next
  case (8 q e p q') then show ?case
    using bitrate_dequeue_inv(2) by (simp add: bitrate_ops_def)
next
  case (9 q b)
  have "frame_counter (set_bandwidth b q) = frame_counter q" by (simp add: set_bandwidth_def)
  with 9 show ?case by (simp add: bitrate_ops_def bitrate_inv_def)
qed (simp_all add: bitrate_ops_def queue_empty_def queue_simps bitrate_inv_def)

section \<open>Dequeueing returns\<close>

text \<open>A message sent as a single packet does not share its number with another queued message.\<close>

definition solo_alone :: "QueuedPacket list \<Rightarrow> bool" where
  "solo_alone ps \<longleftrightarrow>
     (\<forall>p \<in> set ps. case mk_PacketHeader (contents p) of
        Inl _ \<Rightarrow> True
      | Inr h \<Rightarrow> is_octopus h \<and> pkt_pos h = SOLO \<longrightarrow> queued_ends (dstport h) (msg_no h) ps = 2)"

lemma solo_alone_tl:
  assumes "solo_alone (p # ps)"
  shows "solo_alone ps"
  unfolding solo_alone_def
proof
  fix x
  assume x: "x \<in> set ps"
  show "case mk_PacketHeader (contents x) of Inl _ \<Rightarrow> True
      | Inr h \<Rightarrow> is_octopus h \<and> pkt_pos h = SOLO \<longrightarrow> queued_ends (dstport h) (msg_no h) ps = 2"
  proof (cases "mk_PacketHeader (contents x)")
    case (Inr h)
    have "end_weight (dstport h) (msg_no h) x \<le> queued_ends (dstport h) (msg_no h) ps"
      using x unfolding queued_ends_def by (simp add: member_le_sum_list)
    then show ?thesis
      using assms x Inr by (auto simp: solo_alone_def end_weight_header)
  qed simp
qed

lemma uncount_frame_end_returns:
  assumes "frames_counted (p # ps) (frame_counter q)" and "mk_PacketHeader (contents p) = Inr h"
    and "is_octopus h" and "solo_alone (p # ps)"
  shows "\<exists>q'. uncount_frame_end h q = Inr q'"
proof -
  have fc: "frame_counter q (dstport h) (msg_no h) = counted (queued_ends (dstport h) (msg_no h) (p # ps))"
    using assms(1) unfolding frames_counted_def by simp
  show ?thesis
    using fc assms(2-4)
    by (cases "pkt_pos h")
      (auto simp: uncount_frame_end_def Let_def end_weight_header solo_alone_def)
qed

lemma dequeuefront_returns:
  assumes inv: "bitrate_inv q" and bw: "bandwidth q = Some bw" and q: "internal_queue q = p # rest"
    and "readable (contents p)" and solo: "solo_alone (internal_queue q)"
  shows "\<exists>p' q'. dequeuefront ts q = Inr (p', q')"
proof -
  obtain h where h: "mk_PacketHeader (contents p) = Inr h"
    using assms(4) mk_PacketHeader_readable by blast
  show ?thesis
  proof (cases "is_octopus h")
    case False
    then show ?thesis by (simp add: dequeuefront_def q Let_def h)
  next
    case True
    let ?q1 = "uncount p (q\<lparr>internal_queue := rest\<rparr>)"
    let ?rates = "AList.update (dstport h) (own_rate (dstport h) (enqueue_rate ?q1)) (enqueue_rate ?q1)"
    let ?fair = "flow_fair_share bw (dstport h) (enqueue_rate ?q1)"
    have bq: "bandwidth ?q1 = Some bw" by (simp add: uncount_def bw)
    obtain drop q2 where d: "drop_decision ts p h ?fair (?q1\<lparr>enqueue_rate := ?rates\<rparr>) = (drop, q2)"
      by (rule prod.exhaust)
    have "frame_counter q2 = frame_counter q"
      using drop_decision_frame(7) [of ts p h ?fair "?q1\<lparr>enqueue_rate := ?rates\<rparr>"]
      unfolding d by (simp add: uncount_def)
    then obtain q3 where "uncount_frame_end h q2 = Inr q3"
      using uncount_frame_end_returns [of p rest q2 h] inv h True solo q by (auto simp: bitrate_inv_def)
    then have "dequeuefront ts q = Inr (if drop then p\<lparr>is_drop := True\<rparr> else p, q3)"
      by (simp add: dequeuefront_def q Let_def h True bq d)
    then show ?thesis by blast
  qed
qed

text \<open>
  What \<open>bitrate_skip\<close> needs of the queue to return: it is kept from one \<open>dequeuefront\<close> to the
  next.
\<close>

definition dequeue_ready :: "bitrate_queue \<Rightarrow> bool" where
  "dequeue_ready q \<longleftrightarrow> bitrate_inv q \<and> bandwidth q \<noteq> None \<and> solo_alone (internal_queue q) \<and>
     (\<forall>p \<in> set (internal_queue q). readable (contents p) \<and> \<not> is_drop p)"

lemma dequeuefront_ready:
  assumes r: "dequeue_ready q" and ne: "internal_queue q \<noteq> []"
  shows "\<exists>p q'. dequeuefront ts q = Inr (p, q') \<and> dequeue_ready q' \<and> readable (contents p) \<and>
    (\<forall>h. mk_PacketHeader (contents p) = Inr h \<and> \<not> is_octopus h \<longrightarrow> \<not> is_drop p)"
proof -
  obtain x rest where q: "internal_queue q = x # rest" using ne by (cases "internal_queue q") auto
  obtain p q' where d: "dequeuefront ts q = Inr (p, q')"
    using dequeuefront_returns [of q _ x rest ts] r q by (auto simp: dequeue_ready_def)
  from d obtain y where f: "internal_queue q = y # internal_queue q'" "stamp p = stamp y" "bandwidth q' = bandwidth q"
    by (rule dequeuefront_frame)
  have "dequeue_ready q'"
    using r f dequeuefront_inv [OF _ d] solo_alone_tl by (auto simp: dequeue_ready_def)
  moreover have "readable (contents p)"
    using r f by (simp add: dequeue_ready_def stamp_def)
  moreover have "\<not> is_drop p" if "mk_PacketHeader (contents p) = Inr h" and "\<not> is_octopus h" for h
    using d
  proof (cases rule: dequeuefront_Inr)
    case (other z rest k)
    then show ?thesis using r by (simp add: dequeue_ready_def)
  next
    case (octopus z rest k)
    then show ?thesis using that by (auto split: if_splits)
  qed
  ultimately show ?thesis using d by blast
qed

text \<open>
  The loop returns, and hands out a packet that is marked as dropped only when it has emptied
  the queue.
\<close>

lemma bitrate_skip_returns:
  "dequeue_ready q \<Longrightarrow> readable (contents p) \<Longrightarrow>
     (\<forall>h. mk_PacketHeader (contents p) = Inr h \<and> \<not> is_octopus h \<longrightarrow> \<not> is_drop p) \<Longrightarrow>
     \<exists>p' q'. bitrate_skip clk p q = Inr (p', q') \<and> dequeue_ready q' \<and> readable (contents p') \<and>
       (is_drop p' \<longrightarrow> internal_queue q' = [])"
proof (induction clk p q rule: bitrate_skip.induct)
  case (1 clk p q)
  obtain h where h: "mk_PacketHeader (contents p) = Inr h"
    using "1.prems"(2) mk_PacketHeader_readable by blast
  show ?case
  proof (cases "internal_queue q \<noteq> [] \<and> is_octopus h \<and> is_drop p")
    case False
    have "bitrate_skip clk p q = Inr (p, q)"
      using False h by (subst bitrate_skip.simps) auto
    with False h "1.prems" show ?thesis by auto
  next
    case True
    then obtain p1 q1 where d: "dequeuefront (clk 0) q = Inr (p1, q1)" and n: "dequeue_ready q1"
      "readable (contents p1)" "\<forall>h. mk_PacketHeader (contents p1) = Inr h \<and> \<not> is_octopus h \<longrightarrow> \<not> is_drop p1"
      using dequeuefront_ready [OF "1.prems"(1)] by blast
    have "bitrate_skip clk p q = bitrate_skip (\<lambda>i. clk (Suc i)) p1 q1"
      using True h d by (subst bitrate_skip.simps) simp
    then show ?thesis
      using "1.IH" [of h "(p1, q1)"] True h d n by simp
  qed
qed

lemma bitrate_log_dequeue_returns:
  assumes "dequeue_ready q" and "readable (contents p)"
  shows "\<exists>q'. bitrate_log_dequeue ts p q = Inr q' \<and> same_core q q'"
proof -
  obtain h bw where h: "mk_PacketHeader (contents p) = Inr h" and bw: "bandwidth q = Some bw"
    and dq: "dq_inv q"
    using mk_PacketHeader_readable [OF assms(2)] assms(1) by (auto simp: dequeue_ready_def bitrate_inv_def)
  show ?thesis
    by (cases "log_fd q \<noteq> None \<and> is_octopus h")
      (auto simp: bitrate_log_dequeue_def h bw size_bytes_inv [OF dq] same_core_def log_print_def)
qed

text \<open>
  C11: On a queue in use (invariant, bandwidth set, readable and unmarked packets, no message
  number shared with a single-packet message) \<open>dequeue\<close> returns: neither \<open>map::at\<close> nor an
  assertion fails. It hands out a packet marked as dropped only when it has emptied the queue.
\<close>

theorem bitrate_dequeue_returns:
  assumes "dequeue_ready q" and "internal_queue q \<noteq> []"
  shows "\<exists>p q'. bitrate_dequeue clk q = Inr (p, q') \<and> (is_drop p \<longrightarrow> internal_queue q' = [])"
proof -
  obtain p1 q1 where d: "dequeuefront (clk 1) q = Inr (p1, q1)" and n: "dequeue_ready q1"
      "readable (contents p1)" "\<forall>h. mk_PacketHeader (contents p1) = Inr h \<and> \<not> is_octopus h \<longrightarrow> \<not> is_drop p1"
    using dequeuefront_ready [OF assms] by blast
  obtain p2 q2 where s: "bitrate_skip (\<lambda>i. clk (Suc (Suc i))) p1 q1 = Inr (p2, q2)" and m: "dequeue_ready q2"
      "readable (contents p2)" "is_drop p2 \<longrightarrow> internal_queue q2 = []"
    using bitrate_skip_returns [OF n] by blast
  obtain q3 where l: "bitrate_log_dequeue (clk 0) p2 q2 = Inr q3" and c: "same_core q2 q3"
    using bitrate_log_dequeue_returns [OF m(1,2)] by blast
  have "bitrate_dequeue clk q = Inr (p2, q3)"
    unfolding bitrate_dequeue_def d by (simp add: assms(2) s l)
  with m(3) same_coreD(1) [OF c] show ?thesis by auto
qed

section \<open>Which messages are dropped\<close>

lemma drop_decision_cases:
  assumes "fst (drop_decision ts p h fair q)"
  shows "(frame_complete h q \<and> uint (slack_time h) \<le> sint (ts - arrival_time p) \<and>
           (fair < bitrate h \<or>
            sint (msg_no h) < latest_dropper (case prio_to_droppers q (dstport h) of None \<Rightarrow> replicate 8 0 | Some ds \<Rightarrow> ds)
                                (unat (priority h)))) \<or>
         (\<not> frame_complete h q \<and> msg_no h = msg_in_drop q (dstport h))"
  using assms by (auto simp: drop_decision_def Let_def split: if_splits)

text \<open>
  C21: \<open>dequeuefront\<close> marks a packet as dropped only if it is an Octopus packet and either both ends
  of its message are queued, it has waited for at least its slack time, and its bitrate exceeds
  the fair share of its flow or a later message of the flow preempts its priority; or it belongs
  to the message of its flow that is being dropped already.
\<close>

theorem dequeuefront_drop_reason:
  assumes "dequeuefront ts q = Inr (p', q')" and "is_drop p'" and "\<not> is_drop (hd (internal_queue q))"
  shows "\<exists>h bw. mk_PacketHeader (contents p') = Inr h \<and> is_octopus h \<and> bandwidth q = Some bw \<and>
     (if frame_complete h q
      then uint (slack_time h) \<le> sint (ts - arrival_time p') \<and>
           (flow_fair_share bw (dstport h) (enqueue_rate q) < bitrate h \<or>
            sint (msg_no h) < latest_dropper (case prio_to_droppers q (dstport h) of None \<Rightarrow> replicate 8 0 | Some ds \<Rightarrow> ds)
                                (unat (priority h)))
      else msg_no h = msg_in_drop q (dstport h))"
  using assms(1)
proof (cases rule: dequeuefront_Inr)
  case (other p rest h)
  with assms show ?thesis by simp
next
  case (octopus p rest h bw fair drop rates q2)
  let ?q = "(uncount p (q\<lparr>internal_queue := rest\<rparr>))\<lparr>enqueue_rate := rates\<rparr>"
  have "fst (drop_decision ts p h fair ?q)"
    using octopus(1,5,7) assms(2,3) by (auto split: if_splits)
  from drop_decision_cases [OF this] have *: "(if frame_complete h q
      then uint (slack_time h) \<le> sint (ts - arrival_time p) \<and>
           (fair < bitrate h \<or>
            sint (msg_no h) < latest_dropper (case prio_to_droppers q (dstport h) of None \<Rightarrow> replicate 8 0 | Some ds \<Rightarrow> ds)
                                (unat (priority h)))
      else msg_no h = msg_in_drop q (dstport h))"
    by (simp add: frame_complete_def uncount_def) blast
  have "contents p' = contents p" and "arrival_time p' = arrival_time p" using octopus(7) by simp_all
  with * octopus(2,3,4,8) show ?thesis by auto
qed

lemma drop_decision_complete:
  "frame_complete h q \<Longrightarrow> drop_decision ts p h f q = (True, q2) \<Longrightarrow> msg_in_drop q2 (dstport h) = msg_no h"
  by (auto simp: drop_decision_def Let_def log_print_def split: if_splits)

lemma drop_decision_incomplete:
  "\<not> frame_complete h q \<Longrightarrow> drop_decision ts p h f q = (msg_no h = msg_in_drop q (dstport h), q)"
  by (simp add: drop_decision_def)

definition of_message :: "u16 \<Rightarrow> u32 \<Rightarrow> QueuedPacket \<Rightarrow> bool" where
  "of_message port msg p =
     (case mk_PacketHeader (contents p) of
        Inl _ \<Rightarrow> False | Inr h \<Rightarrow> is_octopus h \<and> dstport h = port \<and> msg_no h = msg)"

lemma of_messageE:
  assumes "of_message port msg p"
  obtains h where "mk_PacketHeader (contents p) = Inr h" and "is_octopus h" and "dstport h = port" and "msg_no h = msg"
  using assms by (auto simp: of_message_def split: sum.splits)

lemma of_message_stamp: "stamp p = stamp p' \<Longrightarrow> of_message port msg p = of_message port msg p'"
  by (simp add: of_message_def stamp_def)

text \<open>
  When the message in drop is incomplete in the queue, its front packet is marked, and the
  message stays in drop.
\<close>

lemma dequeuefront_in_drop:
  assumes inv: "bitrate_inv q" and q: "internal_queue q = p # rest" and m: "of_message port msg p"
    and one: "queued_ends port msg (p # rest) \<le> 1" and mark: "msg_in_drop q port = msg"
    and d: "dequeuefront ts q = Inr (p', q')"
  shows "is_drop p'" and "msg_in_drop q' port = msg" and "stamp p' = stamp p" and "internal_queue q' = rest"
proof -
  obtain h where h: "mk_PacketHeader (contents p) = Inr h" "is_octopus h" "dstport h = port" "msg_no h = msg"
    using m by (rule of_messageE)
  have fc: "frame_counter q port msg = counted (queued_ends port msg (p # rest))"
    using inv q by (simp add: bitrate_inv_def frames_counted_def)
  have "is_drop p' \<and> msg_in_drop q' port = msg"
    using d
  proof (cases rule: dequeuefront_Inr)
    case (other x xs k)
    then show ?thesis using h q by simp
  next
    case (octopus x xs k bw fair drop rates q2)
    let ?q = "(uncount p (q\<lparr>internal_queue := rest\<rparr>))\<lparr>enqueue_rate := rates\<rparr>"
    have k: "x = p" "xs = rest" "k = h" using octopus h q by simp_all
    have "\<not> frame_complete h ?q"
      using fc one h by (auto simp: frame_complete_def uncount_def)
    then have "drop" and "q2 = ?q"
      using octopus(5) drop_decision_incomplete [of h ?q ts p fair] k h mark by (simp_all add: uncount_def)
    moreover obtain c where "q' = q2\<lparr>frame_counter := c\<rparr>"
      using uncount_frame_end_frame [OF octopus(6)] by blast
    ultimately show ?thesis
      using octopus(7) mark by (simp add: uncount_def)
  qed
  then show "is_drop p'" and "msg_in_drop q' port = msg" by simp_all
  from d show "stamp p' = stamp p" and "internal_queue q' = rest"
    by (rule dequeuefront_frame, use q in simp)+
qed

lemma dequeuefront_drops_complete:
  assumes inv: "bitrate_inv q" and q: "internal_queue q = p # rest" and np: "\<not> is_drop p"
    and m: "of_message port msg p \<and> queued_ends port msg (p # rest) = 2"
    and d: "dequeuefront ts q = Inr (p', q')" and dp: "is_drop p'"
  shows "msg_in_drop q' port = msg"
proof -
  obtain h where h: "mk_PacketHeader (contents p) = Inr h" "is_octopus h" "dstport h = port" "msg_no h = msg"
    using m by (blast elim: of_messageE)
  have fc: "frame_counter q port msg = Some 2"
    using inv q m by (simp add: bitrate_inv_def frames_counted_def)
  show ?thesis
    using d
  proof (cases rule: dequeuefront_Inr)
    case (other x xs k)
    then show ?thesis using h q by simp
  next
    case (octopus x xs k bw fair drop rates q2)
    let ?q = "(uncount p (q\<lparr>internal_queue := rest\<rparr>))\<lparr>enqueue_rate := rates\<rparr>"
    have k: "x = p" "xs = rest" "k = h" using octopus h q by simp_all
    have drop using octopus(7) dp np k by (simp split: if_splits)
    have "frame_complete h ?q"
      using fc h by (simp add: frame_complete_def uncount_def)
    then have "msg_in_drop q2 port = msg"
      using drop_decision_complete [of h ?q ts p fair q2] octopus(5) \<open>drop\<close> k h by simp
    then show ?thesis using uncount_frame_end_frame [OF octopus(6)] by auto
  qed
qed

text \<open>Packets of other flows leave the message in drop of this flow alone.\<close>

definition of_flow :: "u16 \<Rightarrow> QueuedPacket \<Rightarrow> bool" where
  "of_flow port p =
     (case mk_PacketHeader (contents p) of Inl _ \<Rightarrow> False | Inr h \<Rightarrow> is_octopus h \<and> dstport h = port)"

lemma of_message_flow: "of_message port msg p \<Longrightarrow> of_flow port p"
  by (auto simp: of_message_def of_flow_def split: sum.splits)

lemma end_weight_other: "\<not> of_message port msg p \<Longrightarrow> end_weight port msg p = 0"
  by (auto simp: of_message_def end_weight_def split: sum.splits)

lemma drop_decision_other_flow:
  "dstport h \<noteq> port \<Longrightarrow> msg_in_drop (snd (drop_decision ts p h f q)) port = msg_in_drop q port"
  by (simp add: drop_decision_def Let_def log_print_def)

lemma dequeuefront_other_flow:
  assumes q: "internal_queue q = p # rest" and o: "\<not> of_flow port p" and d: "dequeuefront ts q = Inr (p', q')"
  shows "msg_in_drop q' port = msg_in_drop q port"
  using d
proof (cases rule: dequeuefront_Inr)
  case (other x xs h)
  then show ?thesis by (simp add: uncount_def)
next
  case (octopus x xs h bw fair drop rates q2)
  have "dstport h \<noteq> port" using octopus(1-3) o q by (auto simp: of_flow_def)
  then have "msg_in_drop q2 port = msg_in_drop q port"
    using drop_decision_other_flow [of h port ts x fair "(uncount x (q\<lparr>internal_queue := xs\<rparr>))\<lparr>enqueue_rate := rates\<rparr>"]
    unfolding octopus(5) by (simp add: uncount_def)
  then show ?thesis using uncount_frame_end_frame [OF octopus(6)] by auto
qed

text \<open>
  A queue that is dropping a message: the packets of the message that are left are in a front part
  in which the flow has no other message, at most one end of the message is queued, and the message
  is the message in drop of its flow. Something waits behind the front part.
\<close>

definition dropping_front :: "u16 \<Rightarrow> u32 \<Rightarrow> QueuedPacket list \<Rightarrow> QueuedPacket list \<Rightarrow> bool" where
  "dropping_front port msg ms rest \<longleftrightarrow> rest \<noteq> [] \<and> (\<forall>m \<in> set ms. of_flow port m \<longrightarrow> of_message port msg m) \<and>
     (\<forall>m \<in> set rest. \<not> of_message port msg m) \<and> queued_ends port msg ms \<le> 1"

definition gone :: "u16 \<Rightarrow> u32 \<Rightarrow> bitrate_queue \<Rightarrow> bool" where
  "gone port msg q \<longleftrightarrow> bitrate_inv q \<and> (\<forall>m \<in> set (internal_queue q). \<not> of_message port msg m)"

definition being_dropped :: "u16 \<Rightarrow> u32 \<Rightarrow> bitrate_queue \<Rightarrow> bool" where
  "being_dropped port msg q \<longleftrightarrow> bitrate_inv q \<and> msg_in_drop q port = msg \<and>
     (\<exists>ms rest. internal_queue q = ms @ rest \<and> dropping_front port msg ms rest)"

lemma queued_ends_none: "\<forall>m \<in> set ps. \<not> of_message port msg m \<Longrightarrow> queued_ends port msg ps = 0"
  by (induction ps) (simp_all add: end_weight_other)

lemma dropping_front_Nil: "dropping_front port msg [] rest \<Longrightarrow> \<forall>m \<in> set rest. \<not> of_message port msg m"
  by (simp add: dropping_front_def)

lemma dropping_front_Cons: "dropping_front port msg (m # ms) rest \<Longrightarrow> dropping_front port msg ms rest"
  by (simp add: dropping_front_def)

lemma dequeuefront_gone:
  assumes g: "gone port msg q" and d: "dequeuefront ts q = Inr (p', q')"
  shows "gone port msg q' \<and> \<not> of_message port msg p'"
proof -
  from d obtain p where "internal_queue q = p # internal_queue q'" and "stamp p' = stamp p" by (rule dequeuefront_frame)
  then show ?thesis using g dequeuefront_inv [OF _ d] of_message_stamp [of p' p] by (simp add: gone_def)
qed

lemma dequeuefront_being_dropped:
  assumes b: "being_dropped port msg q" and d: "dequeuefront ts q = Inr (p', q')"
  shows "gone port msg q' \<and> \<not> of_message port msg p' \<or>
     being_dropped port msg q' \<and> internal_queue q' \<noteq> [] \<and> (of_message port msg p' \<longrightarrow> is_drop p')"
proof -
  obtain ms rest where q: "internal_queue q = ms @ rest" and f: "dropping_front port msg ms rest"
    and inv: "bitrate_inv q" and mark: "msg_in_drop q port = msg" using b by (auto simp: being_dropped_def)
  show ?thesis
  proof (cases ms)
    case Nil
    then have "gone port msg q" using q f inv dropping_front_Nil by (simp add: gone_def)
    then show ?thesis using dequeuefront_gone [OF _ d] by blast
  next
    case (Cons m ms')
    have q': "internal_queue q = m # (ms' @ rest)" using q Cons by simp
    obtain s: "stamp p' = stamp m" and i: "internal_queue q' = ms' @ rest"
      using d by (rule dequeuefront_frame, use q' in simp)
    have f': "dropping_front port msg ms' rest" using f Cons by (simp add: dropping_front_Cons)
    have inv': "bitrate_inv q'" by (rule dequeuefront_inv [OF inv d])
    have "msg_in_drop q' port = msg \<and> (of_message port msg p' \<longrightarrow> is_drop p')"
    proof (cases "of_flow port m")
      case True
      then have m: "of_message port msg m" using f Cons by (simp add: dropping_front_def)
      have "queued_ends port msg (m # ms' @ rest) \<le> 1"
        using f Cons queued_ends_none [of rest port msg] by (simp add: dropping_front_def)
      then show ?thesis using dequeuefront_in_drop [OF inv q' m _ mark d] by simp
    next
      case False
      then show ?thesis using dequeuefront_other_flow [OF q' False d] mark of_message_flow of_message_stamp [OF s] by blast
    qed
    then show ?thesis using f' i inv' by (auto simp: being_dropped_def dropping_front_def)
  qed
qed

text \<open>The loop of \<open>dequeue\<close> does not stop at a packet of the message.\<close>

lemma bitrate_skip_dropped:
  "bitrate_skip clk p q = Inr (p', q') \<Longrightarrow>
     gone port msg q \<and> \<not> of_message port msg p \<or>
       being_dropped port msg q \<and> internal_queue q \<noteq> [] \<and> (of_message port msg p \<longrightarrow> is_drop p) \<Longrightarrow>
     \<not> of_message port msg p' \<and> (gone port msg q' \<or> being_dropped port msg q')"
proof (induction clk p q rule: bitrate_skip.induct)
  case (1 clk p q)
  show ?case
  proof (cases "p' = p \<and> q' = q \<and> \<not> of_message port msg p")
    case True
    with "1.prems" show ?thesis by blast
  next
    case False
    with "1.prems" obtain h p1 q1 where h: "mk_PacketHeader (contents p) = Inr h" "is_octopus h" "is_drop p"
        "internal_queue q \<noteq> []" and d: "dequeuefront (clk 0) q = Inr (p1, q1)"
      and r: "bitrate_skip (\<lambda>i. clk (Suc i)) p1 q1 = Inr (p', q')"
      by (subst (asm) bitrate_skip.simps) (auto simp: of_message_def split: if_splits)
    have "gone port msg q1 \<and> \<not> of_message port msg p1 \<or>
       being_dropped port msg q1 \<and> internal_queue q1 \<noteq> [] \<and> (of_message port msg p1 \<longrightarrow> is_drop p1)"
      using "1.prems"(2) dequeuefront_gone [OF _ d] dequeuefront_being_dropped [OF _ d] by blast
    then show ?thesis using "1.IH" [of h "(p1, q1)"] h d r by simp
  qed
qed

lemma same_core_dropped:
  "same_core q q' \<and> frame_counter q' = frame_counter q \<Longrightarrow> msg_in_drop q' = msg_in_drop q \<Longrightarrow>
     gone port msg q \<or> being_dropped port msg q \<Longrightarrow> gone port msg q' \<or> being_dropped port msg q'"
  using same_coreD [of q q'] by (auto simp: gone_def being_dropped_def bitrate_inv_def)

lemma bitrate_log_dequeue_drop: "bitrate_log_dequeue ts p q = Inr q' \<Longrightarrow> msg_in_drop q' = msg_in_drop q"
  by (auto simp: bitrate_log_dequeue_def log_print_def split: if_splits option.splits)

lemma bitrate_dequeue_after_front:
  assumes d: "bitrate_dequeue clk q = Inr (p', q')" and d1: "dequeuefront (clk 1) q = Inr (p1, q1)"
    and s: "gone port msg q1 \<and> \<not> of_message port msg p1 \<or>
       being_dropped port msg q1 \<and> internal_queue q1 \<noteq> [] \<and> (of_message port msg p1 \<longrightarrow> is_drop p1)"
  shows "\<not> of_message port msg p' \<and> (gone port msg q' \<or> being_dropped port msg q')"
proof -
  from d d1 obtain q2 where k: "bitrate_skip (\<lambda>i. clk (Suc (Suc i))) p1 q1 = Inr (p', q2)"
    and l: "bitrate_log_dequeue (clk 0) p' q2 = Inr q'"
    by (auto simp: bitrate_dequeue_def)
  show ?thesis
    using bitrate_skip_dropped [OF k s] same_core_dropped [OF bitrate_log_dequeue_core [OF l] bitrate_log_dequeue_drop [OF l]] by blast
qed

lemma bitrate_dequeue_dropped:
  assumes "gone port msg q \<or> being_dropped port msg q" and d: "bitrate_dequeue clk q = Inr (p', q')"
  shows "\<not> of_message port msg p' \<and> (gone port msg q' \<or> being_dropped port msg q')"
proof -
  from d obtain p1 q1 where d1: "dequeuefront (clk 1) q = Inr (p1, q1)" by (auto simp: bitrate_dequeue_def)
  from bitrate_dequeue_after_front [OF d d1] show ?thesis
    using assms(1) dequeuefront_gone [OF _ d1] dequeuefront_being_dropped [OF _ d1] by blast
qed

lemma bitrate_enqueue_drop:
  assumes "bitrate_enqueue ts p q = Inr q'"
  shows "msg_in_drop q' = msg_in_drop q"
proof -
  have u: "msg_in_drop y = msg_in_drop x" if "update_rate t n port x = Inr y" for t n port x y
    using that by (auto simp: update_rate_def Let_def split: if_splits)
  have l: "msg_in_drop y = msg_in_drop x" if "log_octopus f a x = Inr y" for f a x y
    using that by (auto simp: log_octopus_def log_print_def split: if_splits)
  have c: "msg_in_drop y = msg_in_drop x" if "count_frame_end h x = Inr y" for h x y
    using count_frame_end_frame [OF that] by auto
  have r: "msg_in_drop (register_dropper h x) = msg_in_drop x" for h x
    by (simp add: register_dropper_def Let_def)
  have a: "msg_in_drop (accept p q) = msg_in_drop q" by (simp add: accept_def)
  show ?thesis
    using assms a by (auto simp: bitrate_enqueue_def Let_def assert_good_def r dest!: u l c split: if_splits)
qed

lemma bitrate_enqueue_dropped:
  assumes s: "gone port msg q \<or> being_dropped port msg q" and fit: "fits p (internal_queue q)"
    and o: "\<not> of_message port msg p" and e: "bitrate_enqueue ts p q = Inr q'"
  shows "gone port msg q' \<or> being_dropped port msg q'"
proof -
  have inv: "bitrate_inv q" using s by (auto simp: gone_def being_dropped_def)
  note i = bitrate_enqueue_inv [OF inv fit e]
  show ?thesis
  proof (cases "gone port msg q")
    case True
    then show ?thesis using i o by (auto simp: gone_def)
  next
    case False
    then obtain ms rest where q: "internal_queue q = ms @ rest" "dropping_front port msg ms rest" "msg_in_drop q port = msg"
      using s by (auto simp: being_dropped_def)
    from i(2) obtain rest' where "internal_queue q' = ms @ rest'" and "dropping_front port msg ms rest'"
    proof
      assume "internal_queue q' = internal_queue q @ [p]"
      then show thesis using q o by (intro that [of "rest @ [p]"]) (auto simp: dropping_front_def)
    qed (use q that [of rest] in simp)
    then show ?thesis using i(1) q(3) bitrate_enqueue_drop [OF e] by (auto simp: being_dropped_def)
  qed
qed

lemma queue_run_dropped:
  "queue_run bitrate_ops cs q = Inr (out, q') \<Longrightarrow> gone port msg q \<or> being_dropped port msg q \<Longrightarrow>
     small (internal_queue q @ offered cs) \<Longrightarrow> \<forall>x \<in> set (offered cs). \<not> of_message port msg x \<Longrightarrow>
     \<forall>x \<in> set out. \<not> of_message port msg x"
proof (induction cs arbitrary: q out)
  case (Cons c cs)
  have inv: "bitrate_inv q" using Cons.prems(2) by (auto simp: gone_def being_dropped_def)
  show ?case
  proof (cases c)
    case (Enqueue_call e p)
    obtain q1 where q1: "bitrate_enqueue (clock e 0) p q = Inr q1" "queue_run bitrate_ops cs q1 = Inr (out, q')"
      using Cons.prems(1) Enqueue_call by (auto simp: bitrate_ops_def)
    have fit: "fits p (internal_queue q)" using Cons.prems(3) Enqueue_call by (simp add: fits_def small_def)
    have "small (internal_queue q1 @ offered cs)"
      using bitrate_enqueue_inv(2) [OF inv fit q1(1)] Cons.prems(3) Enqueue_call by (auto simp: small_def)
    then show ?thesis
      using Cons.IH [OF q1(2) bitrate_enqueue_dropped [OF Cons.prems(2) fit _ q1(1)]] Cons.prems(4) Enqueue_call by simp
  next
    case (Dequeue_call e)
    obtain p q1 out1 where q1: "bitrate_dequeue (clock e) q = Inr (p, q1)" "queue_run bitrate_ops cs q1 = Inr (out1, q')"
        "out = p # out1"
      using Cons.prems(1) Dequeue_call by (auto simp: bitrate_ops_def)
    note step = bitrate_dequeue_dropped [OF Cons.prems(2) q1(1)]
    have "served (internal_queue q1 @ offered cs) (internal_queue q @ offered cs)"
      using served_append [OF served_tail [OF bitrate_dequeue_inv(2) [OF inv q1(1)]] served_refl] by blast
    then have "small (internal_queue q1 @ offered cs)" using small_served Cons.prems(3) Dequeue_call by auto
    then show ?thesis using Cons.IH [OF q1(2)] step Cons.prems(4) Dequeue_call q1(3) by simp
  next
    case (Bandwidth_call b)
    have "frame_counter (set_bandwidth b q) = frame_counter q" "msg_in_drop (set_bandwidth b q) = msg_in_drop q"
      by (simp_all add: set_bandwidth_def)
    then have "gone port msg (set_bandwidth b q) \<or> being_dropped port msg (set_bandwidth b q)"
      using Cons.prems(2) by (auto simp: gone_def being_dropped_def bitrate_inv_def queue_simps)
    then show ?thesis
      using Cons.IH [of "set_bandwidth b q" out] Cons.prems Bandwidth_call by (simp add: bitrate_ops_def queue_simps)
  qed
qed simp


definition sample_octopus :: bitrate_queue where
  "sample_octopus =
     (let pkt = (\<lambda>pos msg br. mk_QueuedPacket (sample_packet 80 pos msg 0 br) 0);
          ps = [pkt 0x80 1 9, pkt 0 1 9, pkt 0x40 1 9, pkt 0xc0 2 0]
      in \<lparr>queue_size_in_bytes = 176, queue_size_in_packets = 4, internal_queue = ps, packet_limit = 10,
         byte_limit = 0, log_fd = None, bandwidth = Some 5,
         frame_counter = (\<lambda>port msg. counted (queued_ends port msg ps)), msg_in_drop = (\<lambda>_. 0),
         prio_to_droppers = Map.empty, enqueue_trace = (\<lambda>_. []), enqueue_rate = []\<rparr>)"

lemma sample_octopus_ready: "dequeue_ready sample_octopus"
proof -
  have "dq_inv sample_octopus" and "within_limits sample_octopus"
    by (simp_all add: sample_octopus_def dq_inv_def within_limits_def Let_def sample_packet_def mk_QueuedPacket_def)
  moreover have "frames_counted (internal_queue sample_octopus) (frame_counter sample_octopus)"
    by (simp add: sample_octopus_def frames_counted_def Let_def)
  moreover have "solo_alone (internal_queue sample_octopus)"
    by (simp add: sample_octopus_def Let_def solo_alone_def end_weight_def header_eval)
  moreover have "\<forall>p \<in> set (internal_queue sample_octopus). readable (contents p) \<and> \<not> is_drop p"
    by (simp add: sample_octopus_def Let_def sample_packet_def header_eval)
  ultimately show ?thesis by (simp add: dequeue_ready_def bitrate_inv_def) (simp add: sample_octopus_def Let_def)
qed

lemma sample_octopus_drops:
  "case dequeuefront 100 sample_octopus of Inl _ \<Rightarrow> False | Inr (p1, q1) \<Rightarrow> is_drop p1"
  by (simp add: dequeuefront_def sample_octopus_def Let_def header_eval own_rate_def fair_share_def uncount_def
      flow_fair_share_def log_print_def drop_decision_def frame_complete_def uncount_frame_end_def end_weight_def)

theorem dequeuefront_drop_reason_witness:
  "\<exists>p' q' h. dequeuefront 100 sample_octopus = Inr (p', q') \<and> mk_PacketHeader (contents p') = Inr h \<and>
     is_octopus h \<and> (frame_complete h sample_octopus \<longrightarrow> uint (slack_time h) \<le> sint (100 - arrival_time p'))"
proof -
  obtain p' q' where d: "dequeuefront 100 sample_octopus = Inr (p', q')" and p': "is_drop p'"
    using sample_octopus_drops by (auto split: sum.splits)
  have "\<not> is_drop (hd (internal_queue sample_octopus))"
    by (simp add: sample_octopus_def Let_def mk_QueuedPacket_def)
  from dequeuefront_drop_reason [OF d p' this] d show ?thesis by (auto split: if_splits)
qed

text \<open>A message of three packets with a packet of another flow between them and another message behind.\<close>

definition sample_interleaved :: bitrate_queue where
  "sample_interleaved =
     (let ps = [mk_QueuedPacket (sample_packet 80 0x80 1 0 9) 0, mk_QueuedPacket (sample_packet 81 0xc0 1 0 0) 0,
                mk_QueuedPacket (sample_packet 80 0x40 1 0 9) 0, mk_QueuedPacket (sample_packet 80 0xc0 2 0 0) 0]
      in sample_octopus\<lparr>internal_queue := ps, frame_counter := (\<lambda>port msg. counted (queued_ends port msg ps))\<rparr>)"

definition drop_env :: env where
  "drop_env = \<lparr>clock = (\<lambda>_. 100), meter_clock = (\<lambda>_. 100), uniform = 0\<rparr>"

lemma sample_interleaved_inv: "bitrate_inv sample_interleaved"
proof -
  have "limited_inv sample_interleaved"
    by (simp add: sample_interleaved_def sample_octopus_def dq_inv_def within_limits_def Let_def sample_packet_def mk_QueuedPacket_def)
  moreover have "frames_counted (internal_queue sample_interleaved) (frame_counter sample_interleaved)"
    by (simp add: sample_interleaved_def frames_counted_def Let_def)
  ultimately show ?thesis by (simp add: bitrate_inv_def)
qed

lemmas dequeue_eval = bitrate_ops_def bitrate_dequeue_def dequeuefront_def Let_def header_eval own_rate_def fair_share_def
  uncount_def flow_fair_share_def log_print_def drop_decision_def frame_complete_def uncount_frame_end_def end_weight_def
  bitrate_skip.simps bitrate_log_dequeue_def latest_dropper_def

lemma sample_interleaved_run:
  "\<exists>out q'. queue_run bitrate_ops [Dequeue_call drop_env, Dequeue_call drop_env] sample_interleaved = Inr (out, q') \<and> length out = 2"
  by (simp add: sample_interleaved_def sample_octopus_def drop_env_def dequeue_eval)


theorem bitrate_dequeue_returns_witness:
  "\<exists>p q'. bitrate_dequeue (\<lambda>_. 100) sample_octopus = Inr (p, q') \<and> (is_drop p \<longrightarrow> internal_queue q' = [])"
  by (rule bitrate_dequeue_returns [OF sample_octopus_ready]) (simp add: sample_octopus_def Let_def)

end
