(* ===== verification/Activenet_Queue.thy ===== *)
theory Activenet_Queue
  imports Basic_Queues
begin

text \<open>
  \<open>DropActiveNetQueue\<close>, src/src/packet/drop_activenet_queue.{hh,cc}: a limited queue that makes
  room for an important packet (priority 1) by removing the queued messages of lower importance
  that are older. Packets that are not UDP are accepted whatever the limits say. The removal
  writes to the log file without looking whether there is one.
\<close>

section \<open>Model\<close>

record activenet_queue = dropping_queue +
  an_msg_in_drop :: u32

definition mk_activenet_queue :: "(string \<Rightarrow> bool) \<Rightarrow> string \<Rightarrow> activenet_queue res" where
  "mk_activenet_queue fopen_ok args =
     res_bind (mk_dropping_queue fopen_ok args) (\<lambda>base.
       Inr (dropping_queue.extend base (activenet_queue.fields (- 1))))"

text \<open>
  \<open>dropStaleFrames\<close>: \<open>stale_start\<close> is the test that begins the removal of a message,
  \<open>drop_stale\<close> the loop over the deque (the packets that stay, the queue object, and
  \<open>pkts_dropped\<close>).
\<close>

definition stale_start :: "u32 \<Rightarrow> u32 \<Rightarrow> PacketHeader \<Rightarrow> bool" where
  "stale_start to_drop dropper_msg h \<longleftrightarrow>
     (to_drop \<le> priority h \<and> sint (msg_no h) < sint dropper_msg) \<and> (pkt_pos h = FIRST \<or> pkt_pos h = SOLO)"

fun drop_stale :: "u64 \<Rightarrow> u32 \<Rightarrow> u32 \<Rightarrow> QueuedPacket list \<Rightarrow> activenet_queue \<Rightarrow>
    (QueuedPacket list \<times> activenet_queue \<times> nat) res" where
  "drop_stale ts to_drop dropper_msg [] q = Inr ([], q, 0)"
| "drop_stale ts to_drop dropper_msg (it # its) q =
     res_bind (mk_PacketHeader (contents it)) (\<lambda>h.
       if stale_start to_drop dropper_msg h
       then if log_fd q = None then Inl Undefined_behaviour
            else
              let q1 = log_print ''sema-drop'' [uint ts, uint (seq h), sint (msg_no h), uint (priority h)]
                         (uncount it (q\<lparr>an_msg_in_drop := msg_no h\<rparr>))
              in res_bind (drop_stale ts to_drop dropper_msg its q1) (\<lambda>(kept, q2, n). Inr (kept, q2, n + 1))
       else if an_msg_in_drop q = msg_no h
       then res_bind (drop_stale ts to_drop dropper_msg its (uncount it q)) (\<lambda>(kept, q2, n). Inr (kept, q2, n + 1))
       else res_bind (drop_stale ts to_drop dropper_msg its q) (\<lambda>(kept, q2, n). Inr (it # kept, q2, n)))"

definition dropStaleFrames :: "u64 \<Rightarrow> u32 \<Rightarrow> u32 \<Rightarrow> activenet_queue \<Rightarrow> (nat \<times> activenet_queue) res" where
  "dropStaleFrames ts to_drop dropper_msg q =
     res_bind (drop_stale ts to_drop dropper_msg (internal_queue q) q) (\<lambda>(kept, q', n).
       Inr (n, q'\<lparr>internal_queue := kept\<rparr>))"

text \<open>\<open>enqueue\<close>. The clock is read inside \<open>dropStaleFrames\<close> first.\<close>

definition activenet_log :: "string \<Rightarrow> u64 \<Rightarrow> QueuedPacket \<Rightarrow> PacketHeader \<Rightarrow> activenet_queue \<Rightarrow> activenet_queue res" where
  "activenet_log event ts p h q =
     (if log_fd q = None then Inr q
      else res_bind (size_packets q) (\<lambda>n.
        Inr (log_print event [sint ts, int (pkt_bytes p), uint n, uint (seq h), sint (msg_no h)] q)))"

definition activenet_enqueue :: "(nat \<Rightarrow> u64) \<Rightarrow> QueuedPacket \<Rightarrow> activenet_queue \<Rightarrow> activenet_queue res" where
  "activenet_enqueue clk p q =
     res_bind (mk_PacketHeader (contents p)) (\<lambda>h.
       if \<not> is_udp h then Inr (accept p q)
       else
         res_bind (has_room p q) (\<lambda>room.
         res_bind (if \<not> room \<and> priority h = 1
                   then res_bind (dropStaleFrames (clk 0) 2 (msg_no h) q) (\<lambda>(n, q1). Inr q1)
                   else Inr q) (\<lambda>q1.
         res_bind (has_room p q1) (\<lambda>room'.
           if room' then activenet_log ''enqueue, UDP'' (clk 1) p h (accept p q1)
           else activenet_log ''drop_tail, UDP'' (clk 1) p h q1))))"

definition activenet_dequeue :: "u64 \<Rightarrow> activenet_queue \<Rightarrow> (QueuedPacket \<times> activenet_queue) res" where
  "activenet_dequeue ts q =
     (case internal_queue q of
        [] \<Rightarrow> Inl Assertion_failed
      | ret # rest \<Rightarrow>
          res_bind (mk_PacketHeader (contents ret)) (\<lambda>h.
          let q1 = q\<lparr>internal_queue := rest\<rparr> in
          res_bind (if log_fd q1 \<noteq> None \<and> is_udp h
                    then res_bind (size_packets q1) (\<lambda>n.
                      Inr (log_print ''dequeue, UDP''
                        [uint ts, int (pkt_bytes ret), uint n, sint (ts - arrival_time ret), uint (seq h),
                         uint (msg_no h), uint (wildcard h)] q1))
                    else Inr q1) (\<lambda>q2.
          let q3 = uncount ret q2 in assert_good q3 (Inr (ret, q3)))))"

definition activenet_ops :: "activenet_queue queue_ops" where
  "activenet_ops =
     \<lparr>op_enqueue = (\<lambda>e. activenet_enqueue (clock e)), op_dequeue = (\<lambda>e. activenet_dequeue (clock e 0)),
      op_empty = queue_empty, op_to_string = dropping_to_string ''dropactivenet'',
      op_size_bytes = size_bytes, op_size_packets = size_packets, op_set_bandwidth = set_bandwidth\<rparr>"

section \<open>Removing stale messages\<close>

text \<open>The counters while the loop runs: they count \<open>its\<close>, still to be looked at, and \<open>more\<close>.\<close>

definition counts :: "nat \<Rightarrow> nat \<Rightarrow> activenet_queue \<Rightarrow> bool" where
  "counts b n q \<longleftrightarrow> queue_size_in_bytes q = of_nat b \<and> queue_size_in_packets q = of_nat n"

lemma counts_uncount:
  "counts (b + pkt_bytes p) (Suc n) q \<Longrightarrow> counts b n (uncount p q)"
  by (simp add: counts_def uncount_def)

lemma counts_frame [simp]:
  "counts b n (log_print f a q) = counts b n q"
  "counts b n (q\<lparr>an_msg_in_drop := m\<rparr>) = counts b n q"
  by (simp_all add: counts_def log_print_def)

lemma uncount_limits [simp]:
  "byte_limit (uncount p q) = byte_limit q" "packet_limit (uncount p q) = packet_limit q"
  "bandwidth (uncount p q) = bandwidth q" "log_fd (uncount p q) = log_fd q"
  by (simp_all add: uncount_def)

lemma log_print_limits [simp]:
  "byte_limit (log_print f a q) = byte_limit q" "packet_limit (log_print f a q) = packet_limit q"
  "bandwidth (log_print f a q) = bandwidth q" "log_fd (log_print f a q) = None \<longleftrightarrow> log_fd q = None"
  by (simp_all add: log_print_def)

text \<open>
  All that the loop does to the queue: what it keeps is a subsequence, the counters follow, the
  limits are untouched, it counts what it drops, and no packet that begins a stale message is
  kept.
\<close>

lemma drop_stale_Inr:
  "drop_stale ts to_drop dropper its q = Inr (kept, q', n) \<Longrightarrow>
     counts (total_bytes its + b) (length its + m) q \<Longrightarrow>
     subseq kept its \<and> counts (total_bytes kept + b) (length kept + m) q' \<and>
     byte_limit q' = byte_limit q \<and> packet_limit q' = packet_limit q \<and> length its = length kept + n \<and>
     (\<forall>p \<in> set kept. \<forall>h. mk_PacketHeader (contents p) = Inr h \<longrightarrow> \<not> stale_start to_drop dropper h)"
proof (induction its arbitrary: q kept n b m)
  case Nil
  then show ?case by simp
next
  case (Cons it its)
  obtain h where h: "mk_PacketHeader (contents it) = Inr h"
    using Cons.prems(1) by auto
  have drop: "counts (total_bytes its + b) (length its + m) (uncount it r)"
    if "counts (total_bytes (it # its) + b) (length (it # its) + m) r" for r
    using that by (intro counts_uncount) (simp add: ac_simps)
  consider (stale) "stale_start to_drop dropper h" | (rest) "\<not> stale_start to_drop dropper h" "an_msg_in_drop q = msg_no h"
    | (keep) "\<not> stale_start to_drop dropper h" "an_msg_in_drop q \<noteq> msg_no h" by blast
  then show ?case
  proof cases
    case stale
    let ?q = "log_print ''sema-drop'' [uint ts, uint (seq h), sint (msg_no h), uint (priority h)]
                (uncount it (q\<lparr>an_msg_in_drop := msg_no h\<rparr>))"
    obtain k where r: "drop_stale ts to_drop dropper its ?q = Inr (kept, q', k)" and n: "n = k + 1"
      using Cons.prems(1) h stale by (auto simp: Let_def split: if_splits)
    show ?thesis
      using Cons.IH [OF r, of b m] drop [of "q\<lparr>an_msg_in_drop := msg_no h\<rparr>"] Cons.prems(2) n by auto
  next
    case rest
    obtain k where r: "drop_stale ts to_drop dropper its (uncount it q) = Inr (kept, q', k)" and n: "n = k + 1"
      using Cons.prems(1) h rest by auto
    show ?thesis
      using Cons.IH [OF r, of b m] drop [OF Cons.prems(2)] n by auto
  next
    case keep
    obtain k where r: "drop_stale ts to_drop dropper its q = Inr (k, q', n)" and kept: "kept = it # k"
      using Cons.prems(1) h keep by auto
    have "counts (total_bytes its + (b + pkt_bytes it)) (length its + (m + 1)) q"
      using Cons.prems(2) by (simp add: ac_simps)
    from Cons.IH [OF r this] kept h keep show ?thesis by (auto simp: ac_simps)
  qed
qed

lemma dropStaleFrames_Inr:
  assumes "dq_inv q" and "dropStaleFrames ts to_drop dropper q = Inr (n, q')"
  shows "dq_inv q'" and "subseq (internal_queue q') (internal_queue q)"
    and "length (internal_queue q) = length (internal_queue q') + n"
    and "byte_limit q' = byte_limit q" and "packet_limit q' = packet_limit q"
    and "p \<in> set (internal_queue q') \<Longrightarrow> mk_PacketHeader (contents p) = Inr h \<Longrightarrow> \<not> stale_start to_drop dropper h"
proof -
  obtain kept q1 where d: "drop_stale ts to_drop dropper (internal_queue q) q = Inr (kept, q1, n)"
    and q': "q' = q1\<lparr>internal_queue := kept\<rparr>"
    using assms(2) by (auto simp: dropStaleFrames_def)
  have "counts (total_bytes (internal_queue q) + 0) (length (internal_queue q) + 0) q"
    using assms(1) by (simp add: dq_inv_def counts_def)
  note * = drop_stale_Inr [OF d this]
  then have sub: "subseq kept (internal_queue q)" by simp
  then have "total_bytes kept \<le> total_bytes (internal_queue q)" and "length kept \<le> length (internal_queue q)"
    by (simp_all add: subseq_sum_list_le total_bytes_def list_emb_length)
  with * assms(1) show "dq_inv q'" by (auto simp: q' dq_inv_def counts_def)
  show "subseq (internal_queue q') (internal_queue q)"
    and "length (internal_queue q) = length (internal_queue q') + n"
    and "byte_limit q' = byte_limit q" and "packet_limit q' = packet_limit q"
    and "p \<in> set (internal_queue q') \<Longrightarrow> mk_PacketHeader (contents p) = Inr h \<Longrightarrow> \<not> stale_start to_drop dropper h"
    using * by (auto simp: q')
qed

text \<open>With a log file and readable packets the removal returns.\<close>

lemma drop_stale_returns:
  "\<forall>p \<in> set its. readable (contents p) \<Longrightarrow> log_fd q \<noteq> None \<Longrightarrow> \<exists>r. drop_stale ts to_drop dropper its q = Inr r"
proof (induction its arbitrary: q)
  case Nil
  then show ?case by simp
next
  case (Cons it its)
  obtain h where h: "mk_PacketHeader (contents it) = Inr h"
    using Cons.prems(1) mk_PacketHeader_readable by auto
  have step: "\<exists>k q1 n. drop_stale ts to_drop dropper its r = Inr (k, q1, n)" if "log_fd r \<noteq> None" for r
    using Cons.IH [OF _ that] Cons.prems(1) by auto
  show ?case
    using step [of q] step [of "uncount it q"] Cons.prems(2)
      step [of "log_print ''sema-drop'' [uint ts, uint (seq h), sint (msg_no h), uint (priority h)]
                  (uncount it (q\<lparr>an_msg_in_drop := msg_no h\<rparr>))"]
    by (cases "stale_start to_drop dropper h"; cases "an_msg_in_drop q = msg_no h") (auto simp: h Let_def)
qed

section \<open>Enqueueing and dequeueing\<close>

lemma activenet_log_frame: "activenet_log ev ts p h q = Inr q' \<Longrightarrow> \<exists>l. q' = q\<lparr>log_fd := l\<rparr>"
  by (cases q) (auto simp: activenet_log_def log_print_def split: if_splits)

lemma subseq_served: "subseq xs ys \<Longrightarrow> served xs ys"
  unfolding served_def by (rule subseq_map)

text \<open>A UDP packet is accepted by, or leaves unchanged, the queue after the removal of stale messages.\<close>

lemma activenet_enqueue_udp:
  assumes inv: "dq_inv q" and fit: "fits p (internal_queue q)" and enq: "activenet_enqueue clk p q = Inr q'"
    and h: "mk_PacketHeader (contents p) = Inr h" and udp: "is_udp h"
  obtains q1 l where "dq_inv q1" and "fits p (internal_queue q1)" and "subseq (internal_queue q1) (internal_queue q)"
    and "byte_limit q1 = byte_limit q" and "packet_limit q1 = packet_limit q"
    and "q' = (if within_limits (accept p q1) then accept p q1 else q1)\<lparr>log_fd := l\<rparr>"
    and "if \<not> within_limits (accept p q) \<and> priority h = 1
         then (\<exists>n. dropStaleFrames (clk 0) 2 (msg_no h) q = Inr (n, q1)) else q1 = q"
proof -
  let ?first = "if \<not> within_limits (accept p q) \<and> priority h = 1
      then res_bind (dropStaleFrames (clk 0) 2 (msg_no h) q) (\<lambda>(n, q1). Inr q1) else Inr q"
  let ?tail = "\<lambda>q1. res_bind (has_room p q1) (\<lambda>room'.
      if room' then activenet_log ''enqueue, UDP'' (clk 1) p h (accept p q1)
      else activenet_log ''drop_tail, UDP'' (clk 1) p h q1)"
  have "res_bind ?first ?tail = Inr q'"
    using enq by (simp add: activenet_enqueue_def h udp has_room_inv [OF inv fit] del: res_bind_Inr_iff)
  then obtain q1 where st: "?first = Inr q1" and rest: "?tail q1 = Inr q'"
    unfolding res_bind_Inr_iff by blast
  from st have q1: "if \<not> within_limits (accept p q) \<and> priority h = 1
      then (\<exists>n. dropStaleFrames (clk 0) 2 (msg_no h) q = Inr (n, q1)) else q1 = q"
    by (auto split: if_splits)
  have core: "dq_inv q1 \<and> subseq (internal_queue q1) (internal_queue q) \<and>
      byte_limit q1 = byte_limit q \<and> packet_limit q1 = packet_limit q"
  proof (cases "\<not> within_limits (accept p q) \<and> priority h = 1")
    case True
    with q1 obtain n where "dropStaleFrames (clk 0) 2 (msg_no h) q = Inr (n, q1)" by auto
    from dropStaleFrames_Inr [OF inv this] show ?thesis by simp
  next
    case False
    with q1 have "q1 = q" by (simp split: if_splits)
    with inv show ?thesis by simp
  qed
  then have fit1: "fits p (internal_queue q1)"
    using fit served_length [OF subseq_served] served_total_bytes [OF subseq_served]
    unfolding fits_def by (meson add_le_mono1 le_less_trans)
  have "\<exists>l. q' = (if within_limits (accept p q1) then accept p q1 else q1)\<lparr>log_fd := l\<rparr>"
    using rest core activenet_log_frame by (auto simp: has_room_inv fit1 split: if_splits)
  then show thesis using core fit1 q1 that by blast
qed

lemma activenet_enqueue_inv:
  assumes inv: "dq_inv q" and fit: "fits p (internal_queue q)" and enq: "activenet_enqueue clk p q = Inr q'"
  shows "dq_inv q' \<and> served (internal_queue q') (internal_queue q @ [p])"
proof -
  obtain h where h: "mk_PacketHeader (contents p) = Inr h"
    using enq by (auto simp: activenet_enqueue_def)
  show ?thesis
  proof (cases "is_udp h")
    case False
    with enq have "q' = accept p q" by (simp add: activenet_enqueue_def h)
    then show ?thesis using accept_inv [OF inv fit] by simp
  next
    case True
    obtain q1 l where q1: "dq_inv q1" "fits p (internal_queue q1)" "subseq (internal_queue q1) (internal_queue q)"
      and q': "q' = (if within_limits (accept p q1) then accept p q1 else q1)\<lparr>log_fd := l\<rparr>"
      using activenet_enqueue_udp [OF inv fit enq h True] by metis
    have a: "served (internal_queue q1 @ [p]) (internal_queue q @ [p])"
      using subseq_served [OF q1(3)] by (rule served_append) simp
    have b: "served (internal_queue q1) (internal_queue q @ [p])"
      using served_trans [OF served_snoc_skip a] .
    show ?thesis using accept_inv [OF q1(1,2)] q1(1) a b by (simp add: q')
  qed
qed

text \<open>
  \<open>dequeue\<close> hands out the front packet; it aborts exactly when the rest does not meet the limits.
\<close>

lemma activenet_dequeue_outcome:
  assumes inv: "dq_inv q" and ne: "internal_queue q \<noteq> []" and "readable (contents (hd (internal_queue q)))"
  shows "\<exists>l. activenet_dequeue ts q =
           (if within_limits (without_front q)
            then Inr (hd (internal_queue q), (without_front q)\<lparr>log_fd := l\<rparr>) else Inl Assertion_failed)"
proof -
  obtain p rest where q: "internal_queue q = p # rest" using ne by (cases "internal_queue q") auto
  obtain h where h: "mk_PacketHeader (contents p) = Inr h"
    using assms(3) mk_PacketHeader_readable q by auto
  have sz: "size_packets (q\<lparr>internal_queue := rest\<rparr>) = Inr (of_nat (length (internal_queue q)))"
    using inv by (simp add: dq_inv_def size_packets_def sint_of_nat_u32)
  have good: "assert_good ((uncount p (q\<lparr>internal_queue := rest\<rparr>))\<lparr>log_fd := l\<rparr>) k =
      (if within_limits (uncount p (q\<lparr>internal_queue := rest\<rparr>)) then k else Inl Assertion_failed)" for l and k :: "(QueuedPacket \<times> activenet_queue) res"
    using pop_inv [OF inv q] by (simp add: assert_good_inv)
  have u: "uncount p (q\<lparr>internal_queue := rest, log_fd := l\<rparr>) = (uncount p (q\<lparr>internal_queue := rest\<rparr>))\<lparr>log_fd := l\<rparr>" for l
    by (simp add: uncount_def)
  have self: "uncount p (q\<lparr>internal_queue := rest\<rparr>) = (uncount p (q\<lparr>internal_queue := rest\<rparr>))\<lparr>log_fd := log_fd q\<rparr>"
    by (simp add: uncount_def)
  show ?thesis
  proof (cases "log_fd q \<noteq> None \<and> is_udp h")
    case True
    then show ?thesis by (auto simp: activenet_dequeue_def q h sz Let_def log_print_def u good)
  next
    case False
    then have "activenet_dequeue ts q = assert_good (uncount p (q\<lparr>internal_queue := rest\<rparr>))
        (Inr (p, uncount p (q\<lparr>internal_queue := rest\<rparr>)))"
      by (auto simp: activenet_dequeue_def q h Let_def)
    then show ?thesis
      using good [of "log_fd q"] by (intro exI [of _ "log_fd q"]) (simp add: q self [symmetric])
  qed
qed

lemma activenet_dequeue_readable:
  "activenet_dequeue ts q = Inr r \<Longrightarrow> internal_queue q \<noteq> [] \<and> readable (contents (hd (internal_queue q)))"
  by (cases "internal_queue q") (auto simp: activenet_dequeue_def dest: mk_PacketHeader_readableE)

lemma activenet_dequeue_inv:
  assumes inv: "dq_inv q" and d: "activenet_dequeue ts q = Inr (p, q')"
  shows "dq_inv q' \<and> internal_queue q = p # internal_queue q'"
proof -
  have ne: "internal_queue q \<noteq> []" and r: "readable (contents (hd (internal_queue q)))"
    using activenet_dequeue_readable [OF d] by simp_all
  obtain l where "p = hd (internal_queue q)" and q': "q' = (without_front q)\<lparr>log_fd := l\<rparr>"
    using activenet_dequeue_outcome [OF inv ne r, of ts] d by (auto split: if_splits)
  moreover have "dq_inv (without_front q)" using pop_inv [OF inv] ne by simp
  ultimately show ?thesis using ne by (simp add: uncount_def)
qed

interpretation activenet: packet_queue activenet_ops internal_queue dq_inv
proof (unfold_locales, goal_cases)
  case (4 q) then show ?case by (rule dq_inv_bounds)
next
  case (5 q p e q') then show ?case
    using activenet_enqueue_inv by (simp add: activenet_ops_def)
next
  case (6 q p e q') then show ?case
    using activenet_enqueue_inv by (simp add: activenet_ops_def)
next
  case (7 q e p q') then show ?case
    using activenet_dequeue_inv by (simp add: activenet_ops_def)
next
  case (8 q e p q') then show ?case
    using activenet_dequeue_inv [of q "clock e 0" p q'] by (simp add: activenet_ops_def)
qed (simp_all add: activenet_ops_def queue_empty_def queue_simps dq_inv_bounds)

section \<open>Properties\<close>

text \<open>
  C26: When a priority-1 UDP packet finds no room and the enqueue returns, no queued packet is left
  that begins an older message of priority 2 or higher; the counters are right, nothing is
  reordered, and if the limits were met before they still are.
\<close>

theorem activenet_enqueue_makes_room:
  assumes inv: "dq_inv q" and lim: "within_limits q" and fit: "fits p (internal_queue q)"
    and enq: "activenet_enqueue clk p q = Inr q'" and h: "mk_PacketHeader (contents p) = Inr h"
    and udp: "is_udp h" and prio: "priority h = 1" and full: "\<not> within_limits (accept p q)"
  shows "dq_inv q' \<and> within_limits q' \<and> served (internal_queue q') (internal_queue q @ [p]) \<and>
    (\<forall>x \<in> set (internal_queue q'). \<forall>k. mk_PacketHeader (contents x) = Inr k \<longrightarrow> \<not> stale_start 2 (msg_no h) k)"
proof -
  obtain q1 l where q1: "dq_inv q1" "byte_limit q1 = byte_limit q" "packet_limit q1 = packet_limit q"
      "subseq (internal_queue q1) (internal_queue q)"
    and q': "q' = (if within_limits (accept p q1) then accept p q1 else q1)\<lparr>log_fd := l\<rparr>"
    and st: "if \<not> within_limits (accept p q) \<and> priority h = 1
         then (\<exists>n. dropStaleFrames (clk 0) 2 (msg_no h) q = Inr (n, q1)) else q1 = q"
    using activenet_enqueue_udp [OF inv fit enq h udp] by blast
  from st prio full obtain n where d: "dropStaleFrames (clk 0) 2 (msg_no h) q = Inr (n, q1)" by auto
  have "within_limits q1"
    using lim q1(2,3) served_length [OF subseq_served [OF q1(4)]] served_total_bytes [OF subseq_served [OF q1(4)]]
    by (auto simp: within_limits_def)
  then have "within_limits q'" by (simp add: q')
  moreover have "\<not> stale_start 2 (msg_no h) h" by (simp add: stale_start_def prio)
  then have "\<forall>x \<in> set (internal_queue q'). \<forall>k. mk_PacketHeader (contents x) = Inr k \<longrightarrow> \<not> stale_start 2 (msg_no h) k"
    using dropStaleFrames_Inr(6) [OF inv d] h by (auto simp: q' split: if_splits)
  ultimately show ?thesis using activenet_enqueue_inv [OF inv fit enq] by blast
qed

definition sample_full :: activenet_queue where
  "sample_full =
     \<lparr>queue_size_in_bytes = 44, queue_size_in_packets = 1,
      internal_queue = [mk_QueuedPacket (sample_packet 80 0xc0 1 0x40 0) 0], packet_limit = 1, byte_limit = 0,
      log_fd = Some [], bandwidth = None, an_msg_in_drop = - 1\<rparr>"

theorem activenet_enqueue_makes_room_witness:
  "\<exists>q'. activenet_enqueue (\<lambda>_. 5) (mk_QueuedPacket (sample_packet 80 0xc0 2 0x20 0) 5) sample_full = Inr q' \<and>
     dq_inv q' \<and> within_limits q' \<and> length (internal_queue q') \<le> 2"
proof -
  let ?p = "mk_QueuedPacket (sample_packet 80 0xc0 2 0x20 0) 5"
  have "\<not> isl (activenet_enqueue (\<lambda>_. 5) ?p sample_full)" by code_simp
  then obtain q' where enq: "activenet_enqueue (\<lambda>_. 5) ?p sample_full = Inr q'"
    by (cases "activenet_enqueue (\<lambda>_. 5) ?p sample_full") auto
  have inv: "dq_inv sample_full" "within_limits sample_full" "fits ?p (internal_queue sample_full)"
      "\<not> within_limits (accept ?p sample_full)"
    by (simp_all add: sample_full_def dq_inv_def within_limits_def fits_def accept_def mk_QueuedPacket_def sample_packet_def)
  obtain h where h: "mk_PacketHeader (contents ?p) = Inr h" "is_udp h" "priority h = 1"
    by (simp add: header_eval)
  have "dq_inv q' \<and> within_limits q' \<and> served (internal_queue q') (internal_queue sample_full @ [?p])"
    using activenet_enqueue_makes_room [OF inv(1-3) enq h inv(4)] by blast
  then show ?thesis using enq served_length [of "internal_queue q'" "internal_queue sample_full @ [?p]"]
    by (auto simp: sample_full_def)
qed

section \<open>Packets that are not UDP\<close>

definition not_udp :: "QueuedPacket \<Rightarrow> bool" where
  "not_udp p \<longleftrightarrow> (case mk_PacketHeader (contents p) of Inl _ \<Rightarrow> False | Inr h \<Rightarrow> \<not> is_udp h)"

definition over_limits :: "activenet_queue \<Rightarrow> QueuedPacket list \<Rightarrow> bool" where
  "over_limits q ps \<longleftrightarrow>
     byte_limit q \<noteq> 0 \<and> unat (byte_limit q) < total_bytes ps \<or> packet_limit q \<noteq> 0 \<and> unat (packet_limit q) < length ps"

lemma activenet_enqueue_not_udp: "not_udp p \<Longrightarrow> activenet_enqueue clk p q = Inr (accept p q)"
  by (auto simp: not_udp_def activenet_enqueue_def split: sum.splits)

lemma not_udp_readable: "not_udp p \<Longrightarrow> readable (contents p)"
  by (auto simp: not_udp_def dest: mk_PacketHeader_readableE split: sum.splits)

lemma enqueue_all_not_udp:
  "\<forall>p \<in> set ps. not_udp p \<Longrightarrow> dq_inv q \<Longrightarrow> small (internal_queue q @ ps) \<Longrightarrow>
     \<exists>q'. queue_run activenet_ops (map (Enqueue_call e) ps) q = Inr ([], q') \<and> dq_inv q' \<and>
       internal_queue q' = internal_queue q @ ps \<and> byte_limit q' = byte_limit q \<and> packet_limit q' = packet_limit q"
proof (induction ps arbitrary: q)
  case (Cons p ps)
  have "fits p (internal_queue q)" using Cons.prems(3) by (simp add: fits_def small_def)
  then have "dq_inv (accept p q)" using accept_inv [OF Cons.prems(2)] by simp
  moreover have "internal_queue (accept p q) = internal_queue q @ [p]" "byte_limit (accept p q) = byte_limit q"
      "packet_limit (accept p q) = packet_limit q" by (simp_all add: accept_def)
  ultimately show ?case
    using Cons.IH [of "accept p q"] Cons.prems(1,3) by (simp add: activenet_ops_def activenet_enqueue_not_udp)
qed simp

text \<open>
  C27: Packets that are not UDP are accepted whatever the limits say: any sequence of them is appended to
  any queue as a whole. The \<open>dequeue\<close> that follows aborts on its assertion exactly when what it
  leaves exceeds a limit of the queue, so enough of these packets make the program abort. (The counters have room for the
  packets, and the packet at the front has a readable header.)
\<close>

theorem activenet_tcp_overflow:
  assumes "dq_inv q" and "\<forall>p \<in> set ps. not_udp p" and "small (internal_queue q @ ps)"
    and "internal_queue q @ ps \<noteq> []" and "readable (contents (hd (internal_queue q @ ps)))"
  shows "\<exists>q'. queue_run activenet_ops (map (Enqueue_call e) ps) q = Inr ([], q') \<and> internal_queue q' = internal_queue q @ ps \<and>
     (activenet_dequeue ts q' = Inl Assertion_failed \<longleftrightarrow> over_limits q (tl (internal_queue q @ ps)))"
proof -
  obtain q' where q': "queue_run activenet_ops (map (Enqueue_call e) ps) q = Inr ([], q')" "dq_inv q'"
      "internal_queue q' = internal_queue q @ ps" "byte_limit q' = byte_limit q" "packet_limit q' = packet_limit q"
    using enqueue_all_not_udp [OF assms(2,1,3)] by blast
  have "within_limits (without_front q') \<longleftrightarrow> \<not> over_limits q (tl (internal_queue q @ ps))"
    using q'(3-5) by (auto simp: within_limits_def over_limits_def uncount_def)
  then show ?thesis
    using activenet_dequeue_outcome [OF q'(2), of ts] q'(1,3) assms(4,5) by (auto split: if_splits)
qed

definition sample_tcp :: QueuedPacket where
  "sample_tcp = mk_QueuedPacket (replicate 43 0) 0"

definition sample_limited :: activenet_queue where
  "sample_limited = \<lparr>queue_size_in_bytes = 0, queue_size_in_packets = 0, internal_queue = [], packet_limit = 1, byte_limit = 0,
     log_fd = None, bandwidth = None, an_msg_in_drop = - 1\<rparr>"

lemma sample_tcp_not_udp: "not_udp sample_tcp"
  by code_simp

theorem activenet_tcp_overflow_witness:
  "\<exists>q'. queue_run activenet_ops (map (Enqueue_call \<lparr>clock = (\<lambda>_. 0), meter_clock = (\<lambda>_. 0), uniform = 0\<rparr>) (replicate 3 sample_tcp))
       sample_limited = Inr ([], q') \<and> activenet_dequeue 0 q' = Inl Assertion_failed"
proof -
  have "dq_inv sample_limited" "small (internal_queue sample_limited @ replicate 3 sample_tcp)"
    by (simp_all add: sample_limited_def dq_inv_def small_def sample_tcp_def mk_QueuedPacket_def numeral_3_eq_3)
  moreover have "over_limits sample_limited (tl (internal_queue sample_limited @ replicate 3 sample_tcp))"
    by (simp add: sample_limited_def over_limits_def numeral_3_eq_3)
  moreover have "internal_queue sample_limited = []" by (simp add: sample_limited_def)
  ultimately show ?thesis
    using activenet_tcp_overflow [of sample_limited "replicate 3 sample_tcp" "\<lparr>clock = (\<lambda>_. 0), meter_clock = (\<lambda>_. 0), uniform = 0\<rparr>" 0]
      sample_tcp_not_udp not_udp_readable [OF sample_tcp_not_udp] by (auto simp: numeral_3_eq_3)
qed

end
