(* ===== verification/Queue_Factory.thy ===== *)
theory Queue_Factory
  imports Codel_Queue Pie_Queue Bitrate_Queue Activenet_Queue
begin

text \<open>
  The queue a link uses, chosen by name: \<open>get_packet_queue\<close> of src/src/frontend/linkshell.cc,
  which returns a pointer to \<open>AbstractPacketQueue\<close>. \<open>any_queue\<close> is the object behind that
  pointer, one constructor per class, and \<open>any_ops\<close> the dynamic dispatch of its virtual
  functions. The dispatched object meets the contract \<open>packet_queue\<close> whatever its class is, so a
  client that is correct over the contract is correct over every queue the program can build.
\<close>

section \<open>Model\<close>

datatype any_queue =
    Infinite infinite_queue
  | DropTail dropping_queue
  | DropHead dropping_queue
  | Codel codel_queue
  | Pie pie_queue
  | BitrateDequeue bitrate_queue
  | ActiveNet activenet_queue

definition lift_queue :: "('q \<Rightarrow> any_queue) \<Rightarrow> 'q res \<Rightarrow> any_queue res" where
  "lift_queue C r = res_bind r (\<lambda>q. Inr (C q))"

definition lift_pair :: "('q \<Rightarrow> any_queue) \<Rightarrow> (QueuedPacket \<times> 'q) res \<Rightarrow> (QueuedPacket \<times> any_queue) res" where
  "lift_pair C r = res_bind r (\<lambda>(p, q). Inr (p, C q))"

text \<open>\<open>get_packet_queue\<close>; an unknown name ends in \<open>usage_error\<close>, which throws.\<close>

definition get_packet_queue :: "(string \<Rightarrow> bool) \<Rightarrow> u64 \<Rightarrow> string \<Rightarrow> string \<Rightarrow> any_queue res" where
  "get_packet_queue fopen_ok now type args =
     (if type = ''infinite'' then lift_queue Infinite (mk_infinite_queue args)
      else if type = ''droptail'' then lift_queue DropTail (mk_dropping_queue fopen_ok args)
      else if type = ''drophead'' then lift_queue DropHead (mk_dropping_queue fopen_ok args)
      else if type = ''codel'' then lift_queue Codel (mk_codel_queue fopen_ok args)
      else if type = ''pie'' then lift_queue Pie (mk_pie_queue fopen_ok now args)
      else if type = ''dropbitrate_dequeue'' then lift_queue BitrateDequeue (mk_bitrate_queue fopen_ok args)
      else if type = ''dropactivenet'' then lift_queue ActiveNet (mk_activenet_queue fopen_ok args)
      else Inl (Runtime_error ''invalid arguments''))"

fun any_enqueue :: "env \<Rightarrow> QueuedPacket \<Rightarrow> any_queue \<Rightarrow> any_queue res" where
  "any_enqueue e p (Infinite q) = lift_queue Infinite (op_enqueue infinite_ops e p q)"
| "any_enqueue e p (DropTail q) = lift_queue DropTail (op_enqueue droptail_ops e p q)"
| "any_enqueue e p (DropHead q) = lift_queue DropHead (op_enqueue drophead_ops e p q)"
| "any_enqueue e p (Codel q) = lift_queue Codel (op_enqueue codel_ops e p q)"
| "any_enqueue e p (Pie q) = lift_queue Pie (op_enqueue pie_ops e p q)"
| "any_enqueue e p (BitrateDequeue q) = lift_queue BitrateDequeue (op_enqueue bitrate_ops e p q)"
| "any_enqueue e p (ActiveNet q) = lift_queue ActiveNet (op_enqueue activenet_ops e p q)"

fun any_dequeue :: "env \<Rightarrow> any_queue \<Rightarrow> (QueuedPacket \<times> any_queue) res" where
  "any_dequeue e (Infinite q) = lift_pair Infinite (op_dequeue infinite_ops e q)"
| "any_dequeue e (DropTail q) = lift_pair DropTail (op_dequeue droptail_ops e q)"
| "any_dequeue e (DropHead q) = lift_pair DropHead (op_dequeue drophead_ops e q)"
| "any_dequeue e (Codel q) = lift_pair Codel (op_dequeue codel_ops e q)"
| "any_dequeue e (Pie q) = lift_pair Pie (op_dequeue pie_ops e q)"
| "any_dequeue e (BitrateDequeue q) = lift_pair BitrateDequeue (op_dequeue bitrate_ops e q)"
| "any_dequeue e (ActiveNet q) = lift_pair ActiveNet (op_dequeue activenet_ops e q)"

fun any_empty :: "any_queue \<Rightarrow> bool" where
  "any_empty (Infinite q) = op_empty infinite_ops q"
| "any_empty (DropTail q) = op_empty droptail_ops q"
| "any_empty (DropHead q) = op_empty drophead_ops q"
| "any_empty (Codel q) = op_empty codel_ops q"
| "any_empty (Pie q) = op_empty pie_ops q"
| "any_empty (BitrateDequeue q) = op_empty bitrate_ops q"
| "any_empty (ActiveNet q) = op_empty activenet_ops q"

fun any_to_string :: "any_queue \<Rightarrow> string" where
  "any_to_string (Infinite q) = op_to_string infinite_ops q"
| "any_to_string (DropTail q) = op_to_string droptail_ops q"
| "any_to_string (DropHead q) = op_to_string drophead_ops q"
| "any_to_string (Codel q) = op_to_string codel_ops q"
| "any_to_string (Pie q) = op_to_string pie_ops q"
| "any_to_string (BitrateDequeue q) = op_to_string bitrate_ops q"
| "any_to_string (ActiveNet q) = op_to_string activenet_ops q"

fun any_size_bytes :: "any_queue \<Rightarrow> u32 res" where
  "any_size_bytes (Infinite q) = op_size_bytes infinite_ops q"
| "any_size_bytes (DropTail q) = op_size_bytes droptail_ops q"
| "any_size_bytes (DropHead q) = op_size_bytes drophead_ops q"
| "any_size_bytes (Codel q) = op_size_bytes codel_ops q"
| "any_size_bytes (Pie q) = op_size_bytes pie_ops q"
| "any_size_bytes (BitrateDequeue q) = op_size_bytes bitrate_ops q"
| "any_size_bytes (ActiveNet q) = op_size_bytes activenet_ops q"

fun any_size_packets :: "any_queue \<Rightarrow> u32 res" where
  "any_size_packets (Infinite q) = op_size_packets infinite_ops q"
| "any_size_packets (DropTail q) = op_size_packets droptail_ops q"
| "any_size_packets (DropHead q) = op_size_packets drophead_ops q"
| "any_size_packets (Codel q) = op_size_packets codel_ops q"
| "any_size_packets (Pie q) = op_size_packets pie_ops q"
| "any_size_packets (BitrateDequeue q) = op_size_packets bitrate_ops q"
| "any_size_packets (ActiveNet q) = op_size_packets activenet_ops q"

fun any_set_bandwidth :: "u32 \<Rightarrow> any_queue \<Rightarrow> any_queue" where
  "any_set_bandwidth b (Infinite q) = Infinite (op_set_bandwidth infinite_ops b q)"
| "any_set_bandwidth b (DropTail q) = DropTail (op_set_bandwidth droptail_ops b q)"
| "any_set_bandwidth b (DropHead q) = DropHead (op_set_bandwidth drophead_ops b q)"
| "any_set_bandwidth b (Codel q) = Codel (op_set_bandwidth codel_ops b q)"
| "any_set_bandwidth b (Pie q) = Pie (op_set_bandwidth pie_ops b q)"
| "any_set_bandwidth b (BitrateDequeue q) = BitrateDequeue (op_set_bandwidth bitrate_ops b q)"
| "any_set_bandwidth b (ActiveNet q) = ActiveNet (op_set_bandwidth activenet_ops b q)"

definition any_ops :: "any_queue queue_ops" where
  "any_ops =
     \<lparr>op_enqueue = any_enqueue, op_dequeue = any_dequeue, op_empty = any_empty, op_to_string = any_to_string,
      op_size_bytes = any_size_bytes, op_size_packets = any_size_packets, op_set_bandwidth = any_set_bandwidth\<rparr>"

section \<open>The contract of the dispatched queue\<close>

fun any_pkts :: "any_queue \<Rightarrow> QueuedPacket list" where
  "any_pkts (Infinite q) = iq_internal_queue q"
| "any_pkts (DropTail q) = internal_queue q"
| "any_pkts (DropHead q) = internal_queue q"
| "any_pkts (Codel q) = internal_queue q"
| "any_pkts (Pie q) = internal_queue q"
| "any_pkts (BitrateDequeue q) = internal_queue q"
| "any_pkts (ActiveNet q) = internal_queue q"

fun any_inv :: "any_queue \<Rightarrow> bool" where
  "any_inv (Infinite q) = iq_inv q"
| "any_inv (DropTail q) = limited_inv q"
| "any_inv (DropHead q) = limited_inv q"
| "any_inv (Codel q) = limited_inv q"
| "any_inv (Pie q) = pie_inv q"
| "any_inv (BitrateDequeue q) = bitrate_inv q"
| "any_inv (ActiveNet q) = dq_inv q"

lemma lift_queue_Inr [simp]: "lift_queue C r = Inr x \<longleftrightarrow> (\<exists>q. r = Inr q \<and> x = C q)"
  by (auto simp: lift_queue_def)

lemma lift_pair_Inr [simp]: "lift_pair C r = Inr (p, x) \<longleftrightarrow> (\<exists>q. r = Inr (p, q) \<and> x = C q)"
  by (auto simp: lift_pair_def)

interpretation any: packet_queue any_ops any_pkts any_inv
proof (unfold_locales, goal_cases)
  case (1 q)
  show ?case
    by (cases q) (simp_all add: any_ops_def infinite.op_empty_iff droptail.op_empty_iff drophead.op_empty_iff
      codel.op_empty_iff pie.op_empty_iff bitrate.op_empty_iff activenet.op_empty_iff)
next
  case (2 q) then show ?case
    by (cases q) (simp_all add: any_ops_def infinite.op_size_bytes_eq droptail.op_size_bytes_eq drophead.op_size_bytes_eq
      codel.op_size_bytes_eq pie.op_size_bytes_eq bitrate.op_size_bytes_eq activenet.op_size_bytes_eq)
next
  case (3 q) then show ?case
    by (cases q) (simp_all add: any_ops_def infinite.op_size_packets_eq droptail.op_size_packets_eq drophead.op_size_packets_eq
      codel.op_size_packets_eq pie.op_size_packets_eq bitrate.op_size_packets_eq activenet.op_size_packets_eq)
next
  case (4 q) then show ?case
    using infinite.inv_bounds droptail.inv_bounds codel.inv_bounds pie.inv_bounds bitrate.inv_bounds activenet.inv_bounds
    by (cases q) simp_all
next
  case (5 q p e q') then show ?case
    by (cases q) (auto simp: any_ops_def dest: infinite.enqueue_inv [rotated 2] droptail.enqueue_inv [rotated 2] drophead.enqueue_inv [rotated
      2] codel.enqueue_inv [rotated 2] pie.enqueue_inv [rotated 2] bitrate.enqueue_inv [rotated 2]
      activenet.enqueue_inv [rotated 2])
next
  case (6 q p e q') then show ?case
    by (cases q) (auto simp: any_ops_def dest: infinite.enqueue_served [rotated 2] droptail.enqueue_served [rotated 2] drophead.enqueue_served
      [rotated 2] codel.enqueue_served [rotated 2] pie.enqueue_served [rotated 2]
      bitrate.enqueue_served [rotated 2] activenet.enqueue_served [rotated 2])
next
  case (7 q e p q') then show ?case
    by (cases q) (auto simp: any_ops_def dest: infinite.dequeue_inv [rotated 1] droptail.dequeue_inv [rotated 1] drophead.dequeue_inv [rotated
      1] codel.dequeue_inv [rotated 1] pie.dequeue_inv [rotated 1] bitrate.dequeue_inv [rotated 1]
      activenet.dequeue_inv [rotated 1])
next
  case (8 q e p q') then show ?case
    by (cases q) (auto simp: any_ops_def dest: infinite.dequeue_served [rotated 1] droptail.dequeue_served [rotated 1] drophead.dequeue_served
      [rotated 1] codel.dequeue_served [rotated 1] pie.dequeue_served [rotated 1]
      bitrate.dequeue_served [rotated 1] activenet.dequeue_served [rotated 1])
next
  case (9 q b) then show ?case
    using infinite.bandwidth_inv droptail.bandwidth_inv drophead.bandwidth_inv codel.bandwidth_inv pie.bandwidth_inv
      bitrate.bandwidth_inv activenet.bandwidth_inv
    by (cases q) (auto simp: any_ops_def)
next
  case (10 b q) then show ?case
    by (cases q) (simp_all add: any_ops_def infinite.bandwidth_pkts droptail.bandwidth_pkts drophead.bandwidth_pkts
      codel.bandwidth_pkts pie.bandwidth_pkts bitrate.bandwidth_pkts activenet.bandwidth_pkts)
qed

text \<open>The classes whose calls always return on packets with a readable header.\<close>

fun reliable_kind :: "any_queue \<Rightarrow> bool" where
  "reliable_kind (Infinite q) = True"
| "reliable_kind (DropTail q) = True"
| "reliable_kind (Pie q) = True"
| "reliable_kind _ = False"

definition reliable_inv :: "any_queue \<Rightarrow> bool" where
  "reliable_inv q \<longleftrightarrow> any_inv q \<and> reliable_kind q"

lemma kind_kept:
  "any_enqueue e p q = Inr q' \<Longrightarrow> reliable_kind q' = reliable_kind q"
  "any_dequeue e q = Inr (p, q') \<Longrightarrow> reliable_kind q' = reliable_kind q"
  "reliable_kind (any_set_bandwidth b q) = reliable_kind q"
  by (cases q; auto)+

lemma any_enqueue_returns:
  assumes "reliable_inv q" and "fits p (any_pkts q)" and "readable (contents p)"
  shows "\<exists>q'. any_enqueue e p q = Inr q'"
  using assms infinite.enqueue_returns droptail.enqueue_returns pie.enqueue_returns
  by (cases q) (simp_all add: reliable_inv_def)

lemma any_dequeue_returns:
  assumes "reliable_inv q" and "any_pkts q \<noteq> []" and "\<forall>p \<in> set (any_pkts q). readable (contents p)"
  shows "\<exists>p q'. any_dequeue e q = Inr (p, q')"
  using assms infinite.dequeue_returns droptail.dequeue_returns pie.dequeue_returns
  by (cases q) (simp_all add: reliable_inv_def)

lemmas any_ops_simps = any_ops_def queue_ops.simps

interpretation rel: reliable_packet_queue any_ops any_pkts reliable_inv
proof (unfold_locales, goal_cases)
  case (1 q) show ?case by (rule any.op_empty_iff)
next
  case (2 q) then show ?case by (simp add: reliable_inv_def any.op_size_bytes_eq)
next
  case (3 q) then show ?case by (simp add: reliable_inv_def any.op_size_packets_eq)
next
  case (4 q) then show ?case using any.inv_bounds by (simp add: reliable_inv_def)
next
  case (5 q p e q') then show ?case
    using any.enqueue_inv [of q p e q'] kind_kept(1) [of e p q q'] by (simp add: reliable_inv_def any_ops_def)
next
  case (6 q p e q') then show ?case
    using any.enqueue_served [of q p e q'] by (simp add: reliable_inv_def)
next
  case (7 q e p q') then show ?case
    using any.dequeue_inv [of q e p q'] kind_kept(2) [of e q p q'] by (simp add: reliable_inv_def any_ops_def)
next
  case (8 q e p q') then show ?case
    using any.dequeue_served [of q e p q'] by (simp add: reliable_inv_def)
next
  case (9 q b) then show ?case
    using any.bandwidth_inv [of q b] by (simp add: reliable_inv_def any_ops_def kind_kept(3))
next
  case (10 b q) show ?case by (rule any.bandwidth_pkts)
next
  case (11 q p e) then show ?case using any_enqueue_returns by (simp add: any_ops_def)
next
  case (12 q e) then show ?case using any_dequeue_returns by (simp add: any_ops_def)
qed

section \<open>Properties\<close>

lemma mk_dropping_queue_inv:
  "mk_dropping_queue f args = Inr q \<Longrightarrow> limited_inv q \<and> internal_queue q = [] \<and> (packet_limit q \<noteq> 0 \<or> byte_limit q \<noteq> 0)"
  by (auto simp: mk_dropping_queue_def dq_inv_def within_limits_def split: if_splits)

lemma extend_inv:
  "limited_inv (dropping_queue.extend q x) = limited_inv q"
  "internal_queue (dropping_queue.extend q x) = internal_queue q"
  by (simp_all add: dropping_queue.extend_def dq_inv_def within_limits_def)

text \<open>
  Whatever type and arguments \<open>get_packet_queue\<close> is given, a queue it returns is empty and
  satisfies the invariant of its class, so the queue contract holds from construction on; the
  names it knows are seven, and any other name is refused.
\<close>

lemma get_packet_queue_inv:
  assumes "get_packet_queue fopen_ok now type args = Inr q"
  shows "any_inv q \<and> any_pkts q = [] \<and>
     type \<in> {''infinite'', ''droptail'', ''drophead'', ''codel'', ''pie'', ''dropbitrate_dequeue'', ''dropactivenet''}"
proof -
  have base: "limited_inv b \<and> internal_queue b = []" if "mk_dropping_queue fopen_ok args = Inr b" for b
    using mk_dropping_queue_inv [OF that] by blast
  have "any_inv q \<and> any_pkts q = []"
    using assms base
    by (auto simp: get_packet_queue_def mk_infinite_queue_def iq_inv_def mk_codel_queue_def mk_pie_queue_def
        mk_bitrate_queue_def mk_activenet_queue_def extend_inv pie_inv_def bitrate_inv_def frames_counted_def
        codel_queue.defs pie_queue.defs bitrate_queue.defs activenet_queue.defs
        dropping_queue.extend_def dq_inv_def within_limits_def split: if_splits)
  then show ?thesis using assms by (auto simp: get_packet_queue_def split: if_splits)
qed

text \<open>The class of an object does not change, whatever is called.\<close>

fun queue_type :: "any_queue \<Rightarrow> string" where
  "queue_type (Infinite q) = ''infinite''"
| "queue_type (DropTail q) = ''droptail''"
| "queue_type (DropHead q) = ''drophead''"
| "queue_type (Codel q) = ''codel''"
| "queue_type (Pie q) = ''pie''"
| "queue_type (BitrateDequeue q) = ''dropbitrate_dequeue''"
| "queue_type (ActiveNet q) = ''dropactivenet''"

lemma queue_type_kept:
  "any_enqueue e p q = Inr q' \<Longrightarrow> queue_type q' = queue_type q"
  "any_dequeue e q = Inr (p, q') \<Longrightarrow> queue_type q' = queue_type q"
  "queue_type (any_set_bandwidth b q) = queue_type q"
  by (cases q; auto)+

lemma run_keeps_type: "queue_run any_ops cs q = Inr (out, q') \<Longrightarrow> queue_type q' = queue_type q"
proof (induction cs arbitrary: q out)
  case (Cons c cs)
  then show ?case by (cases c) (auto simp: any_ops_simps queue_type_kept)
qed simp

text \<open>
  C8: Queues stay well-formed. A queue that \<open>get_packet_queue\<close> returns for a type belongs to the class of
  that type and stays in it through any sequence of calls that returns, on packets that number less
  than 2 to the power 31 and have less than 2 to the power 31 bytes; the sequence ends in a queue that
  satisfies the invariant of its class, whose counters of bytes and packets are those of the packets in it; and what came
  out followed by what is left is, in order and at most once each, of what was put in.
\<close>

theorem queues_keep_type:
  assumes "get_packet_queue fopen_ok now type args = Inr q0" and "queue_run any_ops calls q0 = Inr (out, q)" and "small (offered calls)"
  shows "queue_type q = type \<and> any_inv q \<and> any_size_bytes q = Inr (of_nat (total_bytes (any_pkts q))) \<and>
    any_size_packets q = Inr (of_nat (length (any_pkts q))) \<and> served (out @ any_pkts q) (offered calls)"
proof -
  have q0: "any_inv q0" "any_pkts q0 = []" using get_packet_queue_inv [OF assms(1)] by simp_all
  have "queue_type q0 = type" using assms(1) by (auto simp: get_packet_queue_def split: if_splits)
  then have "queue_type q = type" using run_keeps_type [OF assms(2)] by simp
  moreover have r: "any_inv q \<and> served (out @ any_pkts q) (offered calls)" using any.queue_run_keeps [OF assms(2) q0(1)] assms(3) q0(2) by simp
  ultimately show ?thesis using any.op_size_bytes_eq [of q] any.op_size_packets_eq [of q] by (simp add: any_ops_simps)
qed

definition sample_calls :: "queue_call list" where
  "sample_calls =
     (let e = \<lparr>clock = (\<lambda>_. 9), meter_clock = (\<lambda>_. 9), uniform = 0\<rparr>
      in [Enqueue_call e (mk_QueuedPacket (sample_packet 80 0xc0 1 0 0) 7), Bandwidth_call 12,
          Enqueue_call e (mk_QueuedPacket (sample_packet 80 0xc0 2 0 0) 8), Dequeue_call e])"

theorem queues_keep_type_witness:
  "\<exists>q0 out q. get_packet_queue (\<lambda>_. True) 0 ''infinite'' [] = Inr q0 \<and> queue_run any_ops sample_calls q0 = Inr (out, q) \<and>
     queue_type q = ''infinite'' \<and> any_inv q \<and> served (out @ any_pkts q) (offered sample_calls) \<and> length out = 1"
proof -
  have "small (offered sample_calls)" by (simp add: small_def sample_calls_def mk_QueuedPacket_def sample_packet_def Let_def)
  moreover obtain q0 where q0: "get_packet_queue (\<lambda>_. True) 0 ''infinite'' [] = Inr q0" "q0 = Infinite \<lparr>iq_internal_queue = [], iq_queue_size_in_bytes = 0, iq_queue_size_in_packets = 0\<rparr>"
    by (simp add: get_packet_queue_def mk_infinite_queue_def)
  moreover obtain out q where "queue_run any_ops sample_calls q0 = Inr (out, q)" "length out = 1"
    by (auto simp: q0(2) sample_calls_def any_ops_simps infinite_defs Let_def)
  ultimately show ?thesis using queues_keep_type [OF q0(1)] by blast
qed

end
