(* ===== verification/Live_Graph.thy ===== *)
theory Live_Graph
  imports Mahimahi_Prelude
begin

text \<open>
  \<open>BinnedLiveGraph\<close>, src/src/graphing/binned_livegraph.{hh,cc}: the meters of links and meter
  shells. Values are collected per bin of \<open>bin_width_ms\<close> milliseconds; when the clock leaves a bin,
  \<open>advance\<close> emits one data point per series and starts the next bin. The drawing surface
  (\<open>Graph\<close>) is the list of points handed to it. \<open>now\<close> is the reading of \<open>timestamp()\<close> the call
  makes. The operations are those of the thread that carries the packets, run without a break; how
  the animation thread comes between their two locked parts is the subject of Live_Animation.thy. All
  that the animation changes in the meter it changes by further calls of \<open>advance\<close>, which take no
  room in a bin (\<open>advance_keeps_room\<close>).
\<close>

section \<open>Model\<close>

text \<open>A data point: the series, the time in seconds, the value.\<close>

type_synonym data_point = "nat \<times> real \<times> real"

record livegraph =
  graph_points :: "data_point list"
  bin_width_ms :: u32
  value_this_bin :: "u32 list"
  current_bin :: u64
  multiplier :: real
  rate_quantity :: bool
  initialize_new_bin :: "u32 \<Rightarrow> u32 \<Rightarrow> u32"

definition mk_livegraph :: "nat \<Rightarrow> real \<Rightarrow> bool \<Rightarrow> u32 \<Rightarrow> (u32 \<Rightarrow> u32 \<Rightarrow> u32) \<Rightarrow> u64 \<Rightarrow> livegraph res" where
  "mk_livegraph styles mult rate width init now =
     (if width = 0 then Inl Undefined_behaviour
      else Inr \<lparr>graph_points = map (\<lambda>i. (i, 0, 0)) [0..<styles], bin_width_ms = width,
                value_this_bin = replicate styles 0, current_bin = now div ucast width, multiplier = mult,
                rate_quantity = rate, initialize_new_bin = init\<rparr>)"

text \<open>The value plotted for what a bin has collected; an \<open>int\<close> times a \<open>double\<close>.\<close>

definition plotted :: "livegraph \<Rightarrow> u32 \<Rightarrow> real" where
  "plotted g v =
     (let value = real_of_int (sint v) * multiplier g
      in if rate_quantity g then value / (real (unat (bin_width_ms g)) / 1000) else value)"

text \<open>One round of the loop of \<open>advance\<close>.\<close>

definition close_bin :: "livegraph \<Rightarrow> livegraph" where
  "close_bin g =
     (let x = real (unat ((current_bin g + 1) * ucast (bin_width_ms g))) / 1000
      in g\<lparr>graph_points := graph_points g @
             map (\<lambda>(i, v). (i, x, plotted g v)) (zip [0..<length (value_this_bin g)] (value_this_bin g)),
           value_this_bin := map (initialize_new_bin g (bin_width_ms g)) (value_this_bin g),
           current_bin := current_bin g + 1\<rparr>)"

function close_bins :: "u64 \<Rightarrow> livegraph \<Rightarrow> livegraph" where
  "close_bins now_bin g = (if current_bin g < now_bin then close_bins now_bin (close_bin g) else g)"
  by pat_completeness auto
termination
proof (relation "measure (\<lambda>(b, g). unat b - unat (current_bin g))")
  fix b :: u64 and g :: livegraph
  assume less: "current_bin g < b"
  then have "unat (current_bin g + 1) = Suc (unat (current_bin g))"
    by (rule unat_add_1)
  with less show "((b, close_bin g), b, g) \<in> measure (\<lambda>(b, g). unat b - unat (current_bin g))"
    by (simp add: close_bin_def Let_def word_less_nat_alt)
qed simp

declare close_bins.simps [simp del]

definition advance :: "u64 \<Rightarrow> livegraph \<Rightarrow> livegraph res" where
  "advance now g =
     (if bin_width_ms g = 0 then Inl Undefined_behaviour
      else Inr (close_bins (now div ucast (bin_width_ms g)) g))"

text \<open>
  \<open>add_value_now\<close> and \<open>set_max_value_now\<close>: each calls \<open>advance\<close> and then locks the meter again for the
  value; \<open>at\<close> is bounds-checked.
\<close>

definition add_to_bin :: "nat \<Rightarrow> u32 \<Rightarrow> livegraph \<Rightarrow> livegraph res" where
  "add_to_bin num amount g =
     (if length (value_this_bin g) \<le> num then Inl Out_of_range
      else if sint (value_this_bin g ! num) < 0
      then Inl (Runtime_error ''BinnedLiveGraph: attempt to add to a default value'')
      else Inr (g\<lparr>value_this_bin := (value_this_bin g)[num := value_this_bin g ! num + amount]\<rparr>))"

definition max_in_bin :: "nat \<Rightarrow> u32 \<Rightarrow> livegraph \<Rightarrow> livegraph res" where
  "max_in_bin num amount g =
     (if length (value_this_bin g) \<le> num then Inl Out_of_range
      else
        let v = value_this_bin g ! num;
            v' = (if sint v < 0 then amount else max v amount)
        in Inr (g\<lparr>value_this_bin := (value_this_bin g)[num := v']\<rparr>))"

definition add_value_now :: "u64 \<Rightarrow> nat \<Rightarrow> u32 \<Rightarrow> livegraph \<Rightarrow> livegraph res" where
  "add_value_now now num amount g = res_bind (advance now g) (add_to_bin num amount)"

definition set_max_value_now :: "u64 \<Rightarrow> nat \<Rightarrow> u32 \<Rightarrow> livegraph \<Rightarrow> livegraph res" where
  "set_max_value_now now num amount g = res_bind (advance now g) (max_in_bin num amount)"

section \<open>Advancing emits every bin once\<close>

lemma close_bin_fields [simp]:
  "bin_width_ms (close_bin g) = bin_width_ms g" "multiplier (close_bin g) = multiplier g"
  "rate_quantity (close_bin g) = rate_quantity g" "initialize_new_bin (close_bin g) = initialize_new_bin g"
  "length (value_this_bin (close_bin g)) = length (value_this_bin g)"
  "current_bin (close_bin g) = current_bin g + 1"
  by (simp_all add: close_bin_def Let_def)

lemma close_bins_fields:
  "bin_width_ms (close_bins b g) = bin_width_ms g \<and> multiplier (close_bins b g) = multiplier g \<and>
   rate_quantity (close_bins b g) = rate_quantity g \<and> initialize_new_bin (close_bins b g) = initialize_new_bin g \<and>
   length (value_this_bin (close_bins b g)) = length (value_this_bin g) \<and>
   current_bin (close_bins b g) = max (current_bin g) b"
proof (induction b g rule: close_bins.induct)
  case (1 b g)
  show ?case
  proof (cases "current_bin g < b")
    case True
    have "max (current_bin g + 1) b = max (current_bin g) b"
      using True inc_le [OF True] by (simp add: max.absorb2 less_imp_le)
    with True 1 show ?thesis by (subst (1 2 3 4 5 6) close_bins.simps) simp
  next
    case False
    then show ?thesis by (subst (1 2 3 4 5 6) close_bins.simps) (simp add: max_def)
  qed
qed

text \<open>The number of bins that are closed, and the points they give.\<close>

lemma close_bins_points:
  "length (graph_points (close_bins b g)) =
     length (graph_points g) + (unat b - unat (current_bin g)) * length (value_this_bin g)"
proof (induction b g rule: close_bins.induct)
  case (1 b g)
  show ?case
  proof (cases "current_bin g < b")
    case True
    then have s: "unat (current_bin g + 1) = Suc (unat (current_bin g))"
      by (rule unat_add_1)
    have l: "unat (current_bin g) < unat b" using True by (simp add: word_less_nat_alt)
    have "length (graph_points (close_bins b g)) = length (graph_points (close_bins b (close_bin g)))"
      using True by (subst close_bins.simps) simp
    also have "\<dots> = length (graph_points (close_bin g)) + (unat b - Suc (unat (current_bin g))) * length (value_this_bin g)"
      using "1.IH" [OF True] s by simp
    also have "\<dots> = length (graph_points g) + length (value_this_bin g) +
        (unat b - Suc (unat (current_bin g))) * length (value_this_bin g)"
      by (simp add: close_bin_def Let_def)
    also have "unat b - unat (current_bin g) = Suc (unat b - Suc (unat (current_bin g)))" using l by simp
    then have "length (graph_points g) + length (value_this_bin g) +
        (unat b - Suc (unat (current_bin g))) * length (value_this_bin g) =
      length (graph_points g) + (unat b - unat (current_bin g)) * length (value_this_bin g)" by simp
    finally show ?thesis .
  next
    case False
    then show ?thesis by (subst close_bins.simps) (simp add: word_less_nat_alt)
  qed
qed

text \<open>
  \<open>advance\<close> ends with the bin of the current time (or the bin it was in, if the clock has gone
  back), and hands the drawing surface one point per series for every bin it has left, none twice
  and none left out; the width and the number of series never change.
\<close>

lemma advance_closes_bins:
  assumes "bin_width_ms g \<noteq> 0"
  shows "\<exists>g'. advance now g = Inr g' \<and>
     current_bin g' = max (current_bin g) (now div ucast (bin_width_ms g)) \<and>
     length (graph_points g') = length (graph_points g) +
       (unat (now div ucast (bin_width_ms g)) - unat (current_bin g)) * length (value_this_bin g) \<and>
     length (value_this_bin g') = length (value_this_bin g) \<and> bin_width_ms g' = bin_width_ms g"
  using assms close_bins_fields [of "now div ucast (bin_width_ms g)" g] close_bins_points [of "now div ucast (bin_width_ms g)" g]
  by (simp add: advance_def)

text \<open>
  A meter whose new bins begin with 0 (the throughput meters) keeps a value that is not larger than
  the one it had, whatever time has passed; \<open>add_value_now\<close> refuses a bin only after more than
  \<open>2 ^ 31 - 1\<close> has been counted in it. \<open>set_max_value_now\<close> refuses none.
\<close>

lemma close_bins_values:
  assumes "\<And>w v. initialize_new_bin g w v = 0"
  shows "i < length (value_this_bin g) \<Longrightarrow> unat (value_this_bin (close_bins b g) ! i) \<le> unat (value_this_bin g ! i)"
  using assms
proof (induction b g rule: close_bins.induct)
  case (1 b g)
  show ?case
  proof (cases "current_bin g < b")
    case True
    have "unat (value_this_bin (close_bins b (close_bin g)) ! i) \<le> unat (value_this_bin (close_bin g) ! i)"
      using 1 True by simp
    also have "\<dots> \<le> unat (value_this_bin g ! i)" using "1.prems" by (simp add: close_bin_def Let_def)
    finally show ?thesis using True by (subst close_bins.simps) simp
  next
    case False
    then show ?thesis by (subst close_bins.simps) simp
  qed
qed

definition counting_meter :: "nat \<Rightarrow> livegraph \<Rightarrow> bool" where
  "counting_meter n g \<longleftrightarrow> bin_width_ms g \<noteq> 0 \<and> n \<le> length (value_this_bin g) \<and> (\<forall>w v. initialize_new_bin g w v = 0)"

definition maximum_meter :: "nat \<Rightarrow> livegraph \<Rightarrow> bool" where
  "maximum_meter n g \<longleftrightarrow> bin_width_ms g \<noteq> 0 \<and> n \<le> length (value_this_bin g)"

lemma add_value_now_returns:
  assumes m: "counting_meter n g" and num: "num < n" and room: "unat (value_this_bin g ! num) + unat amount < 2 ^ 31"
  shows "\<exists>g'. add_value_now now num amount g = Inr g' \<and> counting_meter n g' \<and>
     (\<forall>i < n. unat (value_this_bin g' ! i) \<le> unat (value_this_bin g ! i) + (if i = num then unat amount else 0))"
proof -
  let ?g = "close_bins (now div ucast (bin_width_ms g)) g"
  have l: "length (value_this_bin ?g) = length (value_this_bin g)" "bin_width_ms ?g = bin_width_ms g"
    "initialize_new_bin ?g = initialize_new_bin g" by (simp_all add: close_bins_fields)
  have v: "unat (value_this_bin ?g ! i) \<le> unat (value_this_bin g ! i)" if "i < n" for i
    using m that by (intro close_bins_values) (auto simp: counting_meter_def)
  have s: "unat (value_this_bin ?g ! num) + unat amount < 2 ^ 31" using v [OF num] room by linarith
  then have "sint (of_nat (unat (value_this_bin ?g ! num)) :: u32) = int (unat (value_this_bin ?g ! num))"
    by (intro sint_of_nat_u32) linarith
  then have nn: "\<not> sint (value_this_bin ?g ! num) < 0" by simp
  have a: "unat (value_this_bin ?g ! num + amount) = unat (value_this_bin ?g ! num) + unat amount"
    using s by (intro unat_add_small) simp
  have k: "num < length (value_this_bin g)" using m num by (simp add: counting_meter_def)
  have "add_value_now now num amount g = Inr (?g\<lparr>value_this_bin := (value_this_bin ?g)[num := value_this_bin ?g ! num + amount]\<rparr>)"
    using m k nn by (simp add: add_value_now_def add_to_bin_def advance_def counting_meter_def l)
  moreover have "unat ((value_this_bin ?g)[num := value_this_bin ?g ! num + amount] ! i) \<le>
      unat (value_this_bin g ! i) + (if i = num then unat amount else 0)" if "i < n" for i
    using v [OF that] k a by (cases "i = num") (simp_all add: l)
  ultimately show ?thesis using m by (simp add: counting_meter_def l)
qed

lemma set_max_value_now_returns:
  "maximum_meter n g \<Longrightarrow> num < n \<Longrightarrow> \<exists>g'. set_max_value_now now num amount g = Inr g' \<and> maximum_meter n g'"
  by (auto simp: set_max_value_now_def max_in_bin_def advance_def maximum_meter_def close_bins_fields Let_def)

lemma mk_livegraph_meter:
  assumes "mk_livegraph n mult rate width init now = Inr g"
  shows "maximum_meter n g" and "(\<And>w v. init w v = 0) \<Longrightarrow> counting_meter n g" and "i < n \<Longrightarrow> value_this_bin g ! i = 0"
  using assms by (auto simp: mk_livegraph_def maximum_meter_def counting_meter_def split: if_splits)

lemma advance_keeps_room:
  assumes "advance now g = Inr g'"
  shows "maximum_meter n g \<Longrightarrow> maximum_meter n g'"
    and "counting_meter n g \<Longrightarrow> counting_meter n g' \<and> (\<forall>i < n. unat (value_this_bin g' ! i) \<le> unat (value_this_bin g ! i))"
  using assms by (auto simp: advance_def maximum_meter_def counting_meter_def close_bins_fields intro!: close_bins_values split: if_splits)

definition sample_graph :: livegraph where
  "sample_graph = \<lparr>graph_points = [], bin_width_ms = 500, value_this_bin = [7, 8], current_bin = 1, multiplier = 1,
     rate_quantity = False, initialize_new_bin = (\<lambda>w v. 0)\<rparr>"

end
