(* ===== verification/Link_Queue.thy ===== *)
theory Link_Queue
  imports Queue_Factory Live_Graph
begin

text \<open>
  \<open>LinkQueue\<close>, src/src/frontend/link_queue.{hh,cc}: the emulation of a link from a trace of
  delivery opportunities. Every opportunity delivers up to \<open>PACKET_SIZE\<close> bytes from the packet queue
  to the output; a packet may take several opportunities. The class calls the packet queue only
  through its virtual functions, so every operation takes the table \<open>ops\<close>.

  \<open>envs\<close> holds what the environment will answer to the calls the link makes of its queue and its
  meters, one \<open>env\<close> per call, in order. The time at which an operation of the link itself is
  called is its argument \<open>now\<close>. The constructor is told whether the process runs as root. The log file is the list of its lines. \<open>rationalize\<close> runs once per
  opportunity that has passed; it is given fuel for all opportunities up to \<open>now\<close>.
\<close>

section \<open>Model\<close>

datatype link_line =
    Header string
  | Arrival u64 nat
  | Dropped u64 u32 u32
  | Opportunity u64 nat
  | Departure u64 nat u64 u32

record 'q link_queue =
  next_delivery :: u32
  schedule :: "u64 list"
  base_timestamp :: u64
  link_packets :: 'q
  packet_in_transit :: QueuedPacket
  packet_in_transit_bytes_left :: u32
  output_queue :: "byte list list"
  link_log :: "link_line list option"
  throughput_graph :: "livegraph option"
  delay_graph :: "livegraph option"
  repeat :: bool
  finished :: bool
  link_bitrate :: "u32 list"
  dequeue_trace :: "(u64 \<times> u32) list"
  empty_times :: u32
  dequeue_rate :: u32
  envs :: "nat \<Rightarrow> env"

definition LINK_PACKET_SIZE :: nat where
  "LINK_PACKET_SIZE = 1504"

subsection \<open>The constructor\<close>

text \<open>The loop over the lines of the trace file.\<close>

fun load_schedule :: "string \<Rightarrow> u64 list \<Rightarrow> string list \<Rightarrow> u64 list res" where
  "load_schedule filename sched [] = Inr sched"
| "load_schedule filename sched (line # lines) =
     (if line = [] then Inl (Runtime_error (filename @ '': invalid empty line''))
      else res_bind (myatoi 10 line) (\<lambda>v.
        let ms = (of_int v :: u64) in
        if sched \<noteq> [] \<and> ms < last sched
        then Inl (Runtime_error (filename @ '': timestamps must be monotonically nondecreasing''))
        else load_schedule filename (sched @ [ms]) lines))"

text \<open>
  The search to the left for the opportunity at least \<open>interval / 2\<close> before the \<open>i\<close>-th, wrapping
  around to the previous cycle of the trace: the index found. The comparison is in \<open>uint64_t\<close>.
\<close>

fun find_left :: "nat \<Rightarrow> u64 list \<Rightarrow> u32 \<Rightarrow> nat \<Rightarrow> int \<Rightarrow> u64 \<Rightarrow> nat res" where
  "find_left 0 sched cycle i left offset = Inl Out_of_fuel"
| "find_left (Suc fuel) sched cycle i left offset =
     (if sched ! i - 50 < sched ! nat left + offset
      then if left - 1 < 0
           then find_left fuel sched cycle i (left - 1 + int (length sched)) (- scast cycle)
           else find_left fuel sched cycle i (left - 1) offset
      else Inr (nat left))"

definition opportunity_bitrate :: "u64 list \<Rightarrow> nat \<Rightarrow> u32 res" where
  "opportunity_bitrate sched i =
     (let cycle = (ucast (last sched) :: u32) in
      res_bind (find_left (2 * length sched + 1) sched cycle i (int i) 0) (\<lambda>left.
        let num_pkts = (if left < i then of_nat (i - left) else of_nat (i + length sched - left) :: u32);
            interval = (if left < i then ucast (sched ! i - sched ! left)
                        else ucast (sched ! i - sched ! left + scast cycle) :: u32)
        in if interval = 0 then Inl Undefined_behaviour
           else Inr (of_nat LINK_PACKET_SIZE * num_pkts * 8 div interval)))"

fun map_res :: "('a \<Rightarrow> 'b res) \<Rightarrow> 'a list \<Rightarrow> 'b list res" where
  "map_res f [] = Inr []"
| "map_res f (x # xs) = res_bind (f x) (\<lambda>y. res_bind (map_res f xs) (\<lambda>ys. Inr (y # ys)))"

definition trace_bitrates :: "u64 list \<Rightarrow> u32 list res" where
  "trace_bitrates sched =
     (if sched = [] then Inl Undefined_behaviour
      else if sint (ucast (last sched) :: u32) < 100
      then if last sched = 0 then Inl Undefined_behaviour
           else Inr (replicate (length sched)
                  (ucast (of_nat LINK_PACKET_SIZE * of_nat (length sched) * 8 div last sched)))
      else map_res (opportunity_bitrate sched) [0..<length sched])"

text \<open>
  The arguments of the constructor. \<open>trace_lines\<close> is the content of the trace file (\<open>None\<close> if it
  cannot be opened), \<open>logfile_ok\<close> whether the log can be written, \<open>prefix\<close> the environment variable
  \<open>MAHIMAHI_SHELL_PREFIX\<close>. \<open>is_root\<close> is the identity of the process, which \<open>assert_not_root\<close> checks first.
\<close>

record link_config =
  link_name :: string
  trace_filename :: string
  trace_lines :: "string list option"
  logfile :: string
  logfile_ok :: bool
  cfg_repeat :: bool
  graph_throughput :: bool
  graph_delay :: bool
  command_line :: string
  shell_prefix :: "string option"

definition log_header :: "'q queue_ops \<Rightarrow> u64 \<Rightarrow> 'q \<Rightarrow> link_config \<Rightarrow> link_line list" where
  "log_header ops initial_ts q c =
     [Header (''# mahimahi mm-link ('' @ link_name c @ '') ['' @ trace_filename c @ ''] > '' @ logfile c),
      Header (''# command line: '' @ command_line c),
      Header (''# queue: '' @ op_to_string ops q),
      Header (''# init timestamp: '' @ show_nat (unat initial_ts)),
      Header (''# base timestamp: '' @ show_nat 0)] @
     (case shell_prefix c of None \<Rightarrow> [] | Some p \<Rightarrow> [Header (''# mahimahi config: '' @ p)])"

definition optional_graph :: "bool \<Rightarrow> livegraph res \<Rightarrow> livegraph option res" where
  "optional_graph b g = (if b then res_bind g (\<lambda>x. Inr (Some x)) else Inr None)"

definition mk_link_queue :: "'q queue_ops \<Rightarrow> bool \<Rightarrow> u64 \<Rightarrow> u64 \<Rightarrow> (nat \<Rightarrow> env) \<Rightarrow> link_config \<Rightarrow> 'q \<Rightarrow> 'q link_queue res" where
  "mk_link_queue ops is_root initial_ts now es c q =
     assert_not_root is_root
     (case trace_lines c of
        None \<Rightarrow> Inl (Runtime_error (trace_filename c @ '': error opening for reading''))
      | Some ls \<Rightarrow>
          res_bind (load_schedule (trace_filename c) [] ls) (\<lambda>sched.
          res_bind (trace_bitrates sched) (\<lambda>brs.
          asserting (length brs = length sched)
            (if sched = [] then Inl (Runtime_error (trace_filename c @ '': no valid timestamps found''))
             else if last sched = 0
             then Inl (Runtime_error (trace_filename c @ '': trace must last for a nonzero amount of time''))
             else if logfile c \<noteq> [] \<and> \<not> logfile_ok c
             then Inl (Runtime_error (logfile c @ '': error opening for writing''))
             else
               res_bind (optional_graph (graph_throughput c)
                          (mk_livegraph 3 (8 / 1000000) True 500 (\<lambda>w v. 0) now)) (\<lambda>tg.
               res_bind (optional_graph (graph_delay c) (mk_livegraph 1 1 False 250 (\<lambda>w v. - 1) now)) (\<lambda>dg.
                 Inr \<lparr>next_delivery = 0, schedule = sched, base_timestamp = 0, link_packets = q,
                      packet_in_transit = mk_QueuedPacket [] 0, packet_in_transit_bytes_left = 0,
                      output_queue = [],
                      link_log = (if logfile c \<noteq> [] then Some (log_header ops initial_ts q c) else None),
                      throughput_graph = tg, delay_graph = dg, repeat = cfg_repeat c, finished = False,
                      link_bitrate = brs, dequeue_trace = [], empty_times = 0, dequeue_rate = 0xffffffff,
                      envs = es\<rparr>))))))"

subsection \<open>Log and meters\<close>

definition link_print :: "link_line \<Rightarrow> 'q link_queue \<Rightarrow> 'q link_queue" where
  "link_print x l = l\<lparr>link_log := map_option (\<lambda>ls. ls @ [x]) (link_log l)\<rparr>"

text \<open>A call to a meter, if there is one; it takes one answer of the environment.\<close>

definition shift_envs :: "'q link_queue \<Rightarrow> 'q link_queue" where
  "shift_envs l = l\<lparr>envs := (\<lambda>i. envs l (Suc i))\<rparr>"

definition meter_throughput :: "nat \<Rightarrow> u32 \<Rightarrow> 'q link_queue \<Rightarrow> 'q link_queue res" where
  "meter_throughput num amount l =
     (case throughput_graph l of
        None \<Rightarrow> Inr l
      | Some g \<Rightarrow> res_bind (add_value_now (meter_clock (envs l 0) 0) num amount g) (\<lambda>g'.
                    Inr (shift_envs l\<lparr>throughput_graph := Some g'\<rparr>)))"

definition meter_delay :: "nat \<Rightarrow> u32 \<Rightarrow> 'q link_queue \<Rightarrow> 'q link_queue res" where
  "meter_delay num amount l =
     (case delay_graph l of
        None \<Rightarrow> Inr l
      | Some g \<Rightarrow> res_bind (set_max_value_now (meter_clock (envs l 0) 0) num amount g) (\<lambda>g'.
                    Inr (shift_envs l\<lparr>delay_graph := Some g'\<rparr>)))"

definition record_arrival :: "u64 \<Rightarrow> nat \<Rightarrow> 'q link_queue \<Rightarrow> 'q link_queue res" where
  "record_arrival arrival pkt_size l =
     meter_throughput 1 (of_nat pkt_size) (link_print (Arrival arrival pkt_size) l)"

definition record_drop :: "u64 \<Rightarrow> u32 \<Rightarrow> u32 \<Rightarrow> 'q link_queue \<Rightarrow> 'q link_queue" where
  "record_drop time pkts_dropped bytes_dropped l = link_print (Dropped time pkts_dropped bytes_dropped) l"

definition next_delivery_time :: "'q link_queue \<Rightarrow> u64 res" where
  "next_delivery_time l =
     (if finished l then Inr (- 1)
      else if length (schedule l) \<le> unat (next_delivery l) then Inl Out_of_range
      else Inr (schedule l ! unat (next_delivery l) + base_timestamp l))"

definition record_departure_opportunity :: "'q link_queue \<Rightarrow> 'q link_queue res" where
  "record_departure_opportunity l =
     res_bind (if link_log l = None then Inr l
               else res_bind (next_delivery_time l) (\<lambda>t. Inr (link_print (Opportunity t LINK_PACKET_SIZE) l)))
       (meter_throughput 0 (of_nat LINK_PACKET_SIZE))"

definition record_departure :: "'q queue_ops \<Rightarrow> u64 \<Rightarrow> QueuedPacket \<Rightarrow> 'q link_queue \<Rightarrow> 'q link_queue res" where
  "record_departure ops departure_time p l =
     res_bind (if link_log l = None then Inr l
               else res_bind (op_size_packets ops (link_packets l)) (\<lambda>n.
                 Inr (link_print (Departure departure_time (pkt_bytes p) (departure_time - arrival_time p) n) l))) (\<lambda>l1.
     res_bind (meter_throughput 2 (of_nat (pkt_bytes p)) l1)
       (meter_delay 0 (ucast (departure_time - arrival_time p))))"

subsection \<open>Delivery\<close>

definition use_a_delivery_opportunity :: "'q queue_ops \<Rightarrow> 'q link_queue \<Rightarrow> 'q link_queue res" where
  "use_a_delivery_opportunity ops l =
     res_bind (record_departure_opportunity l) (\<lambda>l1.
     if schedule l1 = [] then Inl Undefined_behaviour
     else
       let nd = (of_nat (unat (next_delivery l1 + 1) mod length (schedule l1)) :: u32);
           l2 = l1\<lparr>next_delivery := nd, link_packets := op_set_bandwidth ops (dequeue_rate l1) (link_packets l1)\<rparr>
       in Inr (if nd \<noteq> 0 then l2
               else if repeat l2 then l2\<lparr>base_timestamp := base_timestamp l2 + last (schedule l2)\<rparr>
               else l2\<lparr>finished := True\<rparr>))"

text \<open>
  The estimate of the rate at which packets leave (\<open>min_sample\<close> is 5, \<open>interval\<close> 50): the rate over
  the trace, and the samples that stay in the trace. The conversion of the quotient to
  \<open>uint32_t\<close> is taken modulo \<open>2 ^ 32\<close>.
\<close>

definition measured_rate :: "u64 \<Rightarrow> u32 \<Rightarrow> (u64 \<times> u32) list \<Rightarrow> u32" where
  "measured_rate t packet_size tr =
     (if 4 \<le> length tr
      then
        let total_byte = sum_list (map snd tr) - snd (hd tr) + packet_size
        in if t = fst (hd tr) then 0xffffffff
           else of_int (sint total_byte * 8 div uint (t - fst (hd tr)))
      else 0xffffffff)"

fun trim_trace :: "u64 \<Rightarrow> (u64 \<times> u32) list \<Rightarrow> (u64 \<times> u32) list" where
  "trim_trace t [] = []"
| "trim_trace t (x # xs) =
     (if 5 \<le> length (x # xs) \<and> fst x < t - 50 then trim_trace t xs else x # xs)"

text \<open>A packet whose last byte has been sent. \<open>move\<close> leaves its contents empty.\<close>

definition finish_packet :: "'q queue_ops \<Rightarrow> u64 \<Rightarrow> 'q link_queue \<Rightarrow> 'q link_queue res" where
  "finish_packet ops t l =
     (let p = packet_in_transit l; packet_size = (of_nat (pkt_bytes p) :: u32) in
      res_bind (record_departure ops t p l) (\<lambda>l1.
        Inr (l1\<lparr>output_queue := output_queue l1 @ [contents p],
                packet_in_transit := p\<lparr>contents := []\<rparr>,
                empty_times := 0,
                dequeue_rate := measured_rate t packet_size (dequeue_trace l1),
                dequeue_trace := trim_trace t (dequeue_trace l1 @ [(t, packet_size)])\<rparr>)))"

text \<open>
  Taking the next packet when none is in transit; the second component is \<open>False\<close> when the queue
  is empty and the opportunity is wasted (\<open>break\<close>).
\<close>

definition fetch :: "'q queue_ops \<Rightarrow> 'q link_queue \<Rightarrow> ('q link_queue \<times> bool) res" where
  "fetch ops l =
     (if packet_in_transit_bytes_left l \<noteq> 0 then Inr (l, True)
      else if op_empty ops (link_packets l)
      then Inr (l\<lparr>empty_times := empty_times l + 1, dequeue_trace := [], dequeue_rate := 0xffffffff\<rparr>, False)
      else res_bind (op_dequeue ops (envs l 0) (link_packets l)) (\<lambda>(p, q).
        Inr (shift_envs (l\<lparr>link_packets := q, packet_in_transit := p,
                           packet_in_transit_bytes_left := of_nat (pkt_bytes p)\<rparr>), True)))"

definition transit_ok :: "u64 \<Rightarrow> 'q link_queue \<Rightarrow> bool" where
  "transit_ok t l \<longleftrightarrow>
     arrival_time (packet_in_transit l) \<le> t \<and>
     unat (packet_in_transit_bytes_left l) \<le> LINK_PACKET_SIZE \<and>
     0 < packet_in_transit_bytes_left l \<and>
     unat (packet_in_transit_bytes_left l) \<le> pkt_bytes (packet_in_transit l)"

text \<open>The inner loop of \<open>rationalize\<close>: one opportunity of \<open>bytes\<close> bytes at time \<open>t\<close>.\<close>

function deliver :: "'q queue_ops \<Rightarrow> u64 \<Rightarrow> u32 \<Rightarrow> 'q link_queue \<Rightarrow> 'q link_queue res" where
  "deliver ops t bytes l =
     (if bytes = 0 then Inr l
      else res_bind (fetch ops l) (\<lambda>r.
        if \<not> snd r then Inr (fst r)
        else asserting (transit_ok t (fst r))
          (let amount = min bytes (packet_in_transit_bytes_left (fst r));
               l1 = (fst r)\<lparr>packet_in_transit_bytes_left := packet_in_transit_bytes_left (fst r) - amount\<rparr>
           in res_bind (if packet_in_transit_bytes_left l1 = 0 then finish_packet ops t l1 else Inr l1) (\<lambda>l2.
                deliver ops t (bytes - amount) l2))))"
  by pat_completeness auto
termination
proof (relation "measure (\<lambda>(ops, t, bytes, l). unat bytes)", goal_cases)
  case (2 ops t bytes l r amount l1 l2)
  have "0 < amount" and "amount \<le> bytes"
    using 2 by (auto simp: transit_ok_def min_def word_gt_0)
  then have "unat (bytes - amount) < unat bytes"
    by (simp add: unat_sub word_less_nat_alt word_le_nat_alt)
  then show ?case by simp
qed simp

declare deliver.simps [simp del]

text \<open>\<open>rationalize\<close>, with the bound on the opportunities up to \<open>now\<close>.\<close>

fun rationalize_loop :: "nat \<Rightarrow> 'q queue_ops \<Rightarrow> u64 \<Rightarrow> 'q link_queue \<Rightarrow> 'q link_queue res" where
  "rationalize_loop 0 ops now l = Inl Out_of_fuel"
| "rationalize_loop (Suc fuel) ops now l =
     res_bind (next_delivery_time l) (\<lambda>t.
       if t \<le> now
       then res_bind (use_a_delivery_opportunity ops l) (\<lambda>l1.
            res_bind (deliver ops t (of_nat LINK_PACKET_SIZE) l1) (\<lambda>l2. rationalize_loop fuel ops now l2))
       else Inr l)"

definition rationalize_fuel :: "u64 \<Rightarrow> 'q link_queue \<Rightarrow> nat" where
  "rationalize_fuel now l = (unat now + 1) * length (schedule l) + 1"

definition rationalize :: "'q queue_ops \<Rightarrow> u64 \<Rightarrow> 'q link_queue \<Rightarrow> 'q link_queue res" where
  "rationalize ops now l = rationalize_loop (rationalize_fuel now l) ops now l"

subsection \<open>The interface of the link\<close>

definition read_packet :: "'q queue_ops \<Rightarrow> u64 \<Rightarrow> byte list \<Rightarrow> 'q link_queue \<Rightarrow> 'q link_queue res" where
  "read_packet ops now pkt l =
     (if LINK_PACKET_SIZE < length pkt then Inl (Runtime_error ''packet size is greater than maximum'')
      else
        res_bind (rationalize ops now l) (\<lambda>l1.
        res_bind (record_arrival now (length pkt) l1) (\<lambda>l2.
        res_bind (op_size_bytes ops (link_packets l2)) (\<lambda>bytes_before.
        res_bind (op_size_packets ops (link_packets l2)) (\<lambda>packets_before.
        res_bind (op_enqueue ops (envs l2 0) (mk_QueuedPacket pkt now) (link_packets l2)) (\<lambda>q.
        let l3 = shift_envs (l2\<lparr>link_packets := q\<rparr>) in
        res_bind (op_size_packets ops q) (\<lambda>packets_after.
        asserting (packets_after \<le> packets_before + 1)
          (res_bind (op_size_bytes ops q) (\<lambda>bytes_after.
           asserting (unat bytes_after \<le> unat bytes_before + length pkt)
             (let missing_packets = packets_before + 1 - packets_after;
                  missing_bytes = bytes_before + of_nat (length pkt) - bytes_after
              in Inr (if 0 < missing_packets \<or> 0 < missing_bytes
                      then record_drop now missing_packets missing_bytes l3 else l3)))))))))))"

definition wait_time :: "'q queue_ops \<Rightarrow> u64 \<Rightarrow> 'q link_queue \<Rightarrow> (u32 \<times> 'q link_queue) res" where
  "wait_time ops now l =
     res_bind (rationalize ops now l) (\<lambda>l1.
     res_bind (next_delivery_time l1) (\<lambda>t.
       Inr (if t \<le> now then 0 else ucast (t - now), l1)))"

text \<open>\<open>write_packets\<close>: \<open>write\<close> is \<open>FileDescriptor::write\<close> on the descriptor state \<open>w\<close>.\<close>

fun write_outputs :: "(byte list \<Rightarrow> 'w \<Rightarrow> 'w res) \<Rightarrow> byte list list \<Rightarrow> 'w \<Rightarrow> 'w res" where
  "write_outputs write [] w = Inr w"
| "write_outputs write (x # xs) w = res_bind (write x w) (\<lambda>w'. write_outputs write xs w')"

definition write_packets :: "(byte list \<Rightarrow> 'w \<Rightarrow> 'w res) \<Rightarrow> 'w \<Rightarrow> 'q link_queue \<Rightarrow> ('w \<times> 'q link_queue) res" where
  "write_packets write w l =
     res_bind (write_outputs write (output_queue l) w) (\<lambda>w'. Inr (w', l\<lparr>output_queue := []\<rparr>))"

definition pending_output :: "'q link_queue \<Rightarrow> bool" where
  "pending_output l \<longleftrightarrow> output_queue l \<noteq> []"

end
