(* ===== verification/Link_Emulation.thy ===== *)
theory Link_Emulation
  imports Link_Queue
begin

text \<open>
  What the link does with the packets it is given, for every packet queue that meets the contract
  of Packet_Queue.thy: it delivers in order, without altering or inventing packets, at most
  \<open>PACKET_SIZE\<close> bytes per opportunity and no less while there are packets, and, over a reliable
  queue, no assertion of the class ever fails. The link may have meters: \<open>meters_ok\<close> is what they need, and
  \<open>meter_room\<close> the room in the bins of the throughput meter for what can still be counted.
\<close>

section \<open>What the recording functions leave alone\<close>

definition link_core :: "'q link_queue \<Rightarrow> _" where
  "link_core l =
     (next_delivery l, schedule l, base_timestamp l, link_packets l, packet_in_transit l,
      packet_in_transit_bytes_left l, output_queue l, repeat l, finished l, dequeue_rate l)"

lemma link_coreD:
  assumes "link_core l' = link_core l"
  shows "next_delivery l' = next_delivery l" "schedule l' = schedule l" "base_timestamp l' = base_timestamp l"
    "link_packets l' = link_packets l" "packet_in_transit l' = packet_in_transit l"
    "packet_in_transit_bytes_left l' = packet_in_transit_bytes_left l" "output_queue l' = output_queue l"
    "repeat l' = repeat l" "finished l' = finished l" "dequeue_rate l' = dequeue_rate l"
  using assms by (simp_all add: link_core_def)

lemma link_print_core [simp]:
  "link_core (link_print x l) = link_core l"
  "throughput_graph (link_print x l) = throughput_graph l" "delay_graph (link_print x l) = delay_graph l"
  by (simp_all add: link_print_def link_core_def)

lemma shift_envs_core [simp]:
  "link_core (shift_envs l) = link_core l"
  "throughput_graph (shift_envs l) = throughput_graph l" "delay_graph (shift_envs l) = delay_graph l"
  by (simp_all add: shift_envs_def link_core_def)

lemma graph_update_core [simp]:
  "link_core (l\<lparr>throughput_graph := g\<rparr>) = link_core l" "link_core (l\<lparr>delay_graph := g\<rparr>) = link_core l"
  by (simp_all add: link_core_def)

lemma meter_core:
  "meter_throughput n a l = Inr l' \<Longrightarrow> link_core l' = link_core l"
  "meter_delay n a l = Inr l' \<Longrightarrow> link_core l' = link_core l"
  by (auto simp: meter_throughput_def meter_delay_def split: option.splits)

lemma record_arrival_core: "record_arrival t n l = Inr l' \<Longrightarrow> link_core l' = link_core l"
  unfolding record_arrival_def by (drule meter_core(1)) simp

lemma record_departure_opportunity_core:
  "record_departure_opportunity l = Inr l' \<Longrightarrow> link_core l' = link_core l"
  unfolding record_departure_opportunity_def by (auto dest!: meter_core(1) split: if_splits)

lemma record_departure_core: "record_departure ops t p l = Inr l' \<Longrightarrow> link_core l' = link_core l"
  unfolding record_departure_def by (auto dest!: meter_core split: if_splits)

lemma record_drop_core [simp]: "link_core (record_drop t a b l) = link_core l"
  by (simp add: record_drop_def)

section \<open>The packets on their way\<close>

lemma subseq_prepend: "subseq ys zs \<Longrightarrow> subseq (xs @ ys) (xs @ zs)"
  by (rule list_emb_append_mono) simp_all

definition in_transit :: "'q link_queue \<Rightarrow> byte list list" where
  "in_transit l = (if packet_in_transit_bytes_left l = 0 then [] else [contents (packet_in_transit l)])"

text \<open>Everything the link holds, oldest first: delivered, in transit, queued.\<close>

definition pipeline :: "('q \<Rightarrow> QueuedPacket list) \<Rightarrow> 'q link_queue \<Rightarrow> byte list list" where
  "pipeline pkts l = output_queue l @ in_transit l @ map contents (pkts (link_packets l))"

text \<open>The bytes sent so far: the packets delivered and the part sent of the one in transit.\<close>

definition sent_of_transit :: "'q link_queue \<Rightarrow> nat" where
  "sent_of_transit l =
     (if packet_in_transit_bytes_left l = 0 then 0
      else pkt_bytes (packet_in_transit l) - unat (packet_in_transit_bytes_left l))"

definition sent :: "'q link_queue \<Rightarrow> nat" where
  "sent l = sum_list (map length (output_queue l)) + sent_of_transit l"

text \<open>The part of a packet in transit that is left is a part of it.\<close>

definition transit_wf :: "'q link_queue \<Rightarrow> bool" where
  "transit_wf l \<longleftrightarrow> unat (packet_in_transit_bytes_left l) \<le> pkt_bytes (packet_in_transit l) \<or> packet_in_transit_bytes_left l = 0"

lemma pipeline_core: "link_core l' = link_core l \<Longrightarrow> pipeline pkts l' = pipeline pkts l"
  by (simp add: pipeline_def in_transit_def link_core_def)

lemma sent_core: "link_core l' = link_core l \<Longrightarrow> sent l' = sent l \<and> transit_wf l' = transit_wf l \<and> in_transit l' = in_transit l"
  by (simp add: sent_def sent_of_transit_def transit_wf_def in_transit_def link_core_def)

text \<open>The state after \<open>amount\<close> bytes of the packet in transit have been sent, and the step of the loop.\<close>

definition send_bytes :: "u32 \<Rightarrow> 'q link_queue \<Rightarrow> 'q link_queue" where
  "send_bytes amount l = l\<lparr>packet_in_transit_bytes_left := packet_in_transit_bytes_left l - amount\<rparr>"

definition deliver_step :: "'q queue_ops \<Rightarrow> u64 \<Rightarrow> u32 \<Rightarrow> 'q link_queue \<Rightarrow> 'q link_queue res" where
  "deliver_step ops t amount l =
     (if packet_in_transit_bytes_left (send_bytes amount l) = 0
      then finish_packet ops t (send_bytes amount l) else Inr (send_bytes amount l))"

lemma deliver_unfold:
  "deliver ops t bytes l =
     (if bytes = 0 then Inr l
      else res_bind (fetch ops l) (\<lambda>r.
        if \<not> snd r then Inr (fst r)
        else asserting (transit_ok t (fst r))
          (let amount = min bytes (packet_in_transit_bytes_left (fst r))
           in res_bind (deliver_step ops t amount (fst r)) (\<lambda>l2. deliver ops t (bytes - amount) l2))))"
  by (subst deliver.simps) (simp only: deliver_step_def send_bytes_def Let_def)

lemma finish_packet_Inr:
  assumes "finish_packet ops t l = Inr l'"
  shows "output_queue l' = output_queue l @ [contents (packet_in_transit l)]"
    and "link_packets l' = link_packets l" and "packet_in_transit_bytes_left l' = packet_in_transit_bytes_left l"
    and "next_delivery l' = next_delivery l" and "schedule l' = schedule l" and "base_timestamp l' = base_timestamp l"
    and "repeat l' = repeat l" and "finished l' = finished l"
proof -
  let ?p = "packet_in_transit l"
  obtain l1 where r: "record_departure ops t ?p l = Inr l1"
    and l': "l' = l1\<lparr>output_queue := output_queue l1 @ [contents ?p], packet_in_transit := ?p\<lparr>contents := []\<rparr>,
        empty_times := 0, dequeue_rate := measured_rate t (of_nat (pkt_bytes ?p)) (dequeue_trace l1),
        dequeue_trace := trim_trace t (dequeue_trace l1 @ [(t, of_nat (pkt_bytes ?p))])\<rparr>"
    using assms by (auto simp: finish_packet_def Let_def)
  note * = link_coreD [OF record_departure_core [OF r]]
  show "output_queue l' = output_queue l @ [contents (packet_in_transit l)]"
    and "link_packets l' = link_packets l" and "packet_in_transit_bytes_left l' = packet_in_transit_bytes_left l"
    and "next_delivery l' = next_delivery l" and "schedule l' = schedule l" and "base_timestamp l' = base_timestamp l"
    and "repeat l' = repeat l" and "finished l' = finished l"
    by (simp_all add: l' *)
qed

text \<open>
  A step neither loses nor reorders anything, and accounts for the bytes it sends.
\<close>

lemma deliver_step_accounts:
  assumes step: "deliver_step ops t amount l = Inr l'" and ok: "transit_ok t l"
    and pos: "0 < amount" and le: "amount \<le> packet_in_transit_bytes_left l"
  shows "pipeline pkts l' = pipeline pkts l" and "sent l' = sent l + unat amount" and "transit_wf l'"
    and "link_packets l' = link_packets l"
proof -
  let ?left = "packet_in_transit_bytes_left l"
  have left: "?left \<noteq> 0" "unat ?left \<le> pkt_bytes (packet_in_transit l)"
    using ok by (auto simp: transit_ok_def)
  have sub: "unat (?left - amount) = unat ?left - unat amount" "unat amount \<le> unat ?left"
    using le by (simp_all add: unat_sub word_le_nat_alt)
  have "pipeline pkts l' = pipeline pkts l \<and> sent l' = sent l + unat amount \<and> transit_wf l' \<and> link_packets l' = link_packets l"
  proof (cases "?left - amount = 0")
    case True
    then have a: "amount = ?left" by simp
    from step True have f: "finish_packet ops t (send_bytes amount l) = Inr l'"
      by (simp add: deliver_step_def send_bytes_def)
    note * = finish_packet_Inr [OF f]
    then show ?thesis
      using left a True
      by (simp add: send_bytes_def pipeline_def in_transit_def sent_def sent_of_transit_def transit_wf_def)
  next
    case False
    then have "l' = send_bytes amount l"
      using step by (simp add: deliver_step_def send_bytes_def)
    with False left sub show ?thesis
      by (simp add: send_bytes_def pipeline_def in_transit_def sent_def sent_of_transit_def transit_wf_def) linarith
  qed
  then show "pipeline pkts l' = pipeline pkts l" and "sent l' = sent l + unat amount" and "transit_wf l'"
    and "link_packets l' = link_packets l" by simp_all
qed

section \<open>Delivery over any queue that meets the contract\<close>

context packet_queue
begin

lemma fetch_accounts:
  assumes i: "inv (link_packets l)" and w: "transit_wf l" and f: "fetch ops l = Inr (l', have)"
  shows "inv (link_packets l')" and "subseq (pipeline pkts l') (pipeline pkts l)" and "sent l' = sent l"
    and "transit_wf l'" and "\<not> have \<Longrightarrow> pkts (link_packets l') = [] \<and> in_transit l' = []"
proof -
  have "inv (link_packets l') \<and> subseq (pipeline pkts l') (pipeline pkts l) \<and> sent l' = sent l \<and> transit_wf l' \<and>
      (\<not> have \<longrightarrow> pkts (link_packets l') = [] \<and> in_transit l' = [])"
  proof (cases "packet_in_transit_bytes_left l \<noteq> 0 \<or> op_empty ops (link_packets l)")
    case True
    with f i w show ?thesis
      by (auto simp: fetch_def pipeline_def in_transit_def sent_def sent_of_transit_def transit_wf_def op_empty_iff split: if_splits)
  next
    case False
    with f obtain p q where d: "op_dequeue ops (envs l 0) (link_packets l) = Inr (p, q)"
      and l': "l' = shift_envs (l\<lparr>link_packets := q, packet_in_transit := p,
                 packet_in_transit_bytes_left := of_nat (pkt_bytes p)\<rparr>)" and "have"
      by (auto simp: fetch_def)
    have "served (p # pkts q) (pkts (link_packets l))" using dequeue_served [OF i d] .
    then have "subseq (map contents (p # pkts q)) (map contents (pkts (link_packets l)))"
      using subseq_map [of "map stamp (p # pkts q)" "map stamp (pkts (link_packets l))" snd]
      by (simp add: served_def stamp_def comp_def)
    then have sub: "subseq (contents p # map contents (pkts q)) (map contents (pkts (link_packets l)))" by simp
    have "pkt_bytes p \<le> total_bytes (pkts (link_packets l))"
      using served_total_bytes [OF dequeue_served [OF i d]] by simp
    then have small: "pkt_bytes p < 2 ^ 32" using inv_bounds [OF i] by simp
    have t: "in_transit l = []" using False by (simp add: in_transit_def)
    have t': "in_transit l' = (if pkt_bytes p = 0 then [] else [contents p])"
      using small by (auto simp: l' in_transit_def shift_envs_def word_of_nat_eq_0_iff dest: nat_dvd_not_less)
    have "subseq (pipeline pkts l') (pipeline pkts l)"
      using sub subseq_Cons' [OF sub]
      by (simp add: pipeline_def t t') (simp add: l' shift_envs_def subseq_prepend)
    moreover have "sent l' = sent l"
      using False small unat_of_nat_u32 [OF small]
      by (simp add: sent_def sent_of_transit_def l' shift_envs_def)
    moreover have "transit_wf l'"
      using small unat_of_nat_u32 [OF small] by (simp add: transit_wf_def l' shift_envs_def)
    moreover have "inv (link_packets l')" using dequeue_inv [OF i d] by (simp add: l' shift_envs_def)
    ultimately show ?thesis using \<open>have\<close> by simp
  qed
  then show "inv (link_packets l')" and "subseq (pipeline pkts l') (pipeline pkts l)" and "sent l' = sent l"
    and "transit_wf l'" and "\<not> have \<Longrightarrow> pkts (link_packets l') = [] \<and> in_transit l' = []" by simp_all
qed

text \<open>One opportunity: in order, and used up unless the queue has run dry.\<close>

lemma deliver_accounts:
  "deliver ops t bytes l = Inr l' \<Longrightarrow> inv (link_packets l) \<Longrightarrow> transit_wf l \<Longrightarrow>
     inv (link_packets l') \<and> transit_wf l' \<and> subseq (pipeline pkts l') (pipeline pkts l) \<and>
     sent l \<le> sent l' \<and> sent l' \<le> sent l + unat bytes \<and>
     (sent l' = sent l + unat bytes \<or> (pkts (link_packets l') = [] \<and> in_transit l' = []))"
proof (induction "unat bytes" arbitrary: bytes l rule: less_induct)
  case less
  show ?case
  proof (cases "bytes = 0")
    case True
    with less.prems show ?thesis by (subst (asm) deliver_unfold) simp
  next
    case False
    obtain l1 "have" where f: "fetch ops l = Inr (l1, have)"
      using less.prems(1) False by (subst (asm) deliver_unfold) auto
    note fa = fetch_accounts [OF less.prems(2,3) f]
    show ?thesis
    proof (cases "have")
      case no: False
      with less.prems(1) False f have "l' = l1" by (subst (asm) deliver_unfold) simp
      with fa no show ?thesis by simp
    next
      case True
      let ?amount = "min bytes (packet_in_transit_bytes_left l1)"
      from less.prems(1) False f True obtain l2 where ok: "transit_ok t l1"
        and s: "deliver_step ops t ?amount l1 = Inr l2" and r: "deliver ops t (bytes - ?amount) l2 = Inr l'"
        by (subst (asm) deliver_unfold) (auto simp: Let_def)
      have pos: "0 < ?amount" using False ok by (auto simp: transit_ok_def min_def word_gt_0)
      note st = deliver_step_accounts(1) [OF s ok pos min.cobounded2, of pkts]
        deliver_step_accounts(2-4) [OF s ok pos min.cobounded2]
      have sub: "unat (bytes - ?amount) = unat bytes - unat ?amount" "unat ?amount \<le> unat bytes"
        using min.cobounded1 [of bytes "packet_in_transit_bytes_left l1"]
        by (simp_all add: unat_sub word_le_nat_alt)
      moreover have "0 < unat ?amount" using pos by (simp add: word_less_nat_alt)
      ultimately have "unat (bytes - ?amount) < unat bytes" by linarith
      from less.hyps [OF this r] fa st have
        IH: "inv (link_packets l') \<and> transit_wf l' \<and> subseq (pipeline pkts l') (pipeline pkts l2) \<and>
          sent l2 \<le> sent l' \<and> sent l' \<le> sent l2 + unat (bytes - ?amount) \<and>
          (sent l' = sent l2 + unat (bytes - ?amount) \<or> (pkts (link_packets l') = [] \<and> in_transit l' = []))"
        by simp
      moreover have "subseq (pipeline pkts l') (pipeline pkts l)"
        using IH st(1) fa(2) by (metis subseq_order.order_trans)
      ultimately show ?thesis using st(2) fa(3) sub by auto
    qed
  qed
qed


lemma use_opportunity_accounts:
  assumes i: "inv (link_packets l)" and u: "use_a_delivery_opportunity ops l = Inr l'"
  shows "inv (link_packets l')" and "pipeline pkts l' = pipeline pkts l" and "sent l' = sent l"
    and "transit_wf l' = transit_wf l"
proof -
  obtain l1 where r: "record_departure_opportunity l = Inr l1"
    using u by (auto simp: use_a_delivery_opportunity_def)
  note c = link_coreD [OF record_departure_opportunity_core [OF r]]
  have "link_packets l' = op_set_bandwidth ops (dequeue_rate l) (link_packets l) \<and> output_queue l' = output_queue l \<and>
      packet_in_transit l' = packet_in_transit l \<and> packet_in_transit_bytes_left l' = packet_in_transit_bytes_left l"
    using u r by (auto simp: use_a_delivery_opportunity_def Let_def c split: if_splits)
  then show "inv (link_packets l')" and "pipeline pkts l' = pipeline pkts l" and "sent l' = sent l"
    and "transit_wf l' = transit_wf l"
    using bandwidth_inv [OF i] bandwidth_pkts
    by (simp_all add: pipeline_def in_transit_def sent_def sent_of_transit_def transit_wf_def)
qed

text \<open>Emulating the link up to a time keeps what it holds, up to what the queue drops, in order.\<close>

lemma rationalize_loop_accounts:
  "rationalize_loop fuel ops now l = Inr l' \<Longrightarrow> inv (link_packets l) \<Longrightarrow> transit_wf l \<Longrightarrow>
     inv (link_packets l') \<and> transit_wf l' \<and> subseq (pipeline pkts l') (pipeline pkts l) \<and> sent l \<le> sent l'"
proof (induction fuel arbitrary: l)
  case (Suc fuel)
  obtain t where t: "next_delivery_time l = Inr t"
    using Suc.prems(1) by auto
  show ?case
  proof (cases "t \<le> now")
    case False
    with Suc.prems t show ?thesis by simp
  next
    case True
    then obtain l1 l2 where u: "use_a_delivery_opportunity ops l = Inr l1"
      and d: "deliver ops t (of_nat LINK_PACKET_SIZE) l1 = Inr l2" and r: "rationalize_loop fuel ops now l2 = Inr l'"
      using Suc.prems(1) t by auto
    note ua = use_opportunity_accounts [OF Suc.prems(2) u]
    have da: "inv (link_packets l2) \<and> transit_wf l2 \<and> subseq (pipeline pkts l2) (pipeline pkts l1) \<and> sent l1 \<le> sent l2"
      using deliver_accounts [OF d] ua Suc.prems(3) by blast
    with Suc.IH [OF r] have "inv (link_packets l') \<and> transit_wf l' \<and> subseq (pipeline pkts l') (pipeline pkts l2) \<and> sent l2 \<le> sent l'"
      by blast
    with da ua show ?thesis using subseq_order.order_trans by fastforce
  qed
qed simp

lemma read_packet_accounts:
  assumes i: "inv (link_packets l)" and w: "transit_wf l" and r: "read_packet ops now pkt l = Inr l'"
    and fit: "\<And>q. inv q \<Longrightarrow> subseq (map contents (pkts q)) (pipeline pkts l) \<Longrightarrow> fits (mk_QueuedPacket pkt now) (pkts q)"
  shows "inv (link_packets l') \<and> transit_wf l' \<and> subseq (pipeline pkts l') (pipeline pkts l @ [pkt])"
proof -
  let ?p = "mk_QueuedPacket pkt now"
  from r obtain l1 l2 q where l1: "rationalize ops now l = Inr l1" and l2: "record_arrival now (length pkt) l1 = Inr l2"
    and e: "op_enqueue ops (envs l2 0) ?p (link_packets l2) = Inr q"
    and l': "link_core l' = link_core (shift_envs (l2\<lparr>link_packets := q\<rparr>))"
    by (auto simp: read_packet_def Let_def split: if_splits)
  note acc = rationalize_loop_accounts [OF l1 [unfolded rationalize_def] i w]
  note c = record_arrival_core [OF l2]
  have i2: "inv (link_packets l2)" using acc link_coreD(4) [OF c] by simp
  have p2: "pipeline pkts l2 = pipeline pkts l1" using pipeline_core [OF c] .
  have "subseq (map contents (pkts (link_packets l2))) (pipeline pkts l2)"
    by (simp add: pipeline_def list_emb_append2)
  then have fit2: "fits ?p (pkts (link_packets l2))"
    using fit [OF i2] acc p2 subseq_order.order_trans by metis
  have "subseq (map contents (pkts q)) (map contents (pkts (link_packets l2) @ [?p]))"
    using enqueue_served [OF i2 fit2 e] subseq_map [of "map stamp (pkts q)" "map stamp (pkts (link_packets l2) @ [?p])" snd]
    by (simp add: served_def stamp_def comp_def)
  then have "subseq (pipeline pkts l') (pipeline pkts l2 @ [pkt])"
    using pipeline_core [OF l', of pkts]
    by (simp add: pipeline_def in_transit_def shift_envs_def subseq_prepend mk_QueuedPacket_def)
  moreover have "subseq (pipeline pkts l2 @ [pkt]) (pipeline pkts l @ [pkt])"
    using acc p2 list_emb_append_mono [of "(=)" "pipeline pkts l1" "pipeline pkts l" "[pkt]" "[pkt]"] by simp
  moreover have "transit_wf l' = transit_wf l1"
    using sent_core [OF l'] sent_core [OF c] by (simp add: transit_wf_def shift_envs_def)
  moreover have "inv (link_packets l')"
    using enqueue_inv [OF i2 fit2 e] link_coreD(4) [OF l'] by (simp add: shift_envs_def)
  ultimately show ?thesis using acc subseq_order.order_trans by blast
qed

end

section \<open>No assertion fails over a reliable queue\<close>

text \<open>The time of the next opportunity, as a number.\<close>

definition due :: "'q link_queue \<Rightarrow> nat" where
  "due l = (if finished l then 2 ^ 64 - 1 else unat (schedule l ! unat (next_delivery l)) + unat (base_timestamp l))"

text \<open>The trace is usable, the position in it valid, and the current cycle does not overflow the clock.\<close>

definition schedule_ok :: "'q link_queue \<Rightarrow> bool" where
  "schedule_ok l \<longleftrightarrow>
     schedule l \<noteq> [] \<and> sorted (schedule l) \<and> 0 < last (schedule l) \<and> length (schedule l) < 2 ^ 32 \<and>
     unat (next_delivery l) < length (schedule l) \<and> unat (base_timestamp l) + unat (last (schedule l)) < 2 ^ 64"

definition packet_ok :: "nat \<Rightarrow> QueuedPacket \<Rightarrow> bool" where
  "packet_ok T p \<longleftrightarrow> readable (contents p) \<and> pkt_bytes p \<le> LINK_PACKET_SIZE \<and> unat (arrival_time p) \<le> T"

text \<open>
  The meters, where the link has them, are those the constructor makes: the throughput meter counts
  three series, the delay meter keeps the maximum of one.
\<close>

definition meters_ok :: "'q link_queue \<Rightarrow> bool" where
  "meters_ok l \<longleftrightarrow> (\<forall>g. throughput_graph l = Some g \<longrightarrow> counting_meter 3 g) \<and> (\<forall>g. delay_graph l = Some g \<longrightarrow> maximum_meter 1 g)"

text \<open>
  What can still be counted in the current bins of the throughput meter before one of them exceeds
  the largest \<open>int\<close>: bytes of opportunities, of arrivals, and of departures, where a packet in
  transit is counted as a whole when it departs.
\<close>

definition counted_in :: "nat \<Rightarrow> 'q link_queue \<Rightarrow> nat" where
  "counted_in i l = (case throughput_graph l of None \<Rightarrow> 0 | Some g \<Rightarrow> unat (value_this_bin g ! i))"

definition bin_room :: "nat \<Rightarrow> nat \<Rightarrow> nat \<Rightarrow> 'q link_queue \<Rightarrow> bool" where
  "bin_room opportunities arrivals departures l \<longleftrightarrow>
     (throughput_graph l \<noteq> None \<longrightarrow>
        counted_in 0 l + opportunities < 2 ^ 31 \<and> counted_in 1 l + arrivals < 2 ^ 31 \<and>
        counted_in 2 l + sent_of_transit l + departures < 2 ^ 31)"

text \<open>Every packet the link holds has the size of a packet and arrived by the time \<open>T\<close>.\<close>

definition traffic_ok :: "('q \<Rightarrow> QueuedPacket list) \<Rightarrow> ('q \<Rightarrow> bool) \<Rightarrow> nat \<Rightarrow> 'q link_queue \<Rightarrow> bool" where
  "traffic_ok pkts qinv T l \<longleftrightarrow>
     qinv (link_packets l) \<and> (\<forall>p \<in> set (pkts (link_packets l)). packet_ok T p) \<and>
     (packet_in_transit_bytes_left l \<noteq> 0 \<longrightarrow>
        packet_ok T (packet_in_transit l) \<and>
        unat (packet_in_transit_bytes_left l) \<le> pkt_bytes (packet_in_transit l)) \<and>
     meters_ok l"

definition link_ok :: "('q \<Rightarrow> QueuedPacket list) \<Rightarrow> ('q \<Rightarrow> bool) \<Rightarrow> 'q link_queue \<Rightarrow> bool" where
  "link_ok pkts qinv l \<longleftrightarrow> schedule_ok l \<and> traffic_ok pkts qinv (due l) l"

lemma packet_ok_stamp: "stamp p = stamp p' \<Longrightarrow> packet_ok T p = packet_ok T p'"
  by (simp add: packet_ok_def stamp_def)

lemma packet_ok_mono: "packet_ok T p \<Longrightarrow> T \<le> T' \<Longrightarrow> packet_ok T' p"
  by (auto simp: packet_ok_def)

lemma traffic_ok_mono: "traffic_ok pkts qinv T l \<Longrightarrow> T \<le> T' \<Longrightarrow> traffic_ok pkts qinv T' l"
  by (auto simp: traffic_ok_def intro: packet_ok_mono)

text \<open>The part of the state that the position in the schedule depends on.\<close>

definition position :: "'q link_queue \<Rightarrow> _" where
  "position l = (next_delivery l, schedule l, base_timestamp l, repeat l, finished l)"

lemma position_ok: "position l' = position l \<Longrightarrow> schedule_ok l' = schedule_ok l \<and> due l' = due l"
  by (simp add: position_def schedule_ok_def due_def)

lemma core_position: "link_core l' = link_core l \<Longrightarrow> position l' = position l"
  by (simp add: link_core_def position_def)

lemma sent_of_transit_core: "link_core l' = link_core l \<Longrightarrow> sent_of_transit l' = sent_of_transit l"
  by (simp add: sent_of_transit_def link_core_def)

lemma bin_room_mono: "bin_room a b c l \<Longrightarrow> a' \<le> a \<Longrightarrow> b' \<le> b \<Longrightarrow> c' \<le> c \<Longrightarrow> bin_room a' b' c' l"
  by (auto simp: bin_room_def)

text \<open>Operations that do not touch the meters.\<close>

lemma same_meters:
  assumes "throughput_graph l' = throughput_graph l" and "delay_graph l' = delay_graph l"
  shows "meters_ok l' = meters_ok l" and "sent_of_transit l' = sent_of_transit l \<Longrightarrow> bin_room a b c l' = bin_room a b c l"
  using assms by (simp_all add: meters_ok_def bin_room_def counted_in_def)

lemma meters_update [simp]:
  "meters_ok (l\<lparr>next_delivery := nd\<rparr>) = meters_ok l" "bin_room a b c (l\<lparr>next_delivery := nd\<rparr>) = bin_room a b c l"
  "meters_ok (l\<lparr>link_packets := q\<rparr>) = meters_ok l" "bin_room a b c (l\<lparr>link_packets := q\<rparr>) = bin_room a b c l"
  "meters_ok (l\<lparr>base_timestamp := t\<rparr>) = meters_ok l" "bin_room a b c (l\<lparr>base_timestamp := t\<rparr>) = bin_room a b c l"
  "meters_ok (l\<lparr>finished := f\<rparr>) = meters_ok l" "bin_room a b c (l\<lparr>finished := f\<rparr>) = bin_room a b c l"
  "meters_ok (send_bytes n l) = meters_ok l" "meters_ok (shift_envs l) = meters_ok l"
  by (simp_all add: meters_ok_def bin_room_def counted_in_def sent_of_transit_def send_bytes_def shift_envs_def)

text \<open>A call to a meter returns when its bin has room, and uses up the room.\<close>

lemma meter_throughput_returns:
  assumes ok: "meters_ok l" and num: "num < 3" and room: "throughput_graph l \<noteq> None \<longrightarrow> counted_in num l + unat amount < 2 ^ 31"
  shows "\<exists>l'. meter_throughput num amount l = Inr l' \<and> meters_ok l' \<and> link_core l' = link_core l \<and> link_log l' = link_log l \<and>
     (throughput_graph l' = None \<longleftrightarrow> throughput_graph l = None) \<and>
     (\<forall>i < 3. counted_in i l' \<le> counted_in i l + (if i = num then unat amount else 0))"
proof (cases "throughput_graph l")
  case None
  then show ?thesis using ok by (simp add: meter_throughput_def)
next
  case (Some g)
  then have "counting_meter 3 g" "unat (value_this_bin g ! num) + unat amount < 2 ^ 31"
    using ok room by (simp_all add: meters_ok_def counted_in_def)
  from add_value_now_returns [OF this(1) num this(2), of "meter_clock (envs l 0) 0"]
  obtain g' where g': "add_value_now (meter_clock (envs l 0) 0) num amount g = Inr g'" "counting_meter 3 g'"
      "\<forall>i < 3. unat (value_this_bin g' ! i) \<le> unat (value_this_bin g ! i) + (if i = num then unat amount else 0)" by blast
  let ?l = "shift_envs l\<lparr>throughput_graph := Some g'\<rparr>"
  have "meter_throughput num amount l = Inr ?l" using Some g'(1) by (simp add: meter_throughput_def)
  moreover have "meters_ok ?l" using ok g'(2) by (simp add: meters_ok_def shift_envs_def)
  moreover have "link_core ?l = link_core l" "link_log ?l = link_log l" by (simp_all add: link_core_def shift_envs_def)
  moreover have "counted_in i ?l \<le> counted_in i l + (if i = num then unat amount else 0)" if "i < 3" for i
    using g'(3) that Some by (simp add: counted_in_def)
  ultimately show ?thesis using Some by (intro exI [of _ ?l]) simp
qed

lemma meter_delay_returns:
  assumes ok: "meters_ok l"
  shows "\<exists>l'. meter_delay 0 amount l = Inr l' \<and> meters_ok l' \<and> throughput_graph l' = throughput_graph l \<and> link_core l' = link_core l"
proof (cases "delay_graph l")
  case None
  then show ?thesis using ok by (simp add: meter_delay_def)
next
  case (Some g)
  then have "maximum_meter 1 g" using ok by (simp add: meters_ok_def)
  then obtain g' where "set_max_value_now (meter_clock (envs l 0) 0) 0 amount g = Inr g'" "maximum_meter 1 g'"
    using set_max_value_now_returns [OF _ zero_less_one] by blast
  then show ?thesis using Some ok by (simp add: meter_delay_def meters_ok_def shift_envs_def link_core_def)
qed

lemma sorted_nth_last:
  assumes "sorted xs" and "i < length xs"
  shows "xs ! i \<le> last xs"
proof -
  have "last xs = xs ! (length xs - 1)" using assms(2) by (intro last_conv_nth) auto
  then show ?thesis using sorted_nth_mono [OF assms(1), of i "length xs - 1"] assms(2) by simp
qed

lemma next_delivery_time_due:
  assumes "schedule_ok l"
  shows "\<exists>t. next_delivery_time l = Inr t \<and> unat t = due l"
proof (cases "finished l")
  case True
  then show ?thesis by (simp add: next_delivery_time_def due_def unsigned_minus_1_eq_mask mask_eq_exp_minus_1)
next
  case False
  let ?s = "schedule l ! unat (next_delivery l)"
  have "?s \<le> last (schedule l)" using assms by (intro sorted_nth_last) (auto simp: schedule_ok_def)
  then have "unat ?s + unat (base_timestamp l) < 2 ^ 64"
    using assms by (simp add: schedule_ok_def word_le_nat_alt)
  then have "unat (?s + base_timestamp l) = unat ?s + unat (base_timestamp l)"
    by (intro unat_add_small) simp
  with False assms show ?thesis by (simp add: next_delivery_time_def due_def schedule_ok_def)
qed

lemma link_print_meters:
  "meters_ok (link_print x l) = meters_ok l" "bin_room a b c (link_print x l) = bin_room a b c l"
  "counted_in i (link_print x l) = counted_in i l"
  using sent_of_transit_core [OF link_print_core(1) [of x l]] same_meters [of "link_print x l" l]
  by (simp_all add: counted_in_def)

lemma record_departure_opportunity_returns:
  assumes ok: "schedule_ok l" and m: "meters_ok l" and room: "bin_room (LINK_PACKET_SIZE + a) b c l"
  shows "\<exists>l'. record_departure_opportunity l = Inr l' \<and> meters_ok l' \<and> bin_room a b c l'"
proof -
  obtain t where t: "next_delivery_time l = Inr t" using next_delivery_time_due [OF ok] by blast
  define l1 where "l1 = (if link_log l = None then l else link_print (Opportunity t LINK_PACKET_SIZE) l)"
  have l1: "meters_ok l1" "bin_room (LINK_PACKET_SIZE + a) b c l1" using m room by (simp_all add: l1_def link_print_meters)
  have room0: "throughput_graph l1 \<noteq> None \<longrightarrow> counted_in 0 l1 + unat (of_nat LINK_PACKET_SIZE :: u32) < 2 ^ 31"
    using l1(2) by (auto simp: bin_room_def LINK_PACKET_SIZE_def)
  have w: "unat (of_nat LINK_PACKET_SIZE :: u32) = 1504" by (simp add: LINK_PACKET_SIZE_def)
  from meter_throughput_returns [OF l1(1) _ room0, unfolded w] obtain l' where l': "meter_throughput 0 (of_nat LINK_PACKET_SIZE) l1 = Inr l'"
      "meters_ok l'" "link_core l' = link_core l1" "throughput_graph l' = None \<longleftrightarrow> throughput_graph l1 = None"
      "\<forall>i < 3. counted_in i l' \<le> counted_in i l1 + (if i = 0 then 1504 else 0)" by auto
  have "bin_room a b c l'"
    using l1(2) l'(4) l'(5) [rule_format, of 0] l'(5) [rule_format, of 1] l'(5) [rule_format, of 2] sent_of_transit_core [OF l'(3)]
    by (auto simp: bin_room_def LINK_PACKET_SIZE_def)
  moreover have "record_departure_opportunity l = Inr l'"
    using t l'(1) by (cases "link_log l") (simp_all add: record_departure_opportunity_def l1_def)
  ultimately show ?thesis using l'(2) by blast
qed

text \<open>
  Using an opportunity: the next one is not earlier, and the number of opportunities that are
  left up to \<open>now\<close> goes down.
\<close>

definition opportunities_left :: "u64 \<Rightarrow> 'q link_queue \<Rightarrow> nat" where
  "opportunities_left now l = (unat now + 1 - unat (base_timestamp l)) * length (schedule l) - unat (next_delivery l)"

text \<open>
  The bins of the throughput meter have room for the opportunities up to \<open>now\<close> and one more packet.
  A link without this meter always has.
\<close>

definition meter_room :: "u64 \<Rightarrow> 'q link_queue \<Rightarrow> bool" where
  "meter_room now l \<longleftrightarrow>
     bin_room (LINK_PACKET_SIZE * opportunities_left now l) LINK_PACKET_SIZE (LINK_PACKET_SIZE * opportunities_left now l) l"

lemma meter_room_unmetered: "throughput_graph l = None \<Longrightarrow> meter_room now l"
  by (simp add: meter_room_def bin_room_def)

lemma cycle_advances:
  assumes b: "b \<le> n" and "0 < s" and c: "(0 :: nat) < c"
  shows "(n + 1 - (b + c)) * s < (n + 1 - b) * s - (s - 1)"
proof -
  have "n + 1 - (b + c) \<le> n - b" using c by simp
  then have "(n + 1 - (b + c)) * s \<le> (n - b) * s" by (rule mult_le_mono1)
  moreover have "(n + 1 - b) * s = (n - b) * s + s" using b by (simp add: Suc_diff_le)
  ultimately show ?thesis using \<open>0 < s\<close> by linarith
qed

lemma next_index:
  assumes "schedule_ok l"
  shows "unat (of_nat (unat (next_delivery l + 1) mod length (schedule l)) :: u32) =
     (if unat (next_delivery l) + 1 = length (schedule l) then 0 else unat (next_delivery l) + 1)"
proof -
  let ?n = "length (schedule l)"
  have n: "unat (next_delivery l) < ?n" "?n < 2 ^ 32" using assms by (simp_all add: schedule_ok_def)
  then have "unat (next_delivery l + 1) = unat (next_delivery l) + 1"
    using unat_add_small [of "next_delivery l" 1] by simp
  moreover have "unat (of_nat (k mod ?n) :: u32) = k mod ?n" for k
  proof (rule unat_of_nat_u32)
    show "k mod ?n < 2 ^ 32" using n mod_less_divisor [of ?n k] by linarith
  qed
  ultimately show ?thesis using n by simp
qed

lemma use_opportunity_position:
  assumes ok: "schedule_ok l" and fin: "\<not> finished l" and past: "due l \<le> unat now"
    and now: "unat now + unat (last (schedule l)) < 2 ^ 64" and g: "meters_ok l" and room: "bin_room (LINK_PACKET_SIZE + a) b c l"
  shows "\<exists>l'. use_a_delivery_opportunity ops l = Inr l' \<and> schedule_ok l' \<and> due l \<le> due l' \<and> schedule l' = schedule l \<and>
     link_packets l' = op_set_bandwidth ops (dequeue_rate l) (link_packets l) \<and>
     packet_in_transit l' = packet_in_transit l \<and>
     packet_in_transit_bytes_left l' = packet_in_transit_bytes_left l \<and>
     meters_ok l' \<and> bin_room a b c l' \<and>
     1 \<le> opportunities_left now l \<and>
     (finished l' \<or> opportunities_left now l' < opportunities_left now l)"
proof -
  obtain l1 where r: "record_departure_opportunity l = Inr l1" and g1: "meters_ok l1" "bin_room a b c l1"
    using record_departure_opportunity_returns [OF ok g room] by blast
  note c = link_coreD [OF record_departure_opportunity_core [OF r]]
  let ?n = "length (schedule l)" and ?nd = "(of_nat (unat (next_delivery l + 1) mod length (schedule l)) :: u32)"
  let ?i = "unat (next_delivery l)" and ?b = "unat (base_timestamp l)" and ?c = "unat (last (schedule l))"
  let ?l2 = "l1\<lparr>next_delivery := ?nd, link_packets := op_set_bandwidth ops (dequeue_rate l) (link_packets l)\<rparr>"
  have s: "schedule l \<noteq> []" "sorted (schedule l)" "0 < ?c" "?i < ?n" "?n < 2 ^ 32" "?b + ?c < 2 ^ 64"
    using ok by (simp_all add: schedule_ok_def word_gt_0 unat_gt_0)
  have due: "due l = unat (schedule l ! ?i) + ?b" using fin by (simp add: due_def)
  then have b: "?b \<le> unat now" using past by simp
  have left: "1 \<le> opportunities_left now l"
  proof -
    have "?n \<le> (unat now + 1 - ?b) * ?n" using b by (simp add: Suc_diff_le)
    then show ?thesis unfolding opportunities_left_def using s(4) by linarith
  qed
  have u: "use_a_delivery_opportunity ops l = Inr (if ?nd \<noteq> 0 then ?l2
      else if repeat l then ?l2\<lparr>base_timestamp := base_timestamp l + last (schedule l)\<rparr> else ?l2\<lparr>finished := True\<rparr>)"
    using r s(1) by (simp add: use_a_delivery_opportunity_def Let_def c)
  show ?thesis
  proof (cases "?i + 1 = ?n")
    case False
    then have nd: "unat ?nd = ?i + 1" using next_index [OF ok] by simp
    then have nz: "?nd \<noteq> 0" by (metis add_eq_0_iff_both_eq_0 one_neq_zero unat_0)
    have "schedule l ! ?i \<le> schedule l ! (?i + 1)"
      using s(2,4) False by (intro sorted_nth_mono) auto
    then have "due l \<le> due ?l2" using fin by (simp add: due due_def c nd word_le_nat_alt)
    moreover have "schedule_ok ?l2" using s ok nd False by (simp add: schedule_ok_def c)
    moreover have "?i + 1 \<le> (unat now + 1 - ?b) * ?n"
      using s(4) b by (simp add: Suc_diff_le trans_le_add1)
    then have "opportunities_left now ?l2 < opportunities_left now l"
      using left by (simp add: opportunities_left_def c nd)
    ultimately show ?thesis using u nz left g1 by (simp add: c)
  next
    case wrap: True
    then have z: "?nd = 0" using next_index [OF ok] by (simp add: unat_eq_zero)
    have lst: "schedule l ! ?i = last (schedule l)" using wrap s(1) by (simp add: last_conv_nth flip: wrap)
    show ?thesis
    proof (cases "repeat l")
      case False
      let ?l3 = "?l2\<lparr>finished := True\<rparr>"
      have "schedule_ok ?l3" using s ok z by (simp add: schedule_ok_def c)
      moreover have "unat now < 2 ^ 64" using now by linarith
      then have "due l \<le> 2 ^ 64 - 1" using past by linarith
      then have "due l \<le> due ?l3" by (simp add: due_def [of ?l3])
      ultimately show ?thesis using u z False left g1 by (simp add: c)
    next
      case True
      let ?l3 = "?l2\<lparr>base_timestamp := base_timestamp l + last (schedule l)\<rparr>"
      have nb: "unat (base_timestamp l + last (schedule l)) = ?b + ?c"
        using s(6) by (intro unat_add_small) simp
      have "?b + ?c \<le> unat now" using past by (simp add: due lst)
      then have "schedule_ok ?l3" using s ok z now by (simp add: schedule_ok_def c nb)
      moreover have "due l \<le> due ?l3" using fin z by (simp add: due lst due_def c nb)
      moreover have "opportunities_left now ?l3 < opportunities_left now l"
      proof -
        have "(unat now + 1 - (?b + ?c)) * ?n < (unat now + 1 - ?b) * ?n - (?n - 1)"
          by (rule cycle_advances [OF b _ s(3)]) (use s(1) in simp)
        moreover have "?n - 1 = ?i" using wrap by simp
        moreover have "opportunities_left now ?l3 = (unat now + 1 - (?b + ?c)) * ?n"
          by (simp add: opportunities_left_def c nb z)
        ultimately show ?thesis by (simp only: opportunities_left_def [of now l])
      qed
      ultimately show ?thesis using u z True left g1 by (simp add: c)
    qed
  qed
qed

context reliable_packet_queue
begin

abbreviation traffic :: "nat \<Rightarrow> 'a link_queue \<Rightarrow> bool" where
  "traffic \<equiv> traffic_ok pkts inv"

lemma fetch_total:
  assumes ok: "traffic (unat t) l"
  shows "\<exists>l' have. fetch ops l = Inr (l', have) \<and> traffic (unat t) l' \<and> position l' = position l \<and>
     served (pkts (link_packets l')) (pkts (link_packets l)) \<and> (have \<longrightarrow> transit_ok t l') \<and>
     (\<forall>a b c. bin_room a b c l \<longrightarrow> bin_room a b c l')"
proof (cases "packet_in_transit_bytes_left l \<noteq> 0 \<or> op_empty ops (link_packets l)")
  case True
  have "transit_ok t l" if "packet_in_transit_bytes_left l \<noteq> 0"
    using ok that by (auto simp: traffic_ok_def transit_ok_def packet_ok_def word_le_nat_alt word_gt_0)
  with True ok show ?thesis
    by (auto simp: fetch_def traffic_ok_def position_def meters_ok_def bin_room_def counted_in_def sent_of_transit_def)
next
  case False
  have i: "inv (link_packets l)" and ps: "\<forall>p \<in> set (pkts (link_packets l)). packet_ok (unat t) p"
    using ok by (simp_all add: traffic_ok_def)
  have ne: "pkts (link_packets l) \<noteq> []" using False op_empty_iff by blast
  have "\<forall>p \<in> set (pkts (link_packets l)). readable (contents p)" using ps by (simp add: packet_ok_def)
  then obtain p q where d: "op_dequeue ops (envs l 0) (link_packets l) = Inr (p, q)"
    using dequeue_returns [OF i ne] by blast
  let ?l = "shift_envs (l\<lparr>link_packets := q, packet_in_transit := p,
                           packet_in_transit_bytes_left := of_nat (pkt_bytes p)\<rparr>)"
  have sv: "served (p # pkts q) (pkts (link_packets l))" using dequeue_served [OF i d] .
  have all: "\<forall>x \<in> set (p # pkts q). packet_ok (unat t) x"
    using served_all [OF sv, of "packet_ok (unat t)"] packet_ok_stamp ps by blast
  then have p: "packet_ok (unat t) p" by simp
  then have b: "43 \<le> pkt_bytes p" "pkt_bytes p \<le> 1504" by (simp_all add: packet_ok_def LINK_PACKET_SIZE_def)
  then have u: "unat (of_nat (pkt_bytes p) :: u32) = pkt_bytes p" by (intro unat_of_nat_u32) simp
  have "transit_ok t ?l"
    using p b u by (auto simp: transit_ok_def shift_envs_def packet_ok_def word_le_nat_alt word_less_nat_alt)
  moreover have "traffic (unat t) ?l"
    using ok all p u dequeue_inv [OF i d] by (simp add: traffic_ok_def shift_envs_def meters_ok_def)
  moreover have "bin_room a b c l \<longrightarrow> bin_room a b c ?l" for a b c
    using False u by (simp add: bin_room_def counted_in_def sent_of_transit_def shift_envs_def)
  moreover have "fetch ops l = Inr (?l, True)" using False d by (simp add: fetch_def)
  moreover have "position ?l = position l" by (simp add: position_def shift_envs_def)
  ultimately show ?thesis using served_tail [OF sv] by (auto simp: shift_envs_def)
qed

lemma finish_packet_total:
  assumes i: "inv (link_packets l)" and m: "meters_ok l" and small: "pkt_bytes (packet_in_transit l) \<le> LINK_PACKET_SIZE"
    and room: "throughput_graph l \<noteq> None \<longrightarrow> counted_in 2 l + pkt_bytes (packet_in_transit l) < 2 ^ 31"
  shows "\<exists>l'. finish_packet ops t l = Inr l' \<and> meters_ok l' \<and> (throughput_graph l' = None \<longleftrightarrow> throughput_graph l = None) \<and>
     (\<forall>i < 3. counted_in i l' \<le> counted_in i l + (if i = 2 then pkt_bytes (packet_in_transit l) else 0))"
proof -
  let ?p = "packet_in_transit l"
  define l1 where "l1 = (if link_log l = None then l
    else link_print (Departure t (pkt_bytes ?p) (t - arrival_time ?p) (of_nat (length (pkts (link_packets l))))) l)"
  have l1: "meters_ok l1" "counted_in i l1 = counted_in i l" "throughput_graph l1 = throughput_graph l" for i
    using m by (simp_all add: l1_def link_print_meters)
  have u: "unat (of_nat (pkt_bytes ?p) :: u32) = pkt_bytes ?p"
    using small by (intro unat_of_nat_u32) (simp add: LINK_PACKET_SIZE_def)
  from meter_throughput_returns [OF l1(1), of 2 "of_nat (pkt_bytes ?p)", unfolded u l1(2,3)] room
  obtain l2 where l2: "meter_throughput 2 (of_nat (pkt_bytes ?p)) l1 = Inr l2" "meters_ok l2"
      "throughput_graph l2 = None \<longleftrightarrow> throughput_graph l = None"
      "\<forall>i < 3. counted_in i l2 \<le> counted_in i l + (if i = 2 then pkt_bytes ?p else 0)"
    by auto
  from meter_delay_returns [OF l2(2)] obtain l3 where l3: "meter_delay 0 (ucast (t - arrival_time ?p)) l2 = Inr l3"
      "meters_ok l3" "throughput_graph l3 = throughput_graph l2" by blast
  have "record_departure ops t ?p l = Inr l3"
    using l2(1) l3(1) op_size_packets_eq [OF i] by (cases "link_log l") (simp_all add: record_departure_def l1_def)
  moreover have "counted_in i l3 = counted_in i l2" for i using l3(3) by (simp add: counted_in_def)
  ultimately show ?thesis using l2(3,4) l3(2,3) by (simp add: finish_packet_def Let_def meters_ok_def counted_in_def)
qed

lemma deliver_step_total:
  assumes ok: "traffic T l" and le: "amount \<le> packet_in_transit_bytes_left l" and nz: "packet_in_transit_bytes_left l \<noteq> 0"
    and room: "bin_room a b (unat amount + c) l"
  shows "\<exists>l'. deliver_step ops t amount l = Inr l' \<and> traffic T l' \<and> position l' = position l \<and>
     link_packets l' = link_packets l \<and> bin_room a b c l'"
proof -
  let ?l = "send_bytes amount l"
  have len: "unat (packet_in_transit_bytes_left l) \<le> pkt_bytes (packet_in_transit l)"
      "pkt_bytes (packet_in_transit l) \<le> LINK_PACKET_SIZE"
    using ok nz by (simp_all add: traffic_ok_def packet_ok_def)
  have sub: "unat (packet_in_transit_bytes_left l - amount) = unat (packet_in_transit_bytes_left l) - unat amount"
      "unat amount \<le> unat (packet_in_transit_bytes_left l)"
    using le by (simp_all add: unat_sub word_le_nat_alt)
  show ?thesis
  proof (cases "packet_in_transit_bytes_left l - amount = 0")
    case True
    then have am: "unat amount = unat (packet_in_transit_bytes_left l)" by simp
    have i: "inv (link_packets ?l)" and g: "meters_ok ?l" and p: "packet_in_transit ?l = packet_in_transit l"
      and k: "counted_in j ?l = counted_in j l" "throughput_graph ?l = throughput_graph l" for j
      using ok by (simp_all add: traffic_ok_def) (simp_all add: send_bytes_def counted_in_def)
    have "throughput_graph l \<noteq> None \<longrightarrow> counted_in 2 l + pkt_bytes (packet_in_transit l) < 2 ^ 31"
      using room nz am len by (auto simp: bin_room_def sent_of_transit_def)
    from finish_packet_total [OF i g, unfolded p k, OF len(2) this, of t] obtain l' where f: "finish_packet ops t ?l = Inr l'" and g': "meters_ok l'"
      and n: "throughput_graph l' = None \<longleftrightarrow> throughput_graph l = None"
      and r: "\<forall>i < 3. counted_in i l' \<le> counted_in i l + (if i = 2 then pkt_bytes (packet_in_transit l) else 0)"
      by auto
    note * = finish_packet_Inr [OF f]
    have z: "packet_in_transit_bytes_left l' = 0" using True by (simp add: * send_bytes_def)
    then have "traffic T l'" using ok g' by (simp add: traffic_ok_def * send_bytes_def)
    moreover have "position l' = position l" by (simp add: position_def * send_bytes_def)
    moreover have "bin_room a b c l'"
      using room n r [rule_format, of 0] r [rule_format, of 1] r [rule_format, of 2] nz len(1) z
      by (auto simp: bin_room_def sent_of_transit_def am)
    ultimately show ?thesis using f True * by (simp add: deliver_step_def send_bytes_def)
  next
    case False
    have "traffic T ?l" using ok nz sub by (auto simp: traffic_ok_def) (simp_all add: send_bytes_def)
    moreover have "position ?l = position l" by (simp add: position_def send_bytes_def)
    moreover have "bin_room a b c ?l"
      using room nz False len(1) sub by (auto simp: bin_room_def sent_of_transit_def send_bytes_def counted_in_def)
    ultimately show ?thesis using False by (simp add: deliver_step_def send_bytes_def)
  qed
qed

lemma deliver_total:
  "traffic (unat t) l \<Longrightarrow> bin_room a b (unat bytes + c) l \<Longrightarrow>
     \<exists>l'. deliver ops t bytes l = Inr l' \<and> traffic (unat t) l' \<and> position l' = position l \<and>
       served (pkts (link_packets l')) (pkts (link_packets l)) \<and> bin_room a b c l'"
proof (induction "unat bytes" arbitrary: bytes l rule: less_induct)
  case less
  obtain l1 "have" where f: "fetch ops l = Inr (l1, have)" and t1: "traffic (unat t) l1" and p1: "position l1 = position l"
    and s1: "served (pkts (link_packets l1)) (pkts (link_packets l))" and tr: "have \<longrightarrow> transit_ok t l1"
    and r1: "bin_room a b (unat bytes + c) l1"
    using fetch_total [OF less.prems(1)] less.prems(2) by blast
  show ?case
  proof (cases "bytes = 0 \<or> \<not> have")
    case True
    have "bin_room a b c l" "bin_room a b c l1" using less.prems(2) r1 by (auto elim: bin_room_mono)
    with f True less.prems t1 p1 s1 show ?thesis by (subst deliver_unfold) auto
  next
    case False
    let ?amount = "min bytes (packet_in_transit_bytes_left l1)"
    have ok: "transit_ok t l1" using False tr by simp
    then have nz: "packet_in_transit_bytes_left l1 \<noteq> 0" by (auto simp: transit_ok_def)
    have sub: "unat (bytes - ?amount) = unat bytes - unat ?amount" "unat ?amount \<le> unat bytes"
      by (simp_all add: unat_sub word_le_nat_alt [symmetric])
    then have "unat bytes + c = unat ?amount + (unat (bytes - ?amount) + c)" by simp
    with r1 have "bin_room a b (unat ?amount + (unat (bytes - ?amount) + c)) l1" by simp
    from deliver_step_total [OF t1 min.cobounded2 nz this]
    obtain l2 where st: "deliver_step ops t ?amount l1 = Inr l2" and t2: "traffic (unat t) l2"
      and p2: "position l2 = position l1" and q2: "link_packets l2 = link_packets l1"
      and r2: "bin_room a b (unat (bytes - ?amount) + c) l2" by blast
    have "0 < ?amount" using False nz by (auto simp: min_def word_gt_0)
    moreover have "?amount \<le> bytes" by simp
    ultimately have "unat (bytes - ?amount) < unat bytes"
      by (simp add: unat_sub word_less_nat_alt word_le_nat_alt)
    from less.hyps [OF this t2 r2] obtain l' where "deliver ops t (bytes - ?amount) l2 = Inr l'" "traffic (unat t) l'"
      "position l' = position l2" "served (pkts (link_packets l')) (pkts (link_packets l2))" "bin_room a b c l'" by blast
    moreover from this have "deliver ops t bytes l = Inr l'"
      using False f ok st by (subst deliver_unfold) (simp add: Let_def)
    ultimately show ?thesis using p1 p2 q2 s1 served_trans by metis
  qed
qed

lemma rationalize_loop_total:
  "link_ok pkts inv l \<Longrightarrow> unat now + unat (last (schedule l)) < 2 ^ 64 \<Longrightarrow> 0 < fuel \<Longrightarrow>
     finished l \<or> opportunities_left now l < fuel \<Longrightarrow> finished l \<or> opportunities_left now l \<le> k \<Longrightarrow>
     bin_room (LINK_PACKET_SIZE * k + a) b (LINK_PACKET_SIZE * k + c) l \<Longrightarrow>
     \<exists>l'. rationalize_loop fuel ops now l = Inr l' \<and> link_ok pkts inv l' \<and> unat now < due l' \<and> schedule l' = schedule l \<and>
       served (pkts (link_packets l')) (pkts (link_packets l)) \<and> bin_room a b c l'"
proof (induction fuel arbitrary: l k)
  case (Suc fuel)
  have sok: "schedule_ok l" and tok: "traffic (due l) l" using Suc.prems(1) by (simp_all add: link_ok_def)
  obtain t where t: "next_delivery_time l = Inr t" and ut: "unat t = due l"
    using next_delivery_time_due [OF sok] by blast
  show ?case
  proof (cases "t \<le> now")
    case False
    have "bin_room a b c l" using Suc.prems(6) by (rule bin_room_mono) simp_all
    with False t ut Suc.prems(1) show ?thesis by (auto simp: word_le_nat_alt)
  next
    case True
    then have past: "due l \<le> unat now" by (simp add: word_le_nat_alt ut)
    have "0 < unat (last (schedule l))" using sok by (simp add: schedule_ok_def word_gt_0 unat_gt_0)
    then have fin: "\<not> finished l" using past Suc.prems(2) by (auto simp: due_def)
    have g: "meters_ok l" using tok by (simp add: traffic_ok_def)
    have "1 \<le> opportunities_left now l"
    proof -
      have "length (schedule l) \<le> (unat now + 1 - unat (base_timestamp l)) * length (schedule l)"
        using past fin by (simp add: due_def Suc_diff_le)
      moreover have "unat (next_delivery l) < length (schedule l)" using sok by (simp add: schedule_ok_def)
      ultimately show ?thesis unfolding opportunities_left_def by linarith
    qed
    with fin Suc.prems(5) obtain k' where k: "k = Suc k'" by (cases k) simp_all
    have room: "bin_room (LINK_PACKET_SIZE + (LINK_PACKET_SIZE * k' + a)) b (LINK_PACKET_SIZE + (LINK_PACKET_SIZE * k' + c)) l"
      using Suc.prems(6) by (simp add: k add.assoc)
    obtain l1 where u: "use_a_delivery_opportunity ops l = Inr l1" and s1: "schedule_ok l1" "due l \<le> due l1" "schedule l1 = schedule l"
      and q1: "link_packets l1 = op_set_bandwidth ops (dequeue_rate l) (link_packets l)"
      and tr: "packet_in_transit l1 = packet_in_transit l" "packet_in_transit_bytes_left l1 = packet_in_transit_bytes_left l"
        "meters_ok l1" and room1: "bin_room (LINK_PACKET_SIZE * k' + a) b (LINK_PACKET_SIZE + (LINK_PACKET_SIZE * k' + c)) l1"
      and left: "1 \<le> opportunities_left now l" "finished l1 \<or> opportunities_left now l1 < opportunities_left now l"
      using use_opportunity_position [OF sok fin past Suc.prems(2) g room] by blast
    have "traffic (unat t) l1"
      using tok tr bandwidth_inv bandwidth_pkts by (simp add: traffic_ok_def q1 ut)
    moreover have "bin_room (LINK_PACKET_SIZE * k' + a) b (unat (of_nat LINK_PACKET_SIZE :: u32) + (LINK_PACKET_SIZE * k' + c)) l1"
      using room1 by (simp add: LINK_PACKET_SIZE_def)
    ultimately obtain l2 where d: "deliver ops t (of_nat LINK_PACKET_SIZE) l1 = Inr l2" and t2: "traffic (unat t) l2"
      and p2: "position l2 = position l1" and sv: "served (pkts (link_packets l2)) (pkts (link_packets l1))"
      and room2: "bin_room (LINK_PACKET_SIZE * k' + a) b (LINK_PACKET_SIZE * k' + c) l2"
      using deliver_total by blast
    have eq: "schedule l2 = schedule l" "finished l2 = finished l1" "opportunities_left now l2 = opportunities_left now l1"
      using p2 s1 by (simp_all add: position_def opportunities_left_def)
    have "link_ok pkts inv l2"
      using position_ok [OF p2] s1 traffic_ok_mono [OF t2] ut by (simp add: link_ok_def)
    moreover have "0 < fuel" using left(1) fin Suc.prems(4) by simp
    moreover have "finished l2 \<or> opportunities_left now l2 < fuel" using left fin Suc.prems(4) eq by auto
    moreover have "finished l2 \<or> opportunities_left now l2 \<le> k'" using left fin Suc.prems(5) eq k by auto
    ultimately obtain l' where "rationalize_loop fuel ops now l2 = Inr l'" "link_ok pkts inv l'" "unat now < due l'"
      "schedule l' = schedule l2" "served (pkts (link_packets l')) (pkts (link_packets l2))" "bin_room a b c l'"
      using Suc.IH [of l2 k'] Suc.prems(2) eq room2 by auto
    moreover have "served (pkts (link_packets l2)) (pkts (link_packets l))" using sv q1 bandwidth_pkts by simp
    ultimately show ?thesis using t True u d eq served_trans by auto
  qed
qed simp

lemma rationalize_total:
  assumes "link_ok pkts inv l" and "unat now + unat (last (schedule l)) < 2 ^ 64" and room: "meter_room now l"
  shows "\<exists>l'. rationalize ops now l = Inr l' \<and> link_ok pkts inv l' \<and> unat now < due l' \<and> schedule l' = schedule l \<and>
     served (pkts (link_packets l')) (pkts (link_packets l)) \<and> bin_room 0 LINK_PACKET_SIZE 0 l'"
proof -
  have "(unat now + 1 - unat (base_timestamp l)) * length (schedule l) \<le> (unat now + 1) * length (schedule l)"
    by (intro mult_le_mono1) simp
  then have "opportunities_left now l < rationalize_fuel now l"
    by (simp add: opportunities_left_def rationalize_fuel_def)
  then show ?thesis
    using rationalize_loop_total [OF assms(1,2), of "rationalize_fuel now l" "opportunities_left now l" 0 LINK_PACKET_SIZE 0] room
    by (simp add: rationalize_def rationalize_fuel_def meter_room_def)
qed

text \<open>The checks \<open>read_packet\<close> makes of the sizes before and after an enqueue.\<close>

lemma enqueue_sizes:
  assumes i: "inv q" and fit: "fits p (pkts q)" and e: "op_enqueue ops e p q = Inr q'"
  shows "(of_nat (length (pkts q')) :: u32) \<le> of_nat (length (pkts q)) + 1"
    and "unat (of_nat (total_bytes (pkts q')) :: u32) \<le> unat (of_nat (total_bytes (pkts q)) :: u32) + pkt_bytes p"
proof -
  have b: "total_bytes (pkts q) < 2 ^ 31" "length (pkts q) + 1 < 2 ^ 31" "total_bytes (pkts q) + pkt_bytes p < 2 ^ 31"
    using fit by (simp_all add: fits_def)
  have l: "length (pkts q') \<le> length (pkts q) + 1" and t: "total_bytes (pkts q') \<le> total_bytes (pkts q) + pkt_bytes p"
    using enqueue_grows_by_at_most_one [OF i fit e] enqueue_bytes_grow_by_at_most [OF i fit e] .
  have "unat (of_nat (length (pkts q) + 1) :: u32) = length (pkts q) + 1" using b by (intro unat_of_nat_u32) simp
  then show "(of_nat (length (pkts q')) :: u32) \<le> of_nat (length (pkts q)) + 1"
    using l b of_nat_le_u32 [of "length (pkts q')" "of_nat (length (pkts q) + 1)"] by (simp add: add.commute)
  show "unat (of_nat (total_bytes (pkts q')) :: u32) \<le> unat (of_nat (total_bytes (pkts q)) :: u32) + pkt_bytes p"
    using t b unat_of_nat_u32 [of "total_bytes (pkts q)"] unat_of_nat_u32 [of "total_bytes (pkts q')"] by simp
qed

lemma read_packet_total:
  assumes ok: "link_ok pkts inv l" and now: "unat now + unat (last (schedule l)) < 2 ^ 64" and room: "meter_room now l"
    and pkt: "readable pkt" "length pkt \<le> LINK_PACKET_SIZE"
    and fit: "fits (mk_QueuedPacket pkt now) (pkts (link_packets l))"
  shows "\<exists>l'. read_packet ops now pkt l = Inr l' \<and> link_ok pkts inv l' \<and> unat now < due l'"
proof -
  let ?p = "mk_QueuedPacket pkt now"
  have [simp]: "contents ?p = pkt" "arrival_time ?p = now" by (simp_all add: mk_QueuedPacket_def)
  obtain l1 where r: "rationalize ops now l = Inr l1" and ok1: "link_ok pkts inv l1" and due1: "unat now < due l1"
    and sv: "served (pkts (link_packets l1)) (pkts (link_packets l))" and room1: "bin_room 0 LINK_PACKET_SIZE 0 l1"
    using rationalize_total [OF ok now room] by blast
  let ?q = "link_packets l1"
  have i: "inv ?q" and g: "meters_ok l1"
    using ok1 by (simp_all add: link_ok_def traffic_ok_def)
  let ?l = "link_print (Arrival now (length pkt)) l1"
  have "unat (of_nat (length pkt) :: u32) = length pkt" using pkt(2) by (intro unat_of_nat_u32) (simp add: LINK_PACKET_SIZE_def)
  then have "throughput_graph ?l \<noteq> None \<longrightarrow> counted_in 1 ?l + unat (of_nat (length pkt) :: u32) < 2 ^ 31"
    using room1 pkt(2) by (auto simp: bin_room_def link_print_meters)
  then obtain l2 where a: "record_arrival now (length pkt) l1 = Inr l2" and g2: "meters_ok l2" and c2: "link_core l2 = link_core ?l"
    using meter_throughput_returns [of ?l 1 "of_nat (length pkt)"] g by (auto simp: record_arrival_def link_print_meters)
  note d2 = link_coreD [OF trans [OF c2 link_print_core(1)]]
  have q2: "link_packets l2 = ?q" by (rule d2(4))
  have fit1: "fits ?p (pkts ?q)"
    using fit served_length [OF sv] served_total_bytes [OF sv] by (simp add: fits_def)
  obtain q' where e: "op_enqueue ops (envs l2 0) ?p ?q = Inr q'"
    using enqueue_returns [OF i fit1] pkt(1) by auto
  have i': "inv q'" using enqueue_inv [OF i fit1 e] .
  note sizes = enqueue_sizes [OF i fit1 e]
  define l3 where "l3 = shift_envs (l2\<lparr>link_packets := q'\<rparr>)"
  have "\<exists>l'. read_packet ops now pkt l = Inr l' \<and> (l' = l3 \<or> (\<exists>x y. l' = record_drop now x y l3))"
    using pkt(2) sizes r a q2 e
    by (simp add: read_packet_def Let_def op_size_bytes_eq [OF i] op_size_packets_eq [OF i] op_size_bytes_eq [OF i']
        op_size_packets_eq [OF i'] l3_def [symmetric]) blast
  then obtain l' where rp: "read_packet ops now pkt l = Inr l'" and "l' = l3 \<or> (\<exists>x y. l' = record_drop now x y l3)" by blast
  then have c: "link_core l' = link_core l3" and g': "meters_ok l'"
    using g2 by (auto simp: l3_def record_drop_def link_print_meters)
  have "\<forall>x \<in> set (pkts ?q @ [?p]). packet_ok (due l1) x"
    using ok1 pkt due1 by (auto simp: link_ok_def traffic_ok_def packet_ok_def)
  then have ps: "\<forall>x \<in> set (pkts q'). packet_ok (due l1) x"
    using served_all [OF enqueue_served [OF i fit1 e], of "packet_ok (due l1)"] packet_ok_stamp by blast
  note d = link_coreD [OF c]
  have pos: "position l' = position l1"
    by (simp add: position_def d) (simp add: l3_def d2 shift_envs_def)
  have tr: "packet_in_transit l' = packet_in_transit l1" "packet_in_transit_bytes_left l' = packet_in_transit_bytes_left l1"
      "link_packets l' = q'"
    by (simp_all add: d) (simp_all add: l3_def d2 shift_envs_def)
  have "traffic (due l1) l'"
    using ok1 ps i' g' by (simp add: traffic_ok_def tr link_ok_def)
  then have "link_ok pkts inv l'" using position_ok [OF pos] ok1 by (simp add: link_ok_def)
  with rp due1 position_ok [OF pos] show ?thesis by auto
qed

lemma wait_time_total:
  assumes "link_ok pkts inv l" and "unat now + unat (last (schedule l)) < 2 ^ 64" and "meter_room now l"
  shows "\<exists>w l'. wait_time ops now l = Inr (w, l') \<and> link_ok pkts inv l' \<and> unat now < due l' \<and>
     w = of_nat (due l' - unat now)"
proof -
  obtain l' where r: "rationalize ops now l = Inr l'" and ok: "link_ok pkts inv l'" and d: "unat now < due l'"
    using rationalize_total [OF assms] by blast
  obtain t where t: "next_delivery_time l' = Inr t" and ut: "unat t = due l'"
    using next_delivery_time_due ok by (auto simp: link_ok_def)
  have "now < t" using d ut by (simp add: word_less_nat_alt)
  moreover have "(ucast (t - now) :: u32) = of_nat (due l' - unat now)"
    unfolding ut [symmetric] using \<open>now < t\<close> by (simp add: unat_sub [symmetric] less_imp_le)
  moreover have "\<not> t \<le> now" using \<open>now < t\<close> by simp
  ultimately show ?thesis using r t ok d by (simp add: wait_time_def)
qed

end

end
