(* ===== verification/Link_Properties.thy ===== *)
theory Link_Properties
  imports Link_Emulation
begin

text \<open>
  The properties of the link over the queues the program can build: the constructor, single
  operations, and whole runs as a step relation.
\<close>

section \<open>The constructor\<close>

lemma load_schedule_sorted:
  "load_schedule f sched ls = Inr sched' \<Longrightarrow> sorted sched \<Longrightarrow> sorted sched' \<and> length sched' = length sched + length ls"
proof (induction f sched ls rule: load_schedule.induct)
  case (2 f sched line lines)
  obtain v where v: "myatoi 10 line = Inr v" and l: "line \<noteq> []"
    using "2.prems"(1) by (auto split: if_splits)
  have ge: "sched \<noteq> [] \<longrightarrow> last sched \<le> (of_int v :: u64)"
    using "2.prems"(1) v l by (auto simp: Let_def split: if_splits)
  have "\<forall>x \<in> set sched. x \<le> (of_int v :: u64)"
  proof
    fix x assume "x \<in> set sched"
    then obtain i where "i < length sched" "x = sched ! i" by (metis in_set_conv_nth)
    then show "x \<le> of_int v" using sorted_nth_last [OF "2.prems"(2)] ge by fastforce
  qed
  then have s: "sorted (sched @ [of_int v])" using "2.prems"(2) by (simp add: sorted_append)
  have "load_schedule f (sched @ [of_int v]) lines = Inr sched'"
    using "2.prems"(1) v l ge by (auto simp: Let_def split: if_splits)
  from "2.IH" [OF l v _ _ this s] ge show ?case by (auto simp: not_less)
qed simp

text \<open>
  The search to the left ends for a trace of less than \<open>2 ^ 31\<close> milliseconds: the last opportunity
  of the previous cycle is at offset 0, where the search stops. The interval it finds is positive.
\<close>

lemma scast_small_cycle:
  fixes w :: u64
  assumes "unat w < 2 ^ 31"
  shows "scast (ucast w :: u32) = w" and "sint (ucast w :: u32) = uint w"
proof -
  have w: "of_nat (unat w) = w" by simp
  have "sint (of_nat (unat w) :: u32) = int (unat w)" using assms by (rule sint_of_nat_u32)
  then show s: "sint (ucast w :: u32) = uint w" by (simp add: of_nat_unat)
  have "scast (ucast w :: u32) = (of_int (sint (ucast w :: u32)) :: u64)" by simp
  also have "\<dots> = w" unfolding s by simp
  finally show "scast (ucast w :: u32) = w" .
qed

lemma find_left_returns:
  assumes small: "unat (last sched) < 2 ^ 31" and i: "i < length sched" and left: "0 \<le> left" "left \<le> int i"
    and fuel: "nat left + 1 < fuel"
  shows "\<exists>k < length sched. find_left fuel sched (ucast (last sched)) i left 0 = Inr k \<and>
    (k \<le> i \<or> k = length sched - 1) \<and> (sched ! k \<le> sched ! i - 50 \<or> k = length sched - 1)"
  using left fuel
proof (induction fuel arbitrary: left)
  case (Suc fuel)
  show ?case
  proof (cases "sched ! i - 50 < sched ! nat left")
    case False
    then show ?thesis using Suc.prems i by (auto simp: not_less)
  next
    case go: True
    show ?thesis
    proof (cases "left = 0")
      case False
      then show ?thesis using go Suc.IH [of "left - 1"] Suc.prems by auto
    next
      case True
      have n: "nat (int (length sched) - 1) = length sched - 1" by simp
      have "sched ! (length sched - 1) = last sched" using i by (subst last_conv_nth) auto
      then have "find_left fuel sched (ucast (last sched)) i (int (length sched) - 1) (- scast (ucast (last sched) :: u32)) =
          Inr (length sched - 1)"
        using Suc.prems(3) True scast_small_cycle(1) [OF small] by (cases fuel) (auto simp: n)
      then show ?thesis using go True i by auto
    qed
  qed
qed simp

lemma ucast_small_nonzero:
  fixes w :: u64
  assumes "unat w < 2 ^ 31" and "w \<noteq> 0"
  shows "(ucast w :: u32) \<noteq> 0"
proof -
  have "unat (of_nat (unat w) :: u32) = unat w" using assms(1) by (intro unat_of_nat_u32) simp
  then have "unat (ucast w :: u32) = unat w" by (simp only: of_nat_unat)
  with assms(2) show ?thesis by (metis unat_0 unat_eq_zero)
qed

lemma opportunity_bitrate_returns:
  assumes s: "sorted sched" and small: "unat (last sched) < 2 ^ 31" and long: "100 \<le> unat (last sched)"
    and i: "i < length sched"
  shows "\<exists>b. opportunity_bitrate sched i = Inr b"
proof -
  let ?s = "sched ! i" and ?L = "last sched"
  have sL: "?s \<le> ?L" using sorted_nth_last [OF s i] .
  then have s31: "unat ?s < 2 ^ 31" using small by (simp add: word_le_nat_alt)
  have cyc: "scast (ucast ?L :: u32) = ?L" using small by (rule scast_small_cycle)
  have "?L \<noteq> 0" using long by auto
  have fin: "\<exists>b. opportunity_bitrate sched i = Inr b"
    if "find_left (2 * length sched + 1) sched (ucast ?L) i (int i) 0 = Inr k"
      and "k < i \<longrightarrow> (ucast (?s - sched ! k) :: u32) \<noteq> 0"
      and "\<not> k < i \<longrightarrow> (ucast (?s - sched ! k + ?L) :: u32) \<noteq> 0" for k
    using that by (auto simp: opportunity_bitrate_def Let_def cyc)
  show ?thesis
  proof (cases "unat ?s < 50")
    case True
    have "?s \<le> ?s - 50"
    proof -
      have e: "?s - 50 = ?s + 18446744073709551566" by simp
      have "unat (?s + 18446744073709551566) = unat ?s + 18446744073709551566"
        using True unat_add_small [of ?s 18446744073709551566] by simp
      then show ?thesis unfolding e by (simp add: word_le_nat_alt)
    qed
    then have "\<not> ?s - 50 < ?s" by (rule leD)
    then have "find_left (2 * length sched + 1) sched (ucast ?L) i (int i) 0 = Inr i" by simp
    then show ?thesis using ucast_small_nonzero [OF small \<open>?L \<noteq> 0\<close>] by (intro fin) auto
  next
    case False
    have u50: "unat (?s - 50) = unat ?s - 50" using False unat_sub [of 50 ?s] by (simp add: word_le_nat_alt)
    obtain k where k: "k < length sched" and f: "find_left (2 * length sched + 1) sched (ucast ?L) i (int i) 0 = Inr k"
      and c: "k \<le> i \<or> k = length sched - 1" "sched ! k \<le> ?s - 50 \<or> k = length sched - 1"
      using find_left_returns [OF small i, of "int i" "2 * length sched + 1"] i by auto
    show ?thesis
    proof (rule fin [OF f]; intro impI)
      assume "k < i"
      then have "sched ! k \<le> ?s - 50" using c i by auto
      then have le: "unat (sched ! k) + 50 \<le> unat ?s" using u50 False by (simp add: word_le_nat_alt)
      then have "unat (?s - sched ! k) = unat ?s - unat (sched ! k)" by (intro unat_sub) (simp add: word_le_nat_alt)
      with le s31 have "unat (?s - sched ! k) < 2 ^ 31" "unat (?s - sched ! k) \<noteq> 0" by linarith+
      then show "(ucast (?s - sched ! k) :: u32) \<noteq> 0" by (intro ucast_small_nonzero) auto
    next
      assume "\<not> k < i"
      have "k = length sched - 1"
      proof (rule ccontr)
        assume "k \<noteq> length sched - 1"
        then have "k = i" and "?s \<le> ?s - 50" using c \<open>\<not> k < i\<close> by auto
        then show False using u50 False by (simp add: word_le_nat_alt)
      qed
      then have "sched ! k = ?L" using k by (subst last_conv_nth) auto
      moreover have "?s \<noteq> 0" using False by auto
      ultimately show "(ucast (?s - sched ! k + ?L) :: u32) \<noteq> 0"
        using ucast_small_nonzero [OF s31] by simp
    qed
  qed
qed

lemma map_res_returns:
  "\<forall>x \<in> set xs. \<exists>y. f x = Inr y \<Longrightarrow> \<exists>ys. map_res f xs = Inr ys \<and> length ys = length xs"
  by (induction xs) fastforce+

lemma trace_bitrates_returns:
  assumes "sorted sched" and "sched \<noteq> []" and "last sched \<noteq> 0" and "unat (last sched) < 2 ^ 31"
  shows "\<exists>bs. trace_bitrates sched = Inr bs \<and> length bs = length sched"
proof (cases "sint (ucast (last sched) :: u32) < 100")
  case True
  then show ?thesis using assms(2,3) by (simp add: trace_bitrates_def)
next
  case False
  then have "100 \<le> unat (last sched)"
    using scast_small_cycle(2) [OF assms(4)] by (metis int_ops(3) linorder_not_less uint_nat of_nat_le_iff zle_int of_nat_numeral)
  then have "\<forall>i \<in> set [0..<length sched]. \<exists>b. opportunity_bitrate sched i = Inr b"
    using opportunity_bitrate_returns [OF assms(1,4)] by simp
  from map_res_returns [OF this] show ?thesis using assms(2) False by (simp add: trace_bitrates_def)
qed


definition sample_config :: link_config where
  "sample_config =
     \<lparr>link_name = ''Uplink'', trace_filename = ''up'', trace_lines = Some [''0'', ''40'', ''130''], logfile = ''log'',
      logfile_ok = True, cfg_repeat = True, graph_throughput = False, graph_delay = False,
      command_line = ''mm-link'', shell_prefix = None\<rparr>"

definition sample_env :: env where
  "sample_env = \<lparr>clock = (\<lambda>_. 0), meter_clock = (\<lambda>_. 0), uniform = 0\<rparr>"

definition sample_infinite :: any_queue where
  "sample_infinite = Infinite \<lparr>iq_internal_queue = [], iq_queue_size_in_bytes = 0, iq_queue_size_in_packets = 0\<rparr>"

lemma sample_infinite_inv: "reliable_inv sample_infinite" "any_inv sample_infinite" "any_pkts sample_infinite = []"
  by (simp_all add: sample_infinite_def reliable_inv_def iq_inv_def)

lemma sample_load: "load_schedule ''up'' [] [''0'', ''40'', ''130''] = Inr [0, 40, 130]"
  by code_simp


text \<open>
  C20: The constructor looks at the last line of the schedule before it checks that there is one: with
  any configuration whose trace file is empty it reads the back of an empty vector, and with any whose
  lines are accepted and end in time zero (a trace that consists of zeros) it divides by zero,
  instead of throwing the errors that the checks behind announce. The process does not run as root; otherwise
  the first statement of the constructor ends it.
\<close>

theorem mk_link_queue_late_checks:
  assumes "trace_lines c = Some ls" and "load_schedule (trace_filename c) [] ls = Inr sched" and "sched = [] \<or> last sched = 0"
  shows "mk_link_queue ops False ts now es c q = Inl Undefined_behaviour \<and> (\<forall>t \<in> set sched. t = 0)"
proof -
  have "trace_bitrates sched = Inl Undefined_behaviour" using assms(3) by (auto simp: trace_bitrates_def)
  moreover have "\<forall>t \<in> set sched. t = 0"
  proof
    fix t assume "t \<in> set sched"
    then obtain i where "i < length sched" "t = sched ! i" by (metis in_set_conv_nth)
    then show "t = 0" using sorted_nth_last [of sched i] load_schedule_sorted [OF assms(2)] assms(3) by fastforce
  qed
  ultimately show ?thesis using assms(1,2) by (simp add: mk_link_queue_def assert_not_root_def)
qed

lemma sample_load_zeros: "load_schedule ''up'' [] [''0'', ''0''] = Inr [0, 0]"
  by code_simp

theorem mk_link_queue_late_checks_witness:
  "mk_link_queue any_ops False 0 0 (\<lambda>_. sample_env) (sample_config\<lparr>trace_lines := Some []\<rparr>) sample_infinite = Inl Undefined_behaviour \<and>
   mk_link_queue any_ops False 0 0 (\<lambda>_. sample_env) (sample_config\<lparr>trace_lines := Some [''0'', ''0'']\<rparr>) sample_infinite = Inl Undefined_behaviour"
proof
  let ?none = "sample_config\<lparr>trace_lines := Some []\<rparr>" and ?zeros = "sample_config\<lparr>trace_lines := Some [''0'', ''0'']\<rparr>"
  have "load_schedule (trace_filename ?zeros) [] [''0'', ''0''] = Inr [0, 0]" using sample_load_zeros by (simp only: sample_config_def link_config.simps)
  from mk_link_queue_late_checks [OF _ this, of any_ops 0 0 "\<lambda>_. sample_env" sample_infinite]
  show "mk_link_queue any_ops False 0 0 (\<lambda>_. sample_env) ?zeros sample_infinite = Inl Undefined_behaviour" by simp
  show "mk_link_queue any_ops False 0 0 (\<lambda>_. sample_env) ?none sample_infinite = Inl Undefined_behaviour"
    using mk_link_queue_late_checks [of ?none "[]" "[]" any_ops 0 0 "\<lambda>_. sample_env" sample_infinite] by simp
qed

section \<open>Runs\<close>

text \<open>
  A run of the link from \<open>l0\<close>: the packets it was given, the packets it has written, and its state.
  The steps are the calls the ferry makes of it, at any times and in any order.
\<close>

inductive link_reach :: "'q queue_ops \<Rightarrow> 'q link_queue \<Rightarrow> byte list list \<Rightarrow> byte list list \<Rightarrow> 'q link_queue \<Rightarrow> bool"
  for ops :: "'q queue_ops" and l0 :: "'q link_queue" where
  start: "link_reach ops l0 [] [] l0"
| arrive: "link_reach ops l0 rcv out l \<Longrightarrow> read_packet ops now pkt l = Inr l' \<Longrightarrow> link_reach ops l0 (rcv @ [pkt]) out l'"
| wait: "link_reach ops l0 rcv out l \<Longrightarrow> wait_time ops now l = Inr (w, l') \<Longrightarrow> link_reach ops l0 rcv out l'"
| depart: "link_reach ops l0 rcv out l \<Longrightarrow> write_packets (\<lambda>x w. Inr (w @ [x])) out l = Inr (out', l') \<Longrightarrow>
     link_reach ops l0 rcv out' l'"

inductive_cases link_reach_arriveE: "link_reach ops l0 (rcv @ [pkt]) out l"

lemma write_outputs_collect: "write_outputs (\<lambda>x w. Inr (w @ [x])) xs w = Inr (w @ xs)"
  by (induction xs arbitrary: w) simp_all

lemma total_bytes_contents: "total_bytes ps = sum_list (map length (map contents ps))"
  by (simp add: total_bytes_def comp_def)

lemma fits_of_history:
  assumes "subseq (map contents ps) rcv" and "sum_list (map length (rcv @ [pkt])) < 2 ^ 31" and "length (rcv @ [pkt]) < 2 ^ 31"
  shows "fits (mk_QueuedPacket pkt now) ps"
proof -
  have "total_bytes ps \<le> sum_list (map length rcv)"
    unfolding total_bytes_contents using assms(1) by (rule subseq_sum_list_le)
  moreover have "length ps \<le> length rcv" using list_emb_length [OF assms(1)] by simp
  ultimately show ?thesis using assms(2,3) by (simp add: fits_def mk_QueuedPacket_def)
qed

context packet_queue
begin

lemma run_in_order:
  "link_reach ops l0 rcv out l \<Longrightarrow> inv (link_packets l0) \<Longrightarrow> transit_wf l0 \<Longrightarrow> pipeline pkts l0 = [] \<Longrightarrow>
     sum_list (map length rcv) < 2 ^ 31 \<Longrightarrow> length rcv < 2 ^ 31 \<Longrightarrow>
     inv (link_packets l) \<and> transit_wf l \<and> subseq (out @ pipeline pkts l) rcv"
proof (induction rule: link_reach.induct)
  case start
  then show ?case by simp
next
  case (arrive rcv out l now pkt l')
  then have IH: "inv (link_packets l)" "transit_wf l" "subseq (out @ pipeline pkts l) rcv" by auto
  have sub: "subseq (pipeline pkts l) rcv" using IH(3) by (blast intro: subseq_order.order_trans list_emb_append2)
  have "inv (link_packets l') \<and> transit_wf l' \<and> subseq (pipeline pkts l') (pipeline pkts l @ [pkt])"
  proof (rule read_packet_accounts [OF IH(1,2) arrive(2)])
    fix q assume "subseq (map contents (pkts q)) (pipeline pkts l)"
    then have "subseq (map contents (pkts q)) rcv" using sub by (rule subseq_order.order_trans)
    then show "fits (mk_QueuedPacket pkt now) (pkts q)" using arrive.prems(4,5) by (rule fits_of_history)
  qed
  moreover have "subseq ((out @ pipeline pkts l) @ [pkt]) (rcv @ [pkt])"
    using IH(3) by (rule list_emb_append_mono) simp
  ultimately show ?case
    using subseq_prepend [of "pipeline pkts l'" "pipeline pkts l @ [pkt]" out] subseq_order.order_trans by auto
next
  case (wait rcv out l now w l')
  then have IH: "inv (link_packets l)" "transit_wf l" "subseq (out @ pipeline pkts l) rcv" by auto
  obtain l1 where "rationalize_loop (rationalize_fuel now l) ops now l = Inr l'"
    using wait(2) by (auto simp: wait_time_def rationalize_def)
  from rationalize_loop_accounts [OF this IH(1,2)] IH(3) show ?case
    using subseq_prepend [of "pipeline pkts l'" "pipeline pkts l" out] subseq_order.order_trans by auto
next
  case (depart rcv out l out' l')
  then have IH: "inv (link_packets l)" "transit_wf l" "subseq (out @ pipeline pkts l) rcv" by auto
  have "out' = out @ output_queue l" and "l' = l\<lparr>output_queue := []\<rparr>"
    using depart(2) by (auto simp: write_packets_def write_outputs_collect)
  with IH show ?case
    by (cases "packet_in_transit_bytes_left l = 0") (simp_all add: pipeline_def in_transit_def transit_wf_def)
qed

end

section \<open>Properties\<close>

text \<open>
  C1: Over a whole run of a link with any queue the program can build, whatever the order and the
  times of the calls, the packets written, followed by those on their way, are a subsequence of the
  packets given to the link: delivery is in order, at most once, unaltered, and nothing is
  invented.
\<close>

theorem link_run_in_order:
  assumes "link_reach any_ops l0 rcv out l" and "any_inv (link_packets l0)" and "transit_wf l0"
    and "pipeline any_pkts l0 = []" and "sum_list (map length rcv) < 2 ^ 31" and "length rcv < 2 ^ 31"
  shows "subseq (out @ pipeline any_pkts l) rcv"
  using any.run_in_order [OF assms] by simp

definition sample_link :: "any_queue link_queue" where
  "sample_link =
     \<lparr>next_delivery = 0, schedule = [0, 40, 130], base_timestamp = 0, link_packets = sample_infinite,
      packet_in_transit = mk_QueuedPacket [] 0, packet_in_transit_bytes_left = 0, output_queue = [], link_log = None,
      throughput_graph = None, delay_graph = None, repeat = True, finished = False, link_bitrate = [], dequeue_trace = [],
      empty_times = 0, dequeue_rate = 0xffffffff, envs = (\<lambda>_. sample_env)\<rparr>"

lemma sample_link_ok:
  "link_ok any_pkts reliable_inv sample_link" "transit_wf sample_link" "pipeline any_pkts sample_link = []" "meter_room now sample_link"
  using sample_infinite_inv
  by (simp_all add: sample_link_def link_ok_def schedule_ok_def traffic_ok_def meters_ok_def transit_wf_def pipeline_def in_transit_def
      meter_room_unmetered)

text \<open>The same link with both meters.\<close>

definition sample_metered :: "any_queue link_queue" where
  "sample_metered = sample_link\<lparr>
     throughput_graph := Some \<lparr>graph_points = [], bin_width_ms = 500, value_this_bin = [1504, 60, 60], current_bin = 0,
       multiplier = 8 / 1000000, rate_quantity = True, initialize_new_bin = (\<lambda>w v. 0)\<rparr>,
     delay_graph := Some \<lparr>graph_points = [], bin_width_ms = 250, value_this_bin = [12], current_bin = 0,
       multiplier = 1, rate_quantity = False, initialize_new_bin = (\<lambda>w v. - 1)\<rparr>\<rparr>"

lemma sample_metered_ok: "link_ok any_pkts reliable_inv sample_metered" "meter_room 100 sample_metered"
  using sample_infinite_inv
  by (simp_all add: sample_metered_def sample_link_def link_ok_def schedule_ok_def traffic_ok_def meters_ok_def counting_meter_def
      maximum_meter_def meter_room_def bin_room_def counted_in_def sent_of_transit_def opportunities_left_def LINK_PACKET_SIZE_def)

theorem link_run_in_order_witness:
  "\<exists>l out. link_reach any_ops sample_link [replicate 60 1] out l \<and>
     subseq (out @ pipeline any_pkts l) [replicate 60 1]"
proof -
  let ?a = "replicate 60 (1 :: byte)"
  have [simp]: "schedule sample_link = [0, 40, 130]" "link_packets sample_link = sample_infinite"
    by (simp_all add: sample_link_def)
  obtain l1 where l1: "read_packet any_ops 10 ?a sample_link = Inr l1" and ok1: "link_ok any_pkts reliable_inv l1"
    using rel.read_packet_total [OF sample_link_ok(1) _ sample_link_ok(4), of 10 ?a] sample_infinite_inv
    by (auto simp: fits_def mk_QueuedPacket_def LINK_PACKET_SIZE_def)
  have "link_reach any_ops sample_link ([] @ [?a]) [] l1" using link_reach.start l1 by (rule link_reach.arrive)
  then have r: "link_reach any_ops sample_link [?a] [] l1" by simp
  have "any_inv (link_packets sample_link)" using sample_infinite_inv by simp
  from link_run_in_order [OF r this sample_link_ok(2,3)]
  have "subseq ([] @ pipeline any_pkts l1) [?a]" by simp
  with r show ?thesis by blast
qed

text \<open>
  C10: One delivery opportunity, over any queue: it sends at most \<open>PACKET_SIZE\<close> bytes, and exactly that
  many unless the link has run dry (no packet in transit or queued); the packets it completes leave
  in order.
\<close>

theorem opportunity_work_conserving:
  assumes "deliver any_ops t (of_nat LINK_PACKET_SIZE) l = Inr l'" and "any_inv (link_packets l)" and "transit_wf l"
  shows "sent l' \<le> sent l + 1504 \<and>
     (sent l' = sent l + 1504 \<or> (any_pkts (link_packets l') = [] \<and> in_transit l' = [])) \<and>
     subseq (pipeline any_pkts l') (pipeline any_pkts l)"
  using any.deliver_accounts [OF assms] by (simp add: LINK_PACKET_SIZE_def)

theorem opportunity_work_conserving_witness:
  "\<exists>l'. deliver any_ops 5 (of_nat LINK_PACKET_SIZE) sample_link = Inr l' \<and> sent l' \<le> 1504"
proof -
  have t: "traffic_ok any_pkts reliable_inv (unat (5 :: u64)) sample_link"
    using sample_infinite_inv by (simp add: traffic_ok_def meters_ok_def sample_link_def)
  have "bin_room 0 0 (unat (of_nat LINK_PACKET_SIZE :: u32) + 0) sample_link" by (simp add: bin_room_def sample_link_def)
  from rel.deliver_total [OF t this]
  obtain l' where d: "deliver any_ops 5 (of_nat LINK_PACKET_SIZE) sample_link = Inr l'" by blast
  have "any_inv (link_packets sample_link)" using sample_infinite_inv by (simp add: sample_link_def)
  moreover have "sent sample_link = 0" by (simp add: sent_def sent_of_transit_def sample_link_def)
  ultimately show ?thesis using opportunity_work_conserving [OF d _ sample_link_ok(2)] d by simp
qed





end
