(* ===== verification/File_Desc.thy ===== *)
theory File_Desc
  imports Mahimahi_Prelude
begin

text \<open>
  \<open>FileDescriptor\<close>, src/src/util/file_descriptor.{hh,cc}. The kernel is a parameter of the model:
  \<open>accepts i n\<close> is what the \<open>i\<close>-th of the \<open>write\<close> calls to come returns when it is offered \<open>n\<close>
  bytes (-1 for an error), and \<open>offers i n\<close> is what the \<open>i\<close>-th of the \<open>read\<close> calls to come delivers
  when it is asked for at most \<open>n\<close> bytes (\<open>None\<close> for an error). \<open>fd_sent\<close> lists the byte strings
  the kernel has taken, one per \<open>write\<close> call, and \<open>fd_got\<close> those it has delivered.
\<close>

section \<open>Model\<close>

record file_desc =
  fd_num :: int
  fd_eof :: bool
  read_count :: u32
  write_count :: u32
  accepts :: "nat \<Rightarrow> nat \<Rightarrow> int"
  offers :: "nat \<Rightarrow> nat \<Rightarrow> byte list option"
  fd_sent :: "byte list list"
  fd_got :: "byte list list"

definition BUFFER_SIZE :: nat where
  "BUFFER_SIZE = 1024 * 1024"

definition mk_file_desc :: "(nat \<Rightarrow> nat \<Rightarrow> int) \<Rightarrow> (nat \<Rightarrow> nat \<Rightarrow> byte list option) \<Rightarrow> bool \<Rightarrow> int \<Rightarrow> file_desc res" where
  "mk_file_desc w r fcntl_ok fd =
     (if fd \<le> 2 then Inl (Unix_error ''FileDescriptor: fd <= 2'')
      else if \<not> fcntl_ok then Inl (Unix_error ''fcntl FD_CLOEXEC'')
      else Inr \<lparr>fd_num = fd, fd_eof = False, read_count = 0, write_count = 0, accepts = w, offers = r, fd_sent = [], fd_got = []\<rparr>)"

definition register_read :: "file_desc \<Rightarrow> file_desc" where
  "register_read fd = fd\<lparr>read_count := read_count fd + 1\<rparr>"

definition register_write :: "file_desc \<Rightarrow> file_desc" where
  "register_write fd = fd\<lparr>write_count := write_count fd + 1\<rparr>"

text \<open>\<open>write( begin, end )\<close>: the part of the string that is left.\<close>

definition write_some :: "byte list \<Rightarrow> file_desc \<Rightarrow> (byte list \<times> file_desc) res" where
  "write_some s fd =
     (if s = [] then Inl (Runtime_error ''nothing to write'')
      else
        let n = accepts fd 0 (length s);
            fd1 = fd\<lparr>accepts := (\<lambda>i. accepts fd (Suc i))\<rparr>
        in if n < 0 then Inl (Unix_error ''write'')
           else if n = 0 then Inl (Runtime_error ''write returned 0'')
           else if int (length s) < n then Inl Undefined_behaviour
           else Inr (drop (nat n) s, register_write (fd1\<lparr>fd_sent := fd_sent fd1 @ [take (nat n) s]\<rparr>)))"

lemma write_some_shorter: "write_some s fd = Inr r \<Longrightarrow> length (fst r) < length s"
  by (auto simp: write_some_def Let_def split: if_splits)

text \<open>\<open>write( buffer, true )\<close>: the loop that writes all of it.\<close>

function write_all :: "byte list \<Rightarrow> file_desc \<Rightarrow> file_desc res" where
  "write_all s fd =
     res_bind (write_some s fd) (\<lambda>r. if fst r = [] then Inr (snd r) else write_all (fst r) (snd r))"
  by pat_completeness auto
termination
  by (relation "measure (\<lambda>(s, fd). length s)") (auto dest: write_some_shorter)

declare write_all.simps [simp del]

text \<open>\<open>read( limit )\<close>.\<close>

definition set_eof :: "file_desc \<Rightarrow> file_desc" where
  "set_eof fd = fd\<lparr>fd_eof := True\<rparr>"

definition fd_read :: "nat \<Rightarrow> file_desc \<Rightarrow> (byte list \<times> file_desc) res" where
  "fd_read limit fd =
     (case offers fd 0 (min BUFFER_SIZE limit) of
        None \<Rightarrow> Inl (Unix_error ''read'')
      | Some buf \<Rightarrow>
          if min BUFFER_SIZE limit < length buf then Inl Undefined_behaviour
          else
            let fd1 = fd\<lparr>offers := (\<lambda>i. offers fd (Suc i)), fd_got := fd_got fd @ [buf]\<rparr>
            in Inr (buf, register_read (if buf = [] then set_eof fd1 else fd1)))"

text \<open>
  The move constructor leaves the number -1 behind, which the destructor takes as the sign not to
  close: the descriptors it closes.
\<close>

definition fd_move :: "file_desc \<Rightarrow> file_desc \<times> file_desc" where
  "fd_move other = (other, other\<lparr>fd_num := - 1\<rparr>)"

definition fd_close :: "file_desc \<Rightarrow> int list" where
  "fd_close fd = (if fd_num fd < 0 then [] else [fd_num fd])"

lemma move_closes_once: "fd_move fd = (new, old) \<Longrightarrow> fd_close new @ fd_close old = fd_close fd"
  by (auto simp: fd_move_def fd_close_def)

text \<open>What a read leaves behind.\<close>

lemma fd_read_Inr:
  assumes "fd_read limit fd = Inr (buf, fd')"
  shows "length buf \<le> limit" and "fd_got fd' = fd_got fd @ [buf]" and "read_count fd' = read_count fd + 1"
    and "fd_sent fd' = fd_sent fd" and "write_count fd' = write_count fd" and "fd_num fd' = fd_num fd"
    and "accepts fd' = accepts fd" and "fd_eof fd' = (fd_eof fd \<or> buf = [])"
  using assms by (auto simp: fd_read_def register_read_def set_eof_def Let_def split: option.splits if_splits)

lemma write_some_Inr:
  assumes "write_some s fd = Inr (rest, fd')"
  shows "\<exists>n. 0 < n \<and> n \<le> length s \<and> rest = drop n s \<and> fd_sent fd' = fd_sent fd @ [take n s]"
    and "fd_got fd' = fd_got fd" and "write_count fd' = write_count fd + 1" and "read_count fd' = read_count fd"
    and "fd_num fd' = fd_num fd" and "offers fd' = offers fd" and "fd_eof fd' = fd_eof fd"
proof -
  let ?n = "accepts fd 0 (length s)"
  have n: "0 < ?n" "?n \<le> int (length s)" and rest: "rest = drop (nat ?n) s"
    and fd': "fd' = register_write (fd\<lparr>accepts := (\<lambda>i. accepts fd (Suc i)), fd_sent := fd_sent fd @ [take (nat ?n) s]\<rparr>)"
    using assms by (auto simp: write_some_def Let_def split: if_splits)
  then have "0 < nat ?n" "nat ?n \<le> length s" by auto
  with rest fd' show "\<exists>n. 0 < n \<and> n \<le> length s \<and> rest = drop n s \<and> fd_sent fd' = fd_sent fd @ [take n s]"
    by (intro exI [of _ "nat ?n"]) (simp add: register_write_def)
  show "fd_got fd' = fd_got fd" "write_count fd' = write_count fd + 1" "read_count fd' = read_count fd"
    "fd_num fd' = fd_num fd" "offers fd' = offers fd" "fd_eof fd' = fd_eof fd"
    by (simp_all add: fd' register_write_def)
qed

section \<open>Writing all of a string\<close>

text \<open>A kernel that takes some of what it is offered, and one that takes every string whole.\<close>

definition makes_progress :: "file_desc \<Rightarrow> bool" where
  "makes_progress fd \<longleftrightarrow> (\<forall>i n. 0 < n \<longrightarrow> 0 < accepts fd i n \<and> accepts fd i n \<le> int n)"

definition datagram :: "file_desc \<Rightarrow> bool" where
  "datagram fd \<longleftrightarrow> (\<forall>i n. accepts fd i n = int n)"

lemma write_some_ok:
  assumes "makes_progress fd" and "s \<noteq> []"
  obtains n fd' where "0 < n" and "n \<le> length s" and "write_some s fd = Inr (drop n s, fd')"
    and "fd_sent fd' = fd_sent fd @ [take n s]" and "makes_progress fd'"
proof -
  let ?n = "accepts fd 0 (length s)"
  have n: "0 < ?n" "?n \<le> int (length s)" using assms by (simp_all add: makes_progress_def)
  let ?fd = "register_write (fd\<lparr>accepts := (\<lambda>i. accepts fd (Suc i)), fd_sent := fd_sent fd @ [take (nat ?n) s]\<rparr>)"
  have "write_some s fd = Inr (drop (nat ?n) s, ?fd)"
    using n assms(2) by (simp add: write_some_def Let_def)
  moreover have "makes_progress ?fd" using assms(1) by (simp add: makes_progress_def register_write_def)
  moreover have "0 < nat ?n" "nat ?n \<le> length s" using n by auto
  moreover have "fd_sent ?fd = fd_sent fd @ [take (nat ?n) s]" by (simp add: register_write_def)
  ultimately show thesis by (intro that [of "nat ?n" ?fd])
qed

lemma write_all_ok:
  "makes_progress fd \<Longrightarrow> s \<noteq> [] \<Longrightarrow>
     \<exists>fd' xs. write_all s fd = Inr fd' \<and> fd_sent fd' = fd_sent fd @ xs \<and> concat xs = s \<and> makes_progress fd'"
proof (induction s fd rule: write_all.induct)
  case (1 s fd)
  obtain n fd1 where n: "0 < n" "n \<le> length s" and w: "write_some s fd = Inr (drop n s, fd1)"
    and s: "fd_sent fd1 = fd_sent fd @ [take n s]" and p: "makes_progress fd1"
    using write_some_ok [OF "1.prems"] by blast
  show ?case
  proof (cases "n = length s")
    case True
    then show ?thesis using w p s by (subst write_all.simps) auto
  next
    case False
    then have ne: "drop n s \<noteq> []" using n by simp
    obtain fd' xs where "write_all (drop n s) fd1 = Inr fd'" "fd_sent fd' = fd_sent fd1 @ xs" "concat xs = drop n s"
        "makes_progress fd'"
      using "1.IH" [OF w] ne p by auto
    then show ?thesis
      using w ne s by (subst write_all.simps) (auto intro!: exI [of _ "take n s # xs"])
  qed
qed

definition sample_fd :: file_desc where
  "sample_fd = \<lparr>fd_num = 5, fd_eof = False, read_count = 0, write_count = 0, accepts = (\<lambda>i n. if n = 0 then 0 else 1),
     offers = (\<lambda>i n. Some []), fd_sent = [], fd_got = []\<rparr>"

lemma write_all_sent:
  "write_all s fd = Inr fd' \<Longrightarrow> \<exists>xs. fd_sent fd' = fd_sent fd @ xs \<and> concat xs = s \<and> fd_got fd' = fd_got fd \<and> fd_num fd' = fd_num fd"
proof (induction s fd rule: write_all.induct)
  case (1 s fd)
  obtain rest fd1 where w: "write_some s fd = Inr (rest, fd1)"
    using "1.prems" by (subst (asm) write_all.simps) auto
  obtain n where n: "n \<le> length s" "rest = drop n s" "fd_sent fd1 = fd_sent fd @ [take n s]"
    using write_some_Inr(1) [OF w] by blast
  have g: "fd_got fd1 = fd_got fd" "fd_num fd1 = fd_num fd" using write_some_Inr(2,5) [OF w] by simp_all
  show ?case
  proof (cases "rest = []")
    case True
    then have "fd' = fd1" using "1.prems" w by (subst (asm) write_all.simps) simp
    then show ?thesis using n g True by (intro exI [of _ "[take n s]"]) simp
  next
    case False
    then have "write_all rest fd1 = Inr fd'" using "1.prems" w by (subst (asm) write_all.simps) simp
    then obtain xs where "fd_sent fd' = fd_sent fd1 @ xs" "concat xs = rest" "fd_got fd' = fd_got fd1" "fd_num fd' = fd_num fd1"
      using "1.IH" [OF w] False by auto
    then show ?thesis using n g by (intro exI [of _ "take n s # xs"]) simp
  qed
qed

text \<open>A datagram device takes every packet in one call.\<close>

lemma write_all_datagram:
  assumes "datagram fd" and "s \<noteq> []"
  shows "\<exists>fd'. write_all s fd = Inr fd' \<and> fd_sent fd' = fd_sent fd @ [s] \<and> datagram fd'"
proof -
  have "write_some s fd = Inr ([], register_write (fd\<lparr>accepts := (\<lambda>i. accepts fd (Suc i)), fd_sent := fd_sent fd @ [s]\<rparr>))"
    using assms by (simp add: write_some_def datagram_def)
  then show ?thesis using assms by (subst write_all.simps) (simp add: register_write_def datagram_def)
qed

lemma write_all_Inr: "write_all s fd = Inr fd' \<Longrightarrow> s \<noteq> []"
  by (auto simp: write_all.simps [of "[]"] write_some_def)

lemma write_all_datagram_Inr:
  "datagram fd \<Longrightarrow> write_all s fd = Inr fd' \<Longrightarrow> fd_sent fd' = fd_sent fd @ [s] \<and> datagram fd'"
  using write_all_datagram [of fd s] write_all_Inr [of s fd fd'] by auto

end
