(* ===== verification/Ferry_Queues.thy ===== *)
theory Ferry_Queues
  imports Link_Properties File_Desc
begin

text \<open>
  The queues a \<open>PacketShell\<close> ferries packets through: \<open>DelayQueue\<close>, \<open>LossQueue\<close> with its
  subclasses \<open>IIDLoss\<close> and \<open>SwitchingLink\<close>, \<open>MeterQueue\<close> (src/src/frontend/{delay,loss,meter}_queue)
  and \<open>LinkQueue\<close>. \<open>ferry_ops\<close> is the interface \<open>PacketShell<FerryQueueType>::Ferry::loop\<close>
  (src/src/packet/packetshell.cc) uses of its template parameter. The locale \<open>ferry_queue\<close> is what
  that loop may rely on; all five classes meet it.

  The environment of a call gives the readings of \<open>timestamp()\<close>; \<open>uniform\<close> gives the random
  numbers, of which \<open>IIDLoss\<close> takes one per packet. \<open>SwitchingLink\<close> takes as many as it switches:
  \<open>draws\<close> holds the uniform numbers its generator will deliver, and \<open>switch_at\<close> adds up the times
  they stand for.
\<close>

section \<open>Model\<close>

subsection \<open>Writing a queue of packets\<close>

fun write_queue :: "byte list list \<Rightarrow> file_desc \<Rightarrow> file_desc res" where
  "write_queue [] fd = Inr fd"
| "write_queue (p # ps) fd = res_bind (write_all p fd) (\<lambda>fd'. write_queue ps fd')"

definition max_wait :: u32 where
  "max_wait = 65535"

subsection \<open>DelayQueue\<close>

record delay_queue =
  delay_ms :: u64
  delayed :: "(u64 \<times> byte list) list"

definition delay_read_packet :: "u64 \<Rightarrow> byte list \<Rightarrow> delay_queue \<Rightarrow> delay_queue" where
  "delay_read_packet now pkt q = q\<lparr>delayed := delayed q @ [(now + delay_ms q, pkt)]\<rparr>"

text \<open>The clock is read before every packet.\<close>

fun release :: "(nat \<Rightarrow> u64) \<Rightarrow> (u64 \<times> byte list) list \<Rightarrow> file_desc \<Rightarrow> (file_desc \<times> (u64 \<times> byte list) list) res" where
  "release clk [] fd = Inr (fd, [])"
| "release clk ((t, p) # ps) fd =
     (if t \<le> clk 0 then res_bind (write_all p fd) (\<lambda>fd'. release (\<lambda>i. clk (Suc i)) ps fd')
      else Inr (fd, (t, p) # ps))"

definition delay_write_packets :: "(nat \<Rightarrow> u64) \<Rightarrow> file_desc \<Rightarrow> delay_queue \<Rightarrow> (file_desc \<times> delay_queue) res" where
  "delay_write_packets clk fd q =
     res_bind (release clk (delayed q) fd) (\<lambda>(fd', ps). Inr (fd', q\<lparr>delayed := ps\<rparr>))"

definition delay_wait_time :: "u64 \<Rightarrow> delay_queue \<Rightarrow> u32" where
  "delay_wait_time now q =
     (case delayed q of
        [] \<Rightarrow> max_wait
      | (t, p) # _ \<Rightarrow> if t \<le> now then 0 else ucast (t - now))"

definition delay_pending_output :: "u64 \<Rightarrow> delay_queue \<Rightarrow> bool" where
  "delay_pending_output now q \<longleftrightarrow> delay_wait_time now q \<le> 0"

subsection \<open>LossQueue and its subclasses\<close>

text \<open>\<open>dropped\<close> is the answer of the virtual function \<open>drop_packet\<close>.\<close>

record loss_queue =
  loss_packets :: "byte list list"

definition loss_read_packet :: "bool \<Rightarrow> byte list \<Rightarrow> 'a loss_queue_scheme \<Rightarrow> 'a loss_queue_scheme" where
  "loss_read_packet dropped pkt q = (if \<not> dropped then q\<lparr>loss_packets := loss_packets q @ [pkt]\<rparr> else q)"

definition loss_write_packets :: "file_desc \<Rightarrow> 'a loss_queue_scheme \<Rightarrow> (file_desc \<times> 'a loss_queue_scheme) res" where
  "loss_write_packets fd q = res_bind (write_queue (loss_packets q) fd) (\<lambda>fd'. Inr (fd', q\<lparr>loss_packets := []\<rparr>))"

definition loss_wait_time :: "'a loss_queue_scheme \<Rightarrow> u32" where
  "loss_wait_time q = (if loss_packets q = [] then max_wait else 0)"

text \<open>\<open>IIDLoss\<close>: a Bernoulli draw is a comparison of a uniform number with the rate.\<close>

record iid_loss = loss_queue +
  loss_rate :: real

definition iid_drop_packet :: "real \<Rightarrow> iid_loss \<Rightarrow> bool" where
  "iid_drop_packet u q \<longleftrightarrow> u < loss_rate q"

text \<open>
  \<open>SwitchingLink\<close>. An exponential distribution turns a uniform number into a draw by inverting
  its distribution function. The rate of \<open>off_process_\<close>, the time until the link goes off, comes
  from the mean time the link is on. \<open>bound\<close> converts a draw to milliseconds.
\<close>

record switching_link = loss_queue +
  link_is_on :: bool
  on_process :: real
  off_process :: real
  next_switch_time :: u64
  draws :: "nat \<Rightarrow> real"

definition mk_switching_link :: "real \<Rightarrow> real \<Rightarrow> u64 \<Rightarrow> (nat \<Rightarrow> real) \<Rightarrow> switching_link" where
  "mk_switching_link mean_on_time mean_off_time now ds =
     \<lparr>loss_packets = [], link_is_on = False, on_process = 1 / (1000 * mean_off_time),
      off_process = 1 / (1000 * mean_on_time), next_switch_time = now, draws = ds\<rparr>"

definition exponential :: "real \<Rightarrow> real \<Rightarrow> real" where
  "exponential rate u = - ln (1 - u) / rate"

definition bound :: "real \<Rightarrow> u64" where
  "bound x = (if 2 ^ 30 < x then 2 ^ 30 else of_int \<lfloor>x\<rfloor>)"

definition switch_once :: "switching_link \<Rightarrow> switching_link" where
  "switch_once q =
     (let now_on = (\<not> link_is_on q) in
      q\<lparr>link_is_on := now_on,
        next_switch_time := next_switch_time q
          + bound (exponential (if now_on then off_process q else on_process q) (draws q 0)),
        draws := (\<lambda>i. draws q (Suc i))\<rparr>)"

fun switch_loop :: "nat \<Rightarrow> u64 \<Rightarrow> switching_link \<Rightarrow> switching_link res" where
  "switch_loop 0 now q = Inl Out_of_fuel"
| "switch_loop (Suc fuel) now q =
     (if next_switch_time q \<le> now then switch_loop fuel now (switch_once q) else Inr q)"

definition switching_wait_time :: "nat \<Rightarrow> u64 \<Rightarrow> switching_link \<Rightarrow> (u32 \<times> switching_link) res" where
  "switching_wait_time fuel now q =
     res_bind (switch_loop fuel now q) (\<lambda>q1.
       Inr (if loss_wait_time q1 = 0 then 0
            else if 65535 < next_switch_time q1 - now then max_wait
            else ucast (next_switch_time q1 - now), q1))"

definition switching_drop_packet :: "switching_link \<Rightarrow> bool" where
  "switching_drop_packet q \<longleftrightarrow> \<not> link_is_on q"

subsection \<open>MeterQueue\<close>

record meter_queue =
  meter_packets :: "byte list list"
  meter_graph :: "livegraph option"

definition mk_meter_queue :: "bool \<Rightarrow> bool \<Rightarrow> u64 \<Rightarrow> meter_queue res" where
  "mk_meter_queue is_root graph now =
     assert_not_root is_root
       (res_bind (optional_graph graph (mk_livegraph 1 (8 / 1000000) True 500 (\<lambda>w v. 0) now)) (\<lambda>g.
          Inr \<lparr>meter_packets = [], meter_graph = g\<rparr>))"

definition meter_read_packet :: "u64 \<Rightarrow> byte list \<Rightarrow> meter_queue \<Rightarrow> meter_queue res" where
  "meter_read_packet now pkt q =
     (let q1 = q\<lparr>meter_packets := meter_packets q @ [pkt]\<rparr> in
      case meter_graph q1 of
        None \<Rightarrow> Inr q1
      | Some g \<Rightarrow> res_bind (add_value_now now 0 (of_nat (length pkt)) g) (\<lambda>g'. Inr (q1\<lparr>meter_graph := Some g'\<rparr>)))"

definition meter_write_packets :: "file_desc \<Rightarrow> meter_queue \<Rightarrow> (file_desc \<times> meter_queue) res" where
  "meter_write_packets fd q = res_bind (write_queue (meter_packets q) fd) (\<lambda>fd'. Inr (fd', q\<lparr>meter_packets := []\<rparr>))"

definition meter_wait_time :: "meter_queue \<Rightarrow> u32" where
  "meter_wait_time q = (if meter_packets q = [] then max_wait else 0)"

subsection \<open>The interface of the ferry\<close>

record 'q ferry_ops =
  f_read :: "env \<Rightarrow> byte list \<Rightarrow> 'q \<Rightarrow> 'q res"
  f_write :: "env \<Rightarrow> file_desc \<Rightarrow> 'q \<Rightarrow> (file_desc \<times> 'q) res"
  f_wait :: "env \<Rightarrow> 'q \<Rightarrow> (u32 \<times> 'q) res"
  f_pending :: "env \<Rightarrow> 'q \<Rightarrow> bool"
  f_finished :: "'q \<Rightarrow> bool"

definition delay_ferry :: "delay_queue ferry_ops" where
  "delay_ferry =
     \<lparr>f_read = (\<lambda>e p q. Inr (delay_read_packet (clock e 0) p q)), f_write = (\<lambda>e. delay_write_packets (clock e)),
      f_wait = (\<lambda>e q. Inr (delay_wait_time (clock e 0) q, q)), f_pending = (\<lambda>e. delay_pending_output (clock e 0)),
      f_finished = (\<lambda>q. False)\<rparr>"

definition iid_ferry :: "iid_loss ferry_ops" where
  "iid_ferry =
     \<lparr>f_read = (\<lambda>e p q. Inr (loss_read_packet (iid_drop_packet (uniform e) q) p q)), f_write = (\<lambda>e. loss_write_packets),
      f_wait = (\<lambda>e q. Inr (loss_wait_time q, q)), f_pending = (\<lambda>e q. loss_packets q \<noteq> []), f_finished = (\<lambda>q. False)\<rparr>"

definition switching_ferry :: "nat \<Rightarrow> switching_link ferry_ops" where
  "switching_ferry fuel =
     \<lparr>f_read = (\<lambda>e p q. Inr (loss_read_packet (switching_drop_packet q) p q)), f_write = (\<lambda>e. loss_write_packets),
      f_wait = (\<lambda>e. switching_wait_time fuel (clock e 0)), f_pending = (\<lambda>e q. loss_packets q \<noteq> []),
      f_finished = (\<lambda>q. False)\<rparr>"

definition meter_ferry :: "meter_queue ferry_ops" where
  "meter_ferry =
     \<lparr>f_read = (\<lambda>e. meter_read_packet (clock e 0)), f_write = (\<lambda>e. meter_write_packets),
      f_wait = (\<lambda>e q. Inr (meter_wait_time q, q)), f_pending = (\<lambda>e q. meter_packets q \<noteq> []), f_finished = (\<lambda>q. False)\<rparr>"

definition link_ferry :: "any_queue link_queue ferry_ops" where
  "link_ferry =
     \<lparr>f_read = (\<lambda>e. read_packet any_ops (clock e 0)), f_write = (\<lambda>e. write_packets write_all),
      f_wait = (\<lambda>e. wait_time any_ops (clock e 0)), f_pending = (\<lambda>e. pending_output), f_finished = finished\<rparr>"

text \<open>
  The steps of \<open>Ferry::loop\<close>: a packet read from the TUN device is given to the queue; when the
  queue may write to the sibling's device; the time to wait is asked for before
  every poll. A run records the packets read and the state of the sibling's descriptor.
\<close>

inductive ferry_run :: "'q ferry_ops \<Rightarrow> 'q \<Rightarrow> byte list list \<Rightarrow> file_desc \<Rightarrow> 'q \<Rightarrow> bool"
  for fops :: "'q ferry_ops" and q0 :: 'q where
  fr_start: "datagram fd \<Longrightarrow> fd_sent fd = [] \<Longrightarrow> ferry_run fops q0 [] fd q0"
| fr_read: "ferry_run fops q0 rcv fd q \<Longrightarrow> f_read fops e pkt q = Inr q' \<Longrightarrow> ferry_run fops q0 (rcv @ [pkt]) fd q'"
| fr_write: "ferry_run fops q0 rcv fd q \<Longrightarrow> f_write fops e fd q = Inr (fd', q') \<Longrightarrow> ferry_run fops q0 rcv fd' q'"
| fr_wait: "ferry_run fops q0 rcv fd q \<Longrightarrow> f_wait fops e q = Inr (w, q') \<Longrightarrow> ferry_run fops q0 rcv fd q'"

inductive_cases ferry_run_startE: "ferry_run fops q0 [] fd q"

section \<open>The contract of a ferry queue\<close>

locale ferry_queue =
  fixes fops :: "'q ferry_ops"
    and flight :: "'q \<Rightarrow> byte list list"
    and finv :: "'q \<Rightarrow> bool"
  assumes read_flight: "finv q \<Longrightarrow> sum_list (map length (flight q @ [pkt])) < 2 ^ 31 \<Longrightarrow> length (flight q @ [pkt]) < 2 ^ 31 \<Longrightarrow>
       f_read fops e pkt q = Inr q' \<Longrightarrow> finv q' \<and> subseq (flight q') (flight q @ [pkt])"
    and write_flight: "finv q \<Longrightarrow> datagram fd \<Longrightarrow> f_write fops e fd q = Inr (fd', q') \<Longrightarrow>
       finv q' \<and> datagram fd' \<and> (\<exists>xs. fd_sent fd' = fd_sent fd @ xs \<and> subseq (xs @ flight q') (flight q))"
    and wait_flight: "finv q \<Longrightarrow> f_wait fops e q = Inr (w, q') \<Longrightarrow> finv q' \<and> subseq (flight q') (flight q)"
    and write_num: "f_write fops e fd q = Inr (fd', q') \<Longrightarrow> fd_num fd' = fd_num fd"
begin

text \<open>Whatever the loop does, the sibling receives packets in order, at most once and unaltered.\<close>

lemma run_delivers:
  "ferry_run fops q0 rcv fd q \<Longrightarrow> finv q0 \<Longrightarrow> flight q0 = [] \<Longrightarrow> sum_list (map length rcv) < 2 ^ 31 \<Longrightarrow> length rcv < 2 ^ 31 \<Longrightarrow>
     finv q \<and> datagram fd \<and> subseq (fd_sent fd @ flight q) rcv"
proof (induction rule: ferry_run.induct)
  case (fr_start fd)
  then show ?case by simp
next
  case (fr_read rcv fd q e pkt q')
  then have IH: "finv q" "datagram fd" "subseq (fd_sent fd @ flight q) rcv" by auto
  have sub: "subseq (flight q) rcv" using IH(3) by (blast intro: subseq_order.order_trans list_emb_append2)
  have "sum_list (map length (flight q)) \<le> sum_list (map length rcv)" and "length (flight q) \<le> length rcv"
    using subseq_sum_list_le [OF sub] list_emb_length [OF sub] .
  then have "finv q' \<and> subseq (flight q') (flight q @ [pkt])"
    using fr_read.prems(3,4) by (intro read_flight [OF IH(1) _ _ fr_read(2)]) auto
  moreover have "subseq ((fd_sent fd @ flight q) @ [pkt]) (rcv @ [pkt])"
    using IH(3) by (rule list_emb_append_mono) simp
  ultimately show ?case
    using IH(2) subseq_prepend [of "flight q'" "flight q @ [pkt]" "fd_sent fd"] subseq_order.order_trans by auto
next
  case (fr_write rcv fd q e fd' q')
  then have IH: "finv q" "datagram fd" "subseq (fd_sent fd @ flight q) rcv" by auto
  obtain xs where "finv q'" "datagram fd'" "fd_sent fd' = fd_sent fd @ xs" "subseq (xs @ flight q') (flight q)"
    using write_flight [OF IH(1,2) fr_write(2)] by blast
  then show ?case
    using IH(3) subseq_prepend [of "xs @ flight q'" "flight q" "fd_sent fd"] subseq_order.order_trans by auto
next
  case (fr_wait rcv fd q e w q')
  then have IH: "finv q" "datagram fd" "subseq (fd_sent fd @ flight q) rcv" by auto
  have "finv q' \<and> subseq (flight q') (flight q)" using wait_flight [OF IH(1) fr_wait(2)] .
  then show ?case
    using IH subseq_prepend [of "flight q'" "flight q" "fd_sent fd"] subseq_order.order_trans by auto
qed

end

locale lossless_ferry = ferry_queue +
  assumes read_exact: "f_read fops e pkt q = Inr q' \<Longrightarrow> flight q' = flight q @ [pkt]"
    and write_exact: "datagram fd \<Longrightarrow> f_write fops e fd q = Inr (fd', q') \<Longrightarrow>
       fd_sent fd' @ flight q' = fd_sent fd @ flight q \<and> datagram fd'"
    and wait_exact: "f_wait fops e q = Inr (w, q') \<Longrightarrow> flight q' = flight q"
begin

text \<open>Nothing is lost either: what has not been handed to the sibling is still in the queue.\<close>

lemma run_exact:
  "ferry_run fops q0 rcv fd q \<Longrightarrow> flight q0 = [] \<Longrightarrow> fd_sent fd @ flight q = rcv \<and> datagram fd"
  by (induction rule: ferry_run.induct) (auto dest: read_exact write_exact wait_exact)

end

lemma write_queue_datagram:
  "write_queue ps fd = Inr fd' \<Longrightarrow> datagram fd \<Longrightarrow> fd_sent fd' = fd_sent fd @ ps \<and> datagram fd'"
  by (induction ps arbitrary: fd) (auto dest: write_all_datagram_Inr)

lemma write_all_num: "write_all s fd = Inr fd' \<Longrightarrow> fd_num fd' = fd_num fd"
proof (induction s fd rule: write_all.induct)
  case (1 s fd)
  obtain rest fd1 where w: "write_some s fd = Inr (rest, fd1)"
    using "1.prems" by (subst (asm) write_all.simps) auto
  have "fd_num fd1 = fd_num fd" by (rule write_some_Inr(5) [OF w])
  moreover have "rest = [] \<and> fd' = fd1 \<or> rest \<noteq> [] \<and> write_all rest fd1 = Inr fd'"
    using "1.prems" w by (subst (asm) write_all.simps) (auto split: if_splits)
  ultimately show ?case using "1.IH" [OF w] by auto
qed

lemma write_queue_num: "write_queue ps fd = Inr fd' \<Longrightarrow> fd_num fd' = fd_num fd"
  by (induction ps arbitrary: fd) (auto dest: write_all_num)

lemma release_num: "release clk ps fd = Inr (fd', ps') \<Longrightarrow> fd_num fd' = fd_num fd"
  by (induction clk ps fd rule: release.induct) (auto dest: write_all_num split: if_splits)

lemma write_outputs_queue: "write_outputs write_all ps fd = write_queue ps fd"
  by (induction ps arbitrary: fd) (simp_all add: res_bind_def split: sum.splits)

lemma release_datagram:
  "release clk ps fd = Inr (fd', ps') \<Longrightarrow> datagram fd \<Longrightarrow>
     datagram fd' \<and> (\<exists>xs. fd_sent fd' = fd_sent fd @ map snd xs \<and> ps = xs @ ps')"
proof (induction clk ps fd rule: release.induct)
  case (2 clk t p ps fd)
  show ?case
  proof (cases "t \<le> clk 0")
    case False
    with 2 show ?thesis by simp
  next
    case True
    with 2 obtain fd1 where w: "write_all p fd = Inr fd1" and r: "release (\<lambda>i. clk (Suc i)) ps fd1 = Inr (fd', ps')" by auto
    have "fd_sent fd1 = fd_sent fd @ [p]" "datagram fd1" using write_all_datagram_Inr [OF "2.prems"(2) w] by simp_all
    moreover obtain xs where "datagram fd'" "fd_sent fd' = fd_sent fd1 @ map snd xs" "ps = xs @ ps'"
      using "2.IH" [OF True w r \<open>datagram fd1\<close>] by blast
    ultimately show ?thesis by (intro conjI exI [of _ "(t, p) # xs"]) simp_all
  qed
qed simp

interpretation delay: lossless_ferry delay_ferry "\<lambda>q. map snd (delayed q)" "\<lambda>q. True"
proof (unfold_locales, goal_cases)
  case (2 q fd e fd' q')
  then show ?case by (auto simp: delay_ferry_def delay_write_packets_def dest!: release_datagram)
next
  case (6 fd e q fd' q')
  then show ?case by (auto simp: delay_ferry_def delay_write_packets_def dest!: release_datagram)
qed (auto simp: delay_ferry_def delay_read_packet_def delay_write_packets_def dest: release_num)

interpretation iid: ferry_queue iid_ferry loss_packets "\<lambda>q. True"
proof (unfold_locales, goal_cases)
  case (2 q fd e fd' q')
  then show ?case by (auto simp: iid_ferry_def loss_write_packets_def dest!: write_queue_datagram)
qed (auto simp: iid_ferry_def loss_read_packet_def loss_write_packets_def intro: list_emb_append2 dest: write_queue_num)

lemma switch_loop_packets: "switch_loop fuel now q = Inr q' \<Longrightarrow> loss_packets q' = loss_packets q"
  by (induction fuel arbitrary: q) (auto simp: switch_once_def Let_def split: if_splits)

interpretation switching: ferry_queue "switching_ferry fuel" loss_packets "\<lambda>q. True"
proof (unfold_locales, goal_cases)
  case (2 q fd e fd' q')
  then show ?case by (auto simp: switching_ferry_def loss_write_packets_def dest!: write_queue_datagram)
qed (auto simp: switching_ferry_def loss_read_packet_def loss_write_packets_def switching_wait_time_def dest: switch_loop_packets write_queue_num)

interpretation meter: lossless_ferry meter_ferry meter_packets "\<lambda>q. True"
proof (unfold_locales, goal_cases)
  case (2 q fd e fd' q')
  then show ?case by (auto simp: meter_ferry_def meter_write_packets_def dest!: write_queue_datagram)
next
  case (6 fd e q fd' q')
  then show ?case by (auto simp: meter_ferry_def meter_write_packets_def dest!: write_queue_datagram)
qed (auto simp: meter_ferry_def meter_read_packet_def meter_write_packets_def Let_def dest: write_queue_num split: option.splits)

interpretation link: ferry_queue link_ferry "pipeline any_pkts" "\<lambda>l. any_inv (link_packets l) \<and> transit_wf l"
proof (unfold_locales, goal_cases)
  case (1 q pkt e q')
  have "any_inv (link_packets q') \<and> transit_wf q' \<and> subseq (pipeline any_pkts q') (pipeline any_pkts q @ [pkt])"
  proof (rule any.read_packet_accounts)
    show "read_packet any_ops (clock e 0) pkt q = Inr q'" using 1(4) by (simp add: link_ferry_def)
    fix x assume "subseq (map contents (any_pkts x)) (pipeline any_pkts q)"
    then show "fits (mk_QueuedPacket pkt (clock e 0)) (any_pkts x)" using 1(2,3) by (rule fits_of_history)
  qed (use 1 in auto)
  then show ?case by blast
next
  case (2 q fd e fd' q')
  then obtain w: "write_queue (output_queue q) fd = Inr fd'" and "q' = q\<lparr>output_queue := []\<rparr>"
    by (auto simp: link_ferry_def write_packets_def write_outputs_queue)
  with 2 write_queue_datagram [OF w] show ?case
    by (auto simp: pipeline_def in_transit_def transit_wf_def)
next
  case (3 q e w q')
  then have "rationalize_loop (rationalize_fuel (clock e 0) q) any_ops (clock e 0) q = Inr q'"
    by (auto simp: link_ferry_def wait_time_def rationalize_def)
  with any.rationalize_loop_accounts [OF this] 3 show ?case by blast
next
  case (4 e fd q fd' q')
  then show ?case by (auto simp: link_ferry_def write_packets_def write_outputs_queue dest: write_queue_num)
qed

section \<open>Properties\<close>

definition sample_dgram :: file_desc where
  "sample_dgram = \<lparr>fd_num = 5, fd_eof = False, read_count = 0, write_count = 0, accepts = (\<lambda>i n. int n),
     offers = (\<lambda>i n. Some []), fd_sent = [], fd_got = []\<rparr>"

lemma sample_dgram_datagram: "datagram sample_dgram" "fd_sent sample_dgram = []"
  by (simp_all add: datagram_def sample_dgram_def)

lemma release_const:
  "datagram fd \<Longrightarrow> list_all (\<lambda>x. snd x \<noteq> []) ps \<Longrightarrow>
     \<exists>fd'. release (\<lambda>_. now) ps fd = Inr (fd', dropWhile (\<lambda>x. fst x \<le> now) ps) \<and>
       fd_sent fd' = fd_sent fd @ map snd (takeWhile (\<lambda>x. fst x \<le> now) ps)"
proof (induction "\<lambda>_::nat. now" ps fd rule: release.induct)
  case (2 t p ps fd)
  show ?case
  proof (cases "t \<le> now")
    case True
    have ne: "p \<noteq> []" using "2.prems" by simp
    obtain fd1 where w: "write_all p fd = Inr fd1" "fd_sent fd1 = fd_sent fd @ [p]" "datagram fd1"
      using write_all_datagram [OF "2.prems"(1) ne] by blast
    obtain fd' where "release (\<lambda>_. now) ps fd1 = Inr (fd', dropWhile (\<lambda>x. fst x \<le> now) ps)"
        "fd_sent fd' = fd_sent fd1 @ map snd (takeWhile (\<lambda>x. fst x \<le> now) ps)"
      using "2.hyps" [OF True w(1,3)] "2.prems"(2) by auto
    then show ?thesis using True w by simp
  qed simp
qed simp

lemma head_dropWhile: "dropWhile P xs = y # ys \<Longrightarrow> \<not> P y"
  by (metis hd_dropWhile list.distinct(1) list.sel(1))

text \<open>
  \<open>DelayQueue::write_packets\<close> at time \<open>now\<close> returns for nonempty packets and releases exactly the
  packets at the front whose release time has come. Nothing that is due is left at the front, so
  output is no longer pending, and \<open>wait_time\<close> is then the time to the next release (modulo the
  width of \<open>unsigned int\<close>), or its maximal value when the queue is empty.
\<close>

lemma delay_write_packets_spec:
  assumes "datagram fd" and "list_all (\<lambda>x. snd x \<noteq> []) (delayed q)"
  shows "\<exists>fd' q'. delay_write_packets (\<lambda>_. now) fd q = Inr (fd', q') \<and>
     fd_sent fd' = fd_sent fd @ map snd (takeWhile (\<lambda>x. fst x \<le> now) (delayed q)) \<and>
     delayed q' = dropWhile (\<lambda>x. fst x \<le> now) (delayed q) \<and>
     delay_wait_time now q' = (case delayed q' of [] \<Rightarrow> 65535 | (t, p) # _ \<Rightarrow> ucast (t - now)) \<and>
     (\<forall>t p ps. delayed q' = (t, p) # ps \<longrightarrow> now < t)"
proof -
  obtain fd' where r: "release (\<lambda>_. now) (delayed q) fd = Inr (fd', dropWhile (\<lambda>x. fst x \<le> now) (delayed q))"
      "fd_sent fd' = fd_sent fd @ map snd (takeWhile (\<lambda>x. fst x \<le> now) (delayed q))"
    using release_const [OF assms] by blast
  have due: "now < t" if "dropWhile (\<lambda>x. fst x \<le> now) (delayed q) = (t, p) # ps" for t p ps
    using head_dropWhile [OF that] by simp
  have "delay_wait_time now (q\<lparr>delayed := dropWhile (\<lambda>x. fst x \<le> now) (delayed q)\<rparr>)
      = (case dropWhile (\<lambda>x. fst x \<le> now) (delayed q) of [] \<Rightarrow> 65535 | (t, p) # _ \<Rightarrow> ucast (t - now))"
  proof (cases "dropWhile (\<lambda>x. fst x \<le> now) (delayed q)")
    case (Cons x ps)
    then show ?thesis using due [of "fst x" "snd x" ps] by (auto simp: delay_wait_time_def split: prod.split)
  next
    case Nil
    then show ?thesis by (simp only: delay_wait_time_def delay_queue.select_convs delay_queue.update_convs delay_queue.simps list.case max_wait_def) (simp add: max_wait_def)
  qed
  with r due show ?thesis
    by (auto simp: delay_write_packets_def)
qed

text \<open>
  What the generators are documented to deliver: uniform numbers below 1. The rates of the two
  distributions are not negative; a mean time of 0, which \<open>mm-onoff\<close> accepts for one of them, gives draws of 0.
\<close>

definition uniform_draws :: "switching_link \<Rightarrow> bool" where
  "uniform_draws q \<longleftrightarrow> 0 \<le> on_process q \<and> 0 \<le> off_process q \<and> (\<forall>i. 0 \<le> draws q i \<and> draws q i < 1)"

text \<open>The milliseconds that the \<open>i\<close>-th switch from here adds, and the time of the switch after \<open>n\<close> switches.\<close>

definition switch_step :: "switching_link \<Rightarrow> nat \<Rightarrow> nat" where
  "switch_step q i = unat (bound (exponential (if even i = link_is_on q then on_process q else off_process q) (draws q i)))"

definition switch_at :: "nat \<Rightarrow> switching_link \<Rightarrow> nat" where
  "switch_at n q = unat (next_switch_time q) + (\<Sum>i<n. switch_step q i)"

text \<open>Exactly \<open>n\<close> switches are due.\<close>

definition switches_due :: "u64 \<Rightarrow> switching_link \<Rightarrow> nat \<Rightarrow> bool" where
  "switches_due now q n \<longleftrightarrow> unat now < switch_at n q \<and> (\<forall>k<n. switch_at k q \<le> unat now)"

lemma exponential_nonneg: "0 \<le> rate \<Longrightarrow> 0 \<le> u \<Longrightarrow> u < 1 \<Longrightarrow> 0 \<le> exponential rate u"
  unfolding exponential_def by (intro divide_nonneg_nonneg) simp_all

lemma bound_range:
  assumes "0 \<le> x"
  shows "unat (bound x) \<le> 2 ^ 30"
proof (cases "2 ^ 30 < x")
  case True
  then show ?thesis by (simp add: bound_def)
next
  case False
  have f: "0 \<le> \<lfloor>x\<rfloor>" using assms by simp
  have "real_of_int \<lfloor>x\<rfloor> \<le> 1073741824" using of_int_floor_le [of x] False by simp
  then have g: "\<lfloor>x\<rfloor> \<le> 1073741824" by linarith
  then have "unat (of_int \<lfloor>x\<rfloor> :: u64) = nat \<lfloor>x\<rfloor>"
    using f by (simp add: unat_eq_nat_uint uint_word_of_int_eq take_bit_int_eq_self)
  moreover have "nat \<lfloor>x\<rfloor> \<le> 1073741824" using f g by linarith
  ultimately show ?thesis using False by (simp add: bound_def)
qed

lemma switch_step_le: "uniform_draws q \<Longrightarrow> switch_step q i \<le> 2 ^ 30"
  unfolding switch_step_def uniform_draws_def by (intro bound_range) (simp add: exponential_nonneg)

lemma switch_once_step:
  assumes u: "uniform_draws q" and le: "unat (next_switch_time q) \<le> unat now" and room: "unat now + 2 ^ 30 < 2 ^ 64"
  shows "uniform_draws (switch_once q)" and "switch_at n (switch_once q) = switch_at (Suc n) q"
proof -
  show "uniform_draws (switch_once q)" using u by (simp add: uniform_draws_def switch_once_def Let_def)
  let ?b = "bound (exponential (if link_is_on q then on_process q else off_process q) (draws q 0))"
  have s: "unat ?b = switch_step q 0" by (simp add: switch_step_def)
  have "unat (next_switch_time q + ?b) = unat (next_switch_time q) + switch_step q 0"
    using le room switch_step_le [OF u, of 0] unfolding s [symmetric] by (intro unat_add_small) simp
  then have n: "unat (next_switch_time (switch_once q)) = unat (next_switch_time q) + switch_step q 0"
    by (simp add: switch_once_def Let_def split: if_splits)
  have "switch_step (switch_once q) i = switch_step q (Suc i)" for i
    by (simp add: switch_step_def switch_once_def Let_def)
  then have "switch_step (switch_once q) = (\<lambda>i. switch_step q (Suc i))" by (rule ext)
  then show "switch_at n (switch_once q) = switch_at (Suc n) q"
    unfolding switch_at_def n by (simp only: sum.lessThan_Suc_shift add.assoc)
qed

lemma switch_at_0: "switch_at 0 q = unat (next_switch_time q)"
  by (simp add: switch_at_def)

lemma switches_due_Suc:
  assumes "switches_due now q (Suc n)" and "uniform_draws q" and "unat now + 2 ^ 30 < 2 ^ 64"
  shows "next_switch_time q \<le> now" and "switches_due now (switch_once q) n" and "uniform_draws (switch_once q)"
proof -
  have le: "unat (next_switch_time q) \<le> unat now" using assms(1) switch_at_0 [of q] by (auto simp: switches_due_def)
  note st = switch_once_step [OF assms(2) le assms(3)]
  show "next_switch_time q \<le> now" using le by (simp add: word_le_nat_alt)
  show "switches_due now (switch_once q) n" using assms(1) by (auto simp: switches_due_def st(2))
  show "uniform_draws (switch_once q)" by (rule st(1))
qed

lemma switch_loop_makes_due:
  "switches_due now q n \<Longrightarrow> uniform_draws q \<Longrightarrow> unat now + 2 ^ 30 < 2 ^ 64 \<Longrightarrow> n < fuel \<Longrightarrow>
     switch_loop fuel now q = Inr ((switch_once ^^ n) q) \<and> unat (next_switch_time ((switch_once ^^ n) q)) = switch_at n q \<and>
     link_is_on ((switch_once ^^ n) q) = (link_is_on q \<noteq> odd n)"
proof (induction n arbitrary: q fuel)
  case 0
  then have "\<not> next_switch_time q \<le> now" by (simp add: switches_due_def switch_at_0 word_le_nat_alt)
  then show ?case using "0.prems"(4) by (cases fuel) (simp_all add: switch_at_0)
next
  case (Suc n)
  obtain f where f: "fuel = Suc f" "n < f" using Suc.prems(4) by (cases fuel) auto
  note d = switches_due_Suc [OF Suc.prems(1-3)]
  have le: "unat (next_switch_time q) \<le> unat now" using d(1) by (simp add: word_le_nat_alt)
  have "link_is_on (switch_once q) = (\<not> link_is_on q)" by (simp add: switch_once_def Let_def)
  then show ?case
    using Suc.IH [OF d(2,3) Suc.prems(3) f(2)] d(1) f(1) switch_once_step(2) [OF Suc.prems(2) le Suc.prems(3), of n]
    by (auto simp: funpow_swap1)
qed

lemma switch_loop_stuck:
  "\<forall>n. switch_at n q \<le> unat now \<Longrightarrow> uniform_draws q \<Longrightarrow> unat now + 2 ^ 30 < 2 ^ 64 \<Longrightarrow>
     switch_loop fuel now q = Inl Out_of_fuel"
proof (induction fuel arbitrary: q)
  case (Suc fuel)
  have le: "unat (next_switch_time q) \<le> unat now" using Suc.prems(1) switch_at_0 [of q] by metis
  note st = switch_once_step [OF Suc.prems(2) le Suc.prems(3)]
  have "\<forall>n. switch_at n (switch_once q) \<le> unat now" using Suc.prems(1) st(2) by simp
  with Suc.IH [OF _ st(1) Suc.prems(3)] le show ?case by (simp add: word_le_nat_alt)
qed simp

text \<open>Draws of a millisecond or more, however rare, pass every time.\<close>

lemma moving_draws_pass:
  assumes "\<forall>m. \<exists>i\<ge>m. 1 \<le> switch_step q i"
  shows "\<exists>n. T \<le> (\<Sum>i<n. switch_step q i)"
proof (induction T)
  case (Suc T)
  then obtain n where n: "T \<le> (\<Sum>i<n. switch_step q i)" by blast
  obtain i where i: "n \<le> i" "1 \<le> switch_step q i" using assms by blast
  have "(\<Sum>i<n. switch_step q i) \<le> (\<Sum>i<i. switch_step q i)" using i(1) by (intro sum_mono2) auto
  then have "Suc T \<le> (\<Sum>i<Suc i. switch_step q i)" using n i(2) by simp
  then show ?case by blast
qed simp

lemma first_passing:
  assumes "unat now < switch_at m q"
  shows "\<exists>n. switches_due now q n"
proof -
  have "switches_due now q (LEAST n. unat now < switch_at n q)"
    unfolding switches_due_def using LeastI [of "\<lambda>n. unat now < switch_at n q", OF assms] not_less_Least by (auto simp: not_less [symmetric])
  then show ?thesis by blast
qed

text \<open>
  C30: The ferry of \<open>mm-onoff\<close>. When \<open>n\<close> switches are due, \<open>SwitchingLink::wait_time\<close> returns
  having made exactly these, each toggling the link and moving the switch time by one draw; the next switch lies
  in the future; the packets are untouched; and the time to wait is 0 when packets are queued and otherwise the time to
  the next switch, cut off at 65535. A number of switches is due, and so the call returns, whenever infinitely many of the draws to
  come are a millisecond or more, even if others, such as those for a mean time of 0, are not; if no sum of the draws
  passes the clock, the loop does not end. The generator delivers uniform numbers of [0,1), the rates are not negative, and
  the clock is at least \<open>2 ^ 30\<close> below its maximum.
\<close>

theorem switching_wait_time_spec:
  assumes u: "uniform_draws q" and room: "unat now + 2 ^ 30 < 2 ^ 64"
  shows "(\<forall>n fuel. switches_due now q n \<and> n < fuel \<longrightarrow>
       (\<exists>w q'. switching_wait_time fuel now q = Inr (w, q') \<and> q' = (switch_once ^^ n) q \<and>
          unat (next_switch_time q') = switch_at n q \<and> now < next_switch_time q' \<and>
          link_is_on q' = (link_is_on q \<noteq> odd n) \<and> loss_packets q' = loss_packets q \<and>
          unat w = (if loss_packets q \<noteq> [] then 0 else min 65535 (switch_at n q - unat now)))) \<and>
     ((\<forall>m. \<exists>i\<ge>m. 1 \<le> switch_step q i) \<longrightarrow> (\<exists>n. switches_due now q n)) \<and>
     ((\<forall>n. switch_at n q \<le> unat now) \<longrightarrow> (\<forall>fuel. switching_wait_time fuel now q = Inl Out_of_fuel))"
proof (intro conjI allI impI)
  fix n fuel
  assume n: "switches_due now q n \<and> n < fuel"
  let ?q = "(switch_once ^^ n) q"
  have q': "switch_loop fuel now q = Inr ?q" "unat (next_switch_time ?q) = switch_at n q" "link_is_on ?q = (link_is_on q \<noteq> odd n)"
    using switch_loop_makes_due [OF _ u room] n by blast+
  then have lt: "now < next_switch_time ?q" using n by (simp add: switches_due_def word_less_nat_alt)
  have p: "loss_packets ?q = loss_packets q" using switch_loop_packets [OF q'(1)] .
  let ?d = "next_switch_time ?q - now"
  have d: "unat ?d = switch_at n q - unat now" using lt by (simp add: unat_sub q'(2) [symmetric])
  have "unat (ucast ?d :: u32) = unat ?d" if "\<not> 65535 < ?d"
    using that by (simp add: word_less_nat_alt unsigned_ucast_eq take_bit_nat_eq_self)
  then have "unat (if loss_wait_time ?q = 0 then 0 else if 65535 < ?d then max_wait else ucast ?d)
      = (if loss_packets q \<noteq> [] then 0 else min 65535 (unat ?d))"
    by (auto simp: loss_wait_time_def max_wait_def p word_less_nat_alt)
  with q' lt p d show "\<exists>w q'. switching_wait_time fuel now q = Inr (w, q') \<and> q' = ?q \<and>
          unat (next_switch_time q') = switch_at n q \<and> now < next_switch_time q' \<and>
          link_is_on q' = (link_is_on q \<noteq> odd n) \<and> loss_packets q' = loss_packets q \<and>
          unat w = (if loss_packets q \<noteq> [] then 0 else min 65535 (switch_at n q - unat now))"
    unfolding switching_wait_time_def by auto
next
  assume "\<forall>m. \<exists>i\<ge>m. 1 \<le> switch_step q i"
  then obtain m where "Suc (unat now) \<le> (\<Sum>i<m. switch_step q i)" using moving_draws_pass by blast
  then show "\<exists>n. switches_due now q n" by (intro first_passing [of now m]) (simp add: switch_at_def)
next
  fix fuel
  assume "\<forall>n. switch_at n q \<le> unat now"
  then show "switching_wait_time fuel now q = Inl Out_of_fuel"
    using switch_loop_stuck [OF _ u room] by (simp add: switching_wait_time_def)
qed

definition sample_switching :: switching_link where
  "sample_switching = \<lparr>loss_packets = [], link_is_on = False, on_process = 0, off_process = 1, next_switch_time = 0,
     draws = (\<lambda>_. 1 - exp (- 2))\<rparr>"

text \<open>A link whose mean time off is 0: every other draw is 0, the others are 2 milliseconds.\<close>

theorem switching_wait_time_spec_witness:
  "\<exists>w q'. switching_wait_time 6 3 sample_switching = Inr (w, q') \<and> unat (next_switch_time q') = 4 \<and> link_is_on q' \<and> unat w = 1"
proof -
  have u: "uniform_draws sample_switching" by (simp add: uniform_draws_def sample_switching_def)
  have step: "switch_step sample_switching i = (if even i then 2 else 0)" for i
    by (simp add: switch_step_def sample_switching_def exponential_def bound_def)
  have "switches_due 3 sample_switching 3"
  proof -
    have "switch_at k sample_switching = (if k = 0 then 0 else if k \<le> 2 then 2 else 4)" if "k \<le> 3" for k
    proof -
      from that consider "k = 0" | "k = 1" | "k = 2" | "k = 3" by linarith
      then show ?thesis by cases (simp_all add: switch_at_def step numeral_2_eq_2 numeral_3_eq_3, simp_all add: sample_switching_def)
    qed
    then show ?thesis by (auto simp: switches_due_def)
  qed
  moreover have "switch_at 3 sample_switching = 4" by (simp add: switch_at_def step numeral_3_eq_3) (simp add: sample_switching_def)
  ultimately show ?thesis
    using conjunct1 [OF switching_wait_time_spec [OF u, of 3], rule_format, of 3 6] by (auto simp: sample_switching_def)
qed

end
