(* ===== verification/Poller.thy ===== *)
theory Poller
  imports File_Desc
begin

text \<open>
  \<open>Poller\<close>, src/src/util/poller.{hh,cc}. The callbacks of the actions are functions on a state
  \<open>'s\<close> that holds everything they capture, the file descriptors among it; \<open>act_fd\<close> finds the
  descriptor of an action in the state. The system call \<open>poll\<close> is a parameter: it is given the
  descriptors and the timeout and returns its result and the \<open>revents\<close>.

  The locale \<open>handlers\<close> is the contract a set of actions has to meet for an invariant to survive
  a poll: a handler keeps the invariant and does not disable a handler that is still to be called.
\<close>

unbundle bit_operations_syntax

section \<open>Model\<close>

datatype direction = In | Out

datatype action_result = Continue | Exit u32 | Cancel

datatype poll_result = Poll_Success | Poll_Timeout | Poll_Exit u32

record 's action =
  act_fd :: "'s \<Rightarrow> file_desc"
  direction :: direction
  callback :: "'s \<Rightarrow> (action_result \<times> 's) res"
  when_interested :: "'s \<Rightarrow> bool"
  active :: bool

definition mk_action :: "('s \<Rightarrow> file_desc) \<Rightarrow> direction \<Rightarrow> ('s \<Rightarrow> (action_result \<times> 's) res) \<Rightarrow> ('s \<Rightarrow> bool) \<Rightarrow> 's action" where
  "mk_action f d c w = \<lparr>act_fd = f, direction = d, callback = c, when_interested = w, active = True\<rparr>"

record pollfd =
  pfd :: int
  events :: u16
  revents :: u16

record 's poller =
  actions :: "'s action list"
  pollfds :: "pollfd list"

definition mk_poller :: "'s poller" where
  "mk_poller = \<lparr>actions = [], pollfds = []\<rparr>"

definition poll_bits :: "direction \<Rightarrow> u16" where
  "poll_bits d = (case d of In \<Rightarrow> 1 | Out \<Rightarrow> 4)"

definition poll_error_bits :: u16 where
  "poll_error_bits = 8 OR 16 OR 32"

definition add_action :: "'s \<Rightarrow> 's action \<Rightarrow> 's poller \<Rightarrow> 's poller" where
  "add_action s a po =
     po\<lparr>actions := actions po @ [a],
        pollfds := pollfds po @ [\<lparr>pfd = fd_num (act_fd a s), events = 0, revents = 0\<rparr>]\<rparr>"

definition service_count :: "'s action \<Rightarrow> 's \<Rightarrow> u32" where
  "service_count a s = (if direction a = In then read_count (act_fd a s) else write_count (act_fd a s))"

text \<open>The events to ask for, and the loop that asks for them.\<close>

definition wanted :: "'s action \<Rightarrow> 's \<Rightarrow> u16" where
  "wanted a s =
     (if direction a = In \<and> fd_eof (act_fd a s) then 0
      else if active a \<and> when_interested a s then poll_bits (direction a) else 0)"

fun set_events :: "'s \<Rightarrow> 's action list \<Rightarrow> pollfd list \<Rightarrow> pollfd list res" where
  "set_events s (a # as) (p # ps) =
     asserting (pfd p = fd_num (act_fd a s))
       (res_bind (set_events s as ps) (\<lambda>ps'. Inr (p\<lparr>events := wanted a s\<rparr> # ps')))"
| "set_events s [] ps = Inr []"
| "set_events s (a # as) [] = Inl Out_of_range"

definition busy_wait :: error where
  "busy_wait = Runtime_error ''Poller: busy wait detected: callback did not read/write fd''"

text \<open>The loop over the descriptors after \<open>poll\<close>: the result, the actions and the state it leaves.\<close>

fun service :: "pollfd list \<Rightarrow> 's action list \<Rightarrow> 's \<Rightarrow> (poll_result \<times> 's action list \<times> 's) res" where
  "service [] as s = Inr (Poll_Success, as, s)"
| "service (p # ps) [] s = Inl Out_of_range"
| "service (p # ps) (a # as) s =
     (if revents p AND poll_error_bits \<noteq> 0 then Inr (Poll_Exit 0, a # as, s)
      else if revents p AND events p \<noteq> 0 then
        res_bind (callback a s) (\<lambda>(r, s1).
          case r of
            Exit status \<Rightarrow> Inr (Poll_Exit status, a # as, s1)
          | _ \<Rightarrow>
              let a1 = (if r = Cancel then a\<lparr>active := False\<rparr> else a) in
              if service_count a s = service_count a1 s1 then Inl busy_wait
              else res_bind (service ps as s1) (\<lambda>(res, as', s2). Inr (res, a1 # as', s2)))
      else res_bind (service ps as s) (\<lambda>(res, as', s2). Inr (res, a # as', s2)))"

definition store_revents :: "u16 list \<Rightarrow> pollfd list \<Rightarrow> pollfd list" where
  "store_revents rs ps = map2 (\<lambda>p r. p\<lparr>revents := r\<rparr>) ps rs"

definition poll :: "(pollfd list \<Rightarrow> int \<Rightarrow> int \<times> u16 list) \<Rightarrow> int \<Rightarrow> 's poller \<Rightarrow> 's \<Rightarrow> (poll_result \<times> 's poller \<times> 's) res" where
  "poll sys_poll timeout_ms po s =
     asserting (length (pollfds po) = length (actions po))
       (res_bind (set_events s (actions po) (pollfds po)) (\<lambda>ps.
          if \<forall>p\<in>set ps. events p = 0 then Inr (Poll_Exit 0, po\<lparr>pollfds := ps\<rparr>, s)
          else
            let (n, rs) = sys_poll ps timeout_ms in
            if n < 0 then Inl (Unix_error ''poll'')
            else if length rs \<noteq> length ps then Inl Undefined_behaviour
            else
              let ps1 = store_revents rs ps in
              if n = 0 then Inr (Poll_Timeout, po\<lparr>pollfds := ps1\<rparr>, s)
              else res_bind (service ps1 (actions po) s) (\<lambda>(res, as', s').
                Inr (res, po\<lparr>actions := as', pollfds := ps1\<rparr>, s'))))"

text \<open>
  The loop of the callers, \<open>while ( true )\<close> around \<open>poll( wait_time() )\<close>, over the answers of
  successive system calls: the exit status once the poller asks to exit, \<open>None\<close> while it runs.
\<close>

fun poll_loop :: "('s \<Rightarrow> (int \<times> 's) res) \<Rightarrow> (pollfd list \<Rightarrow> int \<Rightarrow> int \<times> u16 list) list \<Rightarrow> 's poller \<Rightarrow> 's \<Rightarrow>
    (u32 option \<times> 's poller \<times> 's) res" where
  "poll_loop wait [] po s = Inr (None, po, s)"
| "poll_loop wait (k # ks) po s =
     res_bind (wait s) (\<lambda>(t, s1).
       res_bind (poll k t po s1) (\<lambda>(r, po', s').
         case r of Poll_Exit status \<Rightarrow> Inr (Some status, po', s') | _ \<Rightarrow> poll_loop wait ks po' s'))"

text \<open>What the system call is relied on for: it answers for as many descriptors as it is given.\<close>

definition honest :: "(pollfd list \<Rightarrow> int \<Rightarrow> int \<times> u16 list) \<Rightarrow> bool" where
  "honest k \<longleftrightarrow> (\<forall>ps t. length (snd (k ps t)) = length ps)"

section \<open>Well-formed pollers\<close>

definition poller_ok :: "'s poller \<Rightarrow> 's \<Rightarrow> bool" where
  "poller_ok po s \<longleftrightarrow> map pfd (pollfds po) = map (\<lambda>a. fd_num (act_fd a s)) (actions po)"

lemma poller_ok_empty: "poller_ok mk_poller s"
  by (simp add: poller_ok_def mk_poller_def)

lemma poller_ok_add: "poller_ok po s \<Longrightarrow> poller_ok (add_action s a po) s"
  by (simp add: poller_ok_def add_action_def)

lemma poller_ok_fold:
  "poller_ok po s \<Longrightarrow> poller_ok (fold (add_action s) as po) s \<and> actions (fold (add_action s) as po) = actions po @ as"
  by (induction as arbitrary: po) (auto simp: poller_ok_add, simp add: add_action_def)

lemma set_events_ok:
  "map pfd ps = map (\<lambda>a. fd_num (act_fd a s)) as \<Longrightarrow>
     set_events s as ps = Inr (map2 (\<lambda>a p. p\<lparr>events := wanted a s\<rparr>) as ps)"
proof (induction as arbitrary: ps)
  case (Cons a as)
  then obtain p qs where "ps = p # qs" "pfd p = fd_num (act_fd a s)" "map pfd qs = map (\<lambda>a. fd_num (act_fd a s)) as"
    by (cases ps) auto
  with Cons.IH show ?case by (simp add: asserting_def)
qed simp

text \<open>Asking for an event implies being active, interested and not at the end of the file.\<close>

lemma wanted_nonzero:
  "wanted a s \<noteq> 0 \<longleftrightarrow> active a \<and> when_interested a s \<and> \<not> (direction a = In \<and> fd_eof (act_fd a s))"
  by (auto simp: wanted_def poll_bits_def split: direction.splits)

section \<open>What a poll does\<close>

text \<open>Only \<open>active\<close> ever changes in an action, and only from true to false.\<close>

definition retired :: "'s action \<Rightarrow> 's action \<Rightarrow> bool" where
  "retired a a' \<longleftrightarrow> a' = a \<or> a' = a\<lparr>active := False\<rparr>"

lemma retired_refl [simp]: "retired a a"
  by (simp add: retired_def)

lemma retired_same: "retired a a' \<Longrightarrow> callback a' = callback a \<and> act_fd a' = act_fd a \<and> when_interested a' = when_interested a \<and> direction a' = direction a"
  by (auto simp: retired_def)

lemma retired_service_count [simp]: "service_count (a\<lparr>active := b\<rparr>) s = service_count a s"
  by (simp add: service_count_def)

abbreviation ready :: "pollfd \<Rightarrow> bool" where
  "ready p \<equiv> revents p AND events p \<noteq> 0"

text \<open>The ways one iteration of the loop can go.\<close>

lemma service_ConsE:
  assumes "service (p # ps) (a # as) s = Inr (res, as', s')"
  obtains (error) "res = Poll_Exit 0" "as' = a # as" "s' = s"
  | (exit) status where "ready p" "callback a s = Inr (Exit status, s')" "res = Poll_Exit status" "as' = a # as"
  | (serve) r s1 a1 as1 where "ready p" "callback a s = Inr (r, s1)" "service_count a s \<noteq> service_count a s1"
      "service ps as s1 = Inr (res, as1, s')" "as' = a1 # as1" "retired a a1" "r = Cancel \<Longrightarrow> \<not> active a1"
  | (skip) as1 where "\<not> ready p" "service ps as s = Inr (res, as1, s')" "as' = a # as1"
proof (cases "revents p AND poll_error_bits = 0")
  case False
  then show thesis using assms error by simp
next
  case ok: True
  show thesis
  proof (cases "ready p")
    case False
    with ok assms show thesis by (auto intro: skip)
  next
    case True
    with ok assms obtain r s1 where c: "callback a s = Inr (r, s1)" by (cases "callback a s") auto
    show thesis
    proof (cases r)
      case (Exit status)
      then show thesis using exit True ok c assms by simp
    next
      case Continue
      with True ok c assms show thesis by (auto simp: Let_def intro: serve split: if_splits)
    next
      case Cancel
      with True ok c assms show thesis by (auto simp: Let_def retired_def intro: serve split: if_splits)
    qed
  qed
qed

lemma service_Cons_InlE:
  assumes "service (p # ps) (a # as) s = Inl err"
  obtains (callback) "ready p" "callback a s = Inl err"
  | (busy) "ready p" "err = busy_wait"
  | (serve) r s1 where "ready p" "callback a s = Inr (r, s1)" "service ps as s1 = Inl err"
  | (skip) "\<not> ready p" "service ps as s = Inl err"
proof (cases "revents p AND poll_error_bits = 0")
  case False
  then show thesis using assms by simp
next
  case ok: True
  show thesis
  proof (cases "ready p")
    case False
    with ok assms show thesis by (intro skip) (auto simp: res_bind_def split: sum.splits)
  next
    case True
    show thesis
    proof (cases "callback a s")
      case (Inl e)
      then show thesis using callback True ok assms by (simp add: res_bind_def)
    next
      case (Inr x)
      obtain r s1 where c: "callback a s = Inr (r, s1)" using Inr by (cases x) auto
      show thesis
      proof (cases "r = Continue \<or> r = Cancel")
        case False
        with c True ok assms show thesis by (cases r) auto
      next
        case False': True
        show thesis
        proof (cases "service_count a s = service_count a s1")
          case True
          with False' c \<open>ready p\<close> ok assms show thesis by (intro busy) (auto simp: Let_def)
        next
          case False
          with False' c \<open>ready p\<close> ok assms show thesis
            by (intro serve [OF _ c]) (auto simp: Let_def res_bind_def split: sum.splits)
        qed
      qed
    qed
  qed
qed

lemma service_retires:
  "service ps as s = Inr (res, as', s') \<Longrightarrow> list_all2 retired as as'"
proof (induction ps arbitrary: as as' s)
  case Nil
  then show ?case by (simp add: list_all2_refl)
next
  case (Cons p ps)
  then obtain a bs where as: "as = a # bs" by (cases as) auto
  from Cons.prems [unfolded as] show ?case
    by (cases rule: service_ConsE) (auto simp: as list_all2_refl dest: Cons.IH)
qed

text \<open>A predicate the ready handlers keep survives the loop, and on success each of them has run.\<close>

lemma service_only:
  "service ps as s = Inr (res, as', s') \<Longrightarrow> P s \<Longrightarrow> length ps = length as \<Longrightarrow>
     (\<And>i x r x'. i < length as \<Longrightarrow> ready (ps ! i) \<Longrightarrow> P x \<Longrightarrow> callback (as ! i) x = Inr (r, x') \<Longrightarrow> P x') \<Longrightarrow> P s'"
proof (induction ps arbitrary: as as' s)
  case (Cons p ps)
  then obtain a bs where as: "as = a # bs" by (cases as) auto
  have hd: "P x'" if "ready p" "P x" "callback a x = Inr (r, x')" for x r x'
    using Cons.prems(4) [of 0 x r x'] that as by simp
  have tl: "P x'" if "i < length bs" "ready (ps ! i)" "P x" "callback (bs ! i) x = Inr (r, x')" for i x r x'
    using Cons.prems(4) [of "Suc i" x r x'] that as by simp
  from Cons.prems(1) [unfolded as] show ?case
  proof (cases rule: service_ConsE)
    case (serve r s1 a1 as1)
    show ?thesis using Cons.IH [OF serve(4) hd [OF serve(1) Cons.prems(2) serve(2)]] Cons.prems(3) as tl by simp
  next
    case (skip as1)
    show ?thesis using Cons.IH [OF skip(2) Cons.prems(2)] Cons.prems(3) as tl by simp
  qed (use hd Cons.prems(2) in auto)
qed simp

text \<open>
  One action of the loop, with the state before and after it: the callback runs on this state exactly when the
  event is reported, it uses its descriptor, and it does not ask to exit; \<open>a'\<close> is what becomes of the action.
\<close>

definition served_action :: "bool \<Rightarrow> 's action \<Rightarrow> 's action \<Rightarrow> 's \<Rightarrow> 's \<Rightarrow> bool" where
  "served_action reported a a' x x' \<longleftrightarrow>
     (if reported
      then \<exists>r. callback a x = Inr (r, x') \<and> service_count a x \<noteq> service_count a x' \<and> (\<forall>status. r \<noteq> Exit status) \<and>
        a' = (if r = Cancel then a\<lparr>active := False\<rparr> else a)
      else x' = x \<and> a' = a)"

lemma service_success_Cons:
  assumes "service (p # ps) (a # as) s = Inr (Poll_Success, as', s')"
  shows "\<exists>a1 as1 s1. as' = a1 # as1 \<and> served_action (ready p) a a1 s s1 \<and> service ps as s1 = Inr (Poll_Success, as1, s')"
proof (cases "ready p")
  case False
  then show ?thesis using assms by (auto simp: served_action_def split: if_splits)
next
  case True
  obtain r s1 where c: "callback a s = Inr (r, s1)" using assms True by (cases "callback a s") (auto split: if_splits)
  show ?thesis using assms True c by (cases r) (auto simp: served_action_def Let_def split: if_splits)
qed

lemma service_all:
  "service ps as s = Inr (Poll_Success, as', s') \<Longrightarrow> length ps = length as \<Longrightarrow>
     \<exists>xs. length xs = Suc (length as) \<and> xs ! 0 = s \<and> xs ! length as = s' \<and>
       (\<forall>i<length as. served_action (ready (ps ! i)) (as ! i) (as' ! i) (xs ! i) (xs ! Suc i))"
proof (induction ps arbitrary: as as' s)
  case Nil
  then show ?case by (intro exI [of _ "[s]"]) simp
next
  case (Cons p ps)
  then obtain a bs where as: "as = a # bs" by (cases as) auto
  obtain a1 as1 s1 where 1: "as' = a1 # as1" "served_action (ready p) a a1 s s1" "service ps bs s1 = Inr (Poll_Success, as1, s')"
    using service_success_Cons [OF Cons.prems(1) [unfolded as]] by blast
  obtain xs where xs: "length xs = Suc (length bs)" "xs ! 0 = s1" "xs ! length bs = s'"
      "\<forall>i<length bs. served_action (ready (ps ! i)) (bs ! i) (as1 ! i) (xs ! i) (xs ! Suc i)"
    using Cons.IH [OF 1(3)] Cons.prems(2) as by auto
  have "\<forall>i<length as. served_action (ready ((p # ps) ! i)) (as ! i) (as' ! i) ((s # xs) ! i) ((s # xs) ! Suc i)"
    using 1(1,2) xs(2,4) as by (auto simp: less_Suc_eq_0_disj)
  then show ?case using xs as by (intro exI [of _ "s # xs"]) simp
qed

section \<open>Invariants of the handlers\<close>

text \<open>
  \<open>enabled i s\<close> is what the callback of the \<open>i\<close>-th action relies on. It has to follow from the
  interest of the action and must not be destroyed by the callbacks that run before it.
\<close>

locale handlers =
  fixes acts :: "'s action list"
    and I :: "'s \<Rightarrow> bool"
    and enabled :: "nat \<Rightarrow> 's \<Rightarrow> bool"
    and tolerated :: "error \<Rightarrow> bool"
  assumes interest: "i < length acts \<Longrightarrow> I s \<Longrightarrow> when_interested (acts ! i) s \<Longrightarrow> enabled i s"
    and keeps: "i < length acts \<Longrightarrow> I s \<Longrightarrow> enabled i s \<Longrightarrow> callback (acts ! i) s = Inr (r, s') \<Longrightarrow>
       I s' \<and> (\<forall>b\<in>set acts. fd_num (act_fd b s') = fd_num (act_fd b s))"
    and fails: "i < length acts \<Longrightarrow> I s \<Longrightarrow> enabled i s \<Longrightarrow> callback (acts ! i) s = Inl err \<Longrightarrow> tolerated err"
    and undisturbed: "i < j \<Longrightarrow> j < length acts \<Longrightarrow> I s \<Longrightarrow> enabled i s \<Longrightarrow> enabled j s \<Longrightarrow>
       callback (acts ! i) s = Inr (r, s') \<Longrightarrow> enabled j s'"
    and busy: "tolerated busy_wait"
    and poll_error: "tolerated (Unix_error ''poll'')"
begin

definition serving :: "nat \<Rightarrow> pollfd list \<Rightarrow> 's action list \<Rightarrow> 's \<Rightarrow> bool" where
  "serving k ps as s \<longleftrightarrow> I s \<and> k + length as = length acts \<and> length ps = length as \<and> list_all2 retired (drop k acts) as \<and>
     (\<forall>j<length as. events (ps ! j) \<noteq> 0 \<longrightarrow> enabled (k + j) s)"

lemma serving_Cons:
  assumes "serving k (p # ps) (a # as) s"
  shows "k < length acts" and "retired (acts ! k) a" and "ready p \<Longrightarrow> enabled k s" and "I s"
    and "serving (Suc k) ps as s"
    and "ready p \<Longrightarrow> callback a s = Inr (r, s1) \<Longrightarrow> serving (Suc k) ps as s1"
proof -
  show k: "k < length acts" and I: "I s" using assms by (auto simp: serving_def)
  have d: "drop k acts = acts ! k # drop (Suc k) acts" using k by (simp add: Cons_nth_drop_Suc)
  show r: "retired (acts ! k) a" using assms by (simp add: serving_def d)
  show e: "ready p \<Longrightarrow> enabled k s" using assms by (cases "events p = 0") (force simp: serving_def)+
  show s: "serving (Suc k) ps as s" using assms by (force simp: serving_def d)
  show "serving (Suc k) ps as s1" if "ready p" "callback a s = Inr (r, s1)"
  proof -
    have c: "callback (acts ! k) s = Inr (r, s1)" and en: "enabled k s"
      using that retired_same [OF r] e by auto
    have "enabled (Suc k + j) s1" if "j < length as" "events (ps ! j) \<noteq> 0" for j
      using undisturbed [OF _ _ I en _ c, of "Suc k + j"] s that k by (auto simp: serving_def)
    with keeps [OF k I en c] s show ?thesis by (simp add: serving_def)
  qed
qed

lemma service_keeps:
  "service ps as s = Inr (res, as', s') \<Longrightarrow> serving k ps as s \<Longrightarrow>
     I s' \<and> (\<forall>b\<in>set acts. fd_num (act_fd b s') = fd_num (act_fd b s))"
proof (induction ps arbitrary: as as' s k)
  case Nil
  then show ?case by (simp add: serving_def)
next
  case (Cons p ps)
  then obtain a bs where as: "as = a # bs" by (cases as) auto
  note sc = serving_Cons [OF Cons.prems(2) [unfolded as]]
  have step: "I s1 \<and> (\<forall>b\<in>set acts. fd_num (act_fd b s1) = fd_num (act_fd b s))"
    if "ready p" "callback a s = Inr (r, s1)" for r s1
    using that sc keeps [of k s r s1] retired_same [OF sc(2)] by auto
  from Cons.prems(1) [unfolded as] show ?case
  proof (cases rule: service_ConsE)
    case (serve r s1 a1 as1)
    with step sc(6) Cons.IH show ?thesis by fastforce
  qed (use step sc Cons.IH in auto)
qed

lemma service_fails: "service ps as s = Inl err \<Longrightarrow> serving k ps as s \<Longrightarrow> tolerated err"
proof (induction ps arbitrary: as s k)
  case (Cons p ps)
  then obtain a bs where as: "as = a # bs" by (cases as) (auto simp: serving_def)
  note sc = serving_Cons [OF Cons.prems(2) [unfolded as]]
  from Cons.prems(1) [unfolded as] show ?case
  proof (cases rule: service_Cons_InlE)
    case callback
    then show ?thesis using sc fails [of k s err] retired_same [OF sc(2)] by auto
  qed (use sc busy Cons.IH in auto)
qed simp

text \<open>One poll, with any answer of the system call for as many descriptors as it was given.\<close>

lemma wanted_serving:
  assumes "poller_ok po s" and "list_all2 retired acts (actions po)" and "I s" and "length rs = length (actions po)"
    and "set_events s (actions po) (pollfds po) = Inr ps"
  shows "serving 0 (store_revents rs ps) (actions po) s"
proof -
  have len: "length (pollfds po) = length (actions po)" "length acts = length (actions po)"
    using arg_cong [where f = length, OF assms(1) [unfolded poller_ok_def]] list_all2_lengthD [OF assms(2)] by simp_all
  have ps: "ps = map2 (\<lambda>a p. p\<lparr>events := wanted a s\<rparr>) (actions po) (pollfds po)"
    using set_events_ok [OF assms(1) [unfolded poller_ok_def]] assms(5) by simp
  have "enabled j s" if j: "j < length (actions po)" and ev: "events (store_revents rs ps ! j) \<noteq> 0" for j
  proof -
    have "events (store_revents rs ps ! j) = wanted (actions po ! j) s" using j len assms(4) by (simp add: ps store_revents_def)
    then have "when_interested (actions po ! j) s" using ev by (simp add: wanted_nonzero)
    moreover have r: "retired (acts ! j) (actions po ! j)" using assms(2) j len by (simp add: list_all2_conv_all_nth)
    ultimately show ?thesis using interest [of j s] assms(3) j len retired_same [OF r] by auto
  qed
  then show ?thesis using assms(2,3,4) len by (simp add: serving_def ps store_revents_def)
qed

lemma poll_keeps:
  assumes "poll sys_poll t po s = Inr (res, po', s')" and "poller_ok po s" and "list_all2 retired acts (actions po)" and "I s"
  shows "I s' \<and> poller_ok po' s' \<and> list_all2 retired acts (actions po')"
proof -
  have len: "length (pollfds po) = length (actions po)"
    using arg_cong [where f = length, OF assms(2) [unfolded poller_ok_def]] by simp
  obtain ps where ps: "set_events s (actions po) (pollfds po) = Inr ps" and psd: "ps = map2 (\<lambda>a p. p\<lparr>events := wanted a s\<rparr>) (actions po) (pollfds po)"
    using set_events_ok [OF assms(2) [unfolded poller_ok_def]] by blast
  have num: "map pfd ps = map (\<lambda>a. fd_num (act_fd a s)) (actions po)" "map pfd (store_revents rs ps) = map (\<lambda>a. fd_num (act_fd a s)) (actions po)"
    if "length rs = length ps" for rs
    using assms(2) len that by (auto simp: poller_ok_def psd store_revents_def list_eq_iff_nth_eq)
  obtain n rs where k: "sys_poll ps t = (n, rs)" by fastforce
  consider (none) "\<forall>p\<in>set ps. events p = 0" | (timeout) "\<not> (\<forall>p\<in>set ps. events p = 0)" "n = 0" | (serve) "\<not> (\<forall>p\<in>set ps. events p = 0)" "n \<noteq> 0" by blast
  then show ?thesis
  proof cases
    case none
    then have "po' = po\<lparr>pollfds := ps\<rparr>" "s' = s" using assms(1) ps len by (auto simp: poll_def asserting_def)
    then show ?thesis using assms num(1) [of "replicate (length ps) 0"] by (simp add: poller_ok_def)
  next
    case timeout
    then have "po' = po\<lparr>pollfds := store_revents rs ps\<rparr>" "s' = s" "length rs = length ps"
      using assms(1) ps len k by (auto simp: poll_def asserting_def Let_def split: if_splits)
    then show ?thesis using assms num(2) by (simp add: poller_ok_def)
  next
    case serve
    then obtain as' where lr: "length rs = length ps" and sv: "service (store_revents rs ps) (actions po) s = Inr (res, as', s')"
      and po': "po' = po\<lparr>actions := as', pollfds := store_revents rs ps\<rparr>"
      using assms(1) ps len k by (auto simp: poll_def asserting_def Let_def split: if_splits)
    have lr': "length rs = length (actions po)" using lr len by (simp add: psd)
    have keep: "I s'" "\<forall>b\<in>set acts. fd_num (act_fd b s') = fd_num (act_fd b s)"
      using service_keeps [OF sv wanted_serving [OF assms(2,3,4) lr' ps]] by blast+
    have ret: "list_all2 retired acts as'"
      using assms(3) service_retires [OF sv] by (rule list_all2_trans [rotated]) (auto simp: retired_def)
    have "map (\<lambda>a. fd_num (act_fd a s')) as' = map (\<lambda>a. fd_num (act_fd a s)) (actions po)"
    proof (rule nth_equalityI)
      show "length (map (\<lambda>a. fd_num (act_fd a s')) as') = length (map (\<lambda>a. fd_num (act_fd a s)) (actions po))"
        using service_retires [OF sv] by (simp add: list_all2_lengthD)
    next
      fix j assume "j < length (map (\<lambda>a. fd_num (act_fd a s')) as')"
      then have j: "j < length as'" "j < length acts" "j < length (actions po)"
        using list_all2_lengthD [OF ret] list_all2_lengthD [OF assms(3)] by simp_all
      have "act_fd (as' ! j) = act_fd (acts ! j)" "act_fd (actions po ! j) = act_fd (acts ! j)"
        using retired_same [OF list_all2_nthD [OF ret j(2)]] retired_same [OF list_all2_nthD [OF assms(3) j(2)]] by simp_all
      with keep(2) j show "map (\<lambda>a. fd_num (act_fd a s')) as' ! j = map (\<lambda>a. fd_num (act_fd a s)) (actions po) ! j" by simp
    qed
    then show ?thesis using keep(1) ret num(2) [OF lr] po' by (simp add: poller_ok_def)
  qed
qed

lemma poll_fails:
  assumes "poll sys_poll t po s = Inl err" and "poller_ok po s" and "list_all2 retired acts (actions po)" and "I s"
    and "honest sys_poll"
  shows "tolerated err"
proof -
  have len: "length (pollfds po) = length (actions po)"
    using arg_cong [where f = length, OF assms(2) [unfolded poller_ok_def]] by simp
  obtain ps where ps: "set_events s (actions po) (pollfds po) = Inr ps" and psd: "ps = map2 (\<lambda>a p. p\<lparr>events := wanted a s\<rparr>) (actions po) (pollfds po)"
    using set_events_ok [OF assms(2) [unfolded poller_ok_def]] by blast
  obtain n rs where k: "sys_poll ps t = (n, rs)" by fastforce
  have lr: "length rs = length ps" "length rs = length (actions po)" using assms(5) [unfolded honest_def, rule_format, of ps t] k len by (simp_all add: psd)
  have "err = Unix_error ''poll'' \<or> service (store_revents rs ps) (actions po) s = Inl err"
    using assms(1) ps len k lr
    by (auto simp: poll_def asserting_def Let_def res_bind_def [of "service _ _ _"] split: if_splits sum.splits)
  then show ?thesis
    using service_fails wanted_serving [OF assms(2,3,4) lr(2) ps] poll_error by blast
qed

text \<open>A whole loop, when asking for the time to wait keeps the invariant too.\<close>

definition waits :: "('s \<Rightarrow> (int \<times> 's) res) \<Rightarrow> bool" where
  "waits wait \<longleftrightarrow> (\<forall>s. I s \<longrightarrow> (case wait s of Inl err \<Rightarrow> tolerated err
     | Inr (t, s') \<Rightarrow> I s' \<and> (\<forall>b\<in>set acts. fd_num (act_fd b s') = fd_num (act_fd b s))))"

lemma loop_keeps:
  assumes "waits wait"
  shows "list_all honest ks \<Longrightarrow> poller_ok po s \<Longrightarrow> list_all2 retired acts (actions po) \<Longrightarrow> I s \<Longrightarrow>
    case poll_loop wait ks po s of Inl err \<Rightarrow> tolerated err | Inr (x, po', s') \<Rightarrow> I s'"
proof (induction ks arbitrary: po s)
  case (Cons k ks)
  show ?case
  proof (cases "wait s")
    case (Inl err)
    then show ?thesis using assms Cons.prems(4) by (auto simp: waits_def res_bind_def)
  next
    case (Inr x)
    obtain t s1 where w: "wait s = Inr (t, s1)" using Inr by (cases x) auto
    have I1: "I s1" and fds: "\<forall>b\<in>set acts. fd_num (act_fd b s1) = fd_num (act_fd b s)"
      using assms [unfolded waits_def, rule_format, OF Cons.prems(4)] w by auto
    have "map (\<lambda>a. fd_num (act_fd a s1)) (actions po) = map (\<lambda>a. fd_num (act_fd a s)) (actions po)"
      using fds Cons.prems(3) retired_same by (fastforce simp: list_all2_conv_all_nth in_set_conv_nth)
    then have ok1: "poller_ok po s1" using Cons.prems(2) by (simp add: poller_ok_def)
    show ?thesis
    proof (cases "poll k t po s1")
      case (Inl err)
      then show ?thesis using poll_fails [OF Inl ok1 Cons.prems(3) I1] Cons.prems(1) w by (simp add: res_bind_def)
    next
      case (Inr y)
      obtain r po' s' where p: "poll k t po s1 = Inr (r, po', s')" using Inr by (cases y) auto
      note keep = poll_keeps [OF p ok1 Cons.prems(3) I1]
      then have "case poll_loop wait ks po' s' of Inl err \<Rightarrow> tolerated err | Inr (x, po', s') \<Rightarrow> I s'"
        using Cons.IH Cons.prems(1) by simp
      with keep p w show ?thesis by (simp split: poll_result.split)
    qed
  qed
qed simp

end

section \<open>Properties\<close>

text \<open>The descriptors as they are handed to the system call.\<close>

definition asked :: "'s poller \<Rightarrow> 's \<Rightarrow> pollfd list" where
  "asked po s = map2 (\<lambda>a p. p\<lparr>events := wanted a s\<rparr>) (actions po) (pollfds po)"

lemma poll_serves:
  assumes "poll sys_poll t po s = Inr (res, po', s')" and "poller_ok po s"
  shows "(s' = s \<and> actions po' = actions po \<and> res \<noteq> Poll_Success) \<or>
     (\<exists>ps. length ps = length (actions po) \<and>
        service ps (actions po) s = Inr (res, actions po', s') \<and>
        (\<forall>i<length (actions po). events (ps ! i) = wanted (actions po ! i) s \<and> revents (ps ! i) = snd (sys_poll (asked po s) t) ! i))"
proof -
  have len: "length (pollfds po) = length (actions po)"
    using arg_cong [where f = length, OF assms(2) [unfolded poller_ok_def]] by simp
  have ev: "set_events s (actions po) (pollfds po) = Inr (asked po s)"
    unfolding asked_def by (rule set_events_ok [OF assms(2) [unfolded poller_ok_def]])
  obtain n rs where k: "sys_poll (asked po s) t = (n, rs)" by fastforce
  have la: "length (asked po s) = length (actions po)" using len by (simp add: asked_def)
  have st: "events (store_revents rs (asked po s) ! i) = wanted (actions po ! i) s \<and> revents (store_revents rs (asked po s) ! i) = rs ! i"
    if "length rs = length (asked po s)" "i < length (actions po)" for i
    using that len by (simp add: asked_def store_revents_def)
  consider (none) "\<forall>p\<in>set (asked po s). events p = 0" | (timeout) "\<not> (\<forall>p\<in>set (asked po s). events p = 0)" "n = 0"
    | (serve) "\<not> (\<forall>p\<in>set (asked po s). events p = 0)" "n \<noteq> 0" by blast
  then show ?thesis
  proof cases
    case serve
    then obtain as' where lr: "length rs = length (asked po s)"
      and sv: "service (store_revents rs (asked po s)) (actions po) s = Inr (res, as', s')" "actions po' = as'"
      using assms(1) ev len k by (auto simp: poll_def asserting_def Let_def split: if_splits)
    have "length (store_revents rs (asked po s)) = length (actions po)" using lr la by (simp add: store_revents_def)
    with sv st [OF lr] k show ?thesis by auto
  qed (use assms(1) ev len k in \<open>auto simp: poll_def asserting_def Let_def split: if_splits\<close>)
qed

text \<open>
  C13: A poll runs the callback of an action only if the action is active and interested when the
  poll starts, is not an input action at the end of its file, and the system call has reported the
  event: whatever holds before and is kept by those callbacks holds afterwards. Of the actions
  themselves, a poll only ever deactivates some.
\<close>

theorem poll_only_wanted:
  assumes "poll sys_poll t po s = Inr (res, po', s')" and "poller_ok po s" and "P s"
    and "\<And>i x r x'. i < length (actions po) \<Longrightarrow> active (actions po ! i) \<Longrightarrow> when_interested (actions po ! i) s \<Longrightarrow>
       \<not> (direction (actions po ! i) = In \<and> fd_eof (act_fd (actions po ! i) s)) \<Longrightarrow>
       snd (sys_poll (asked po s) t) ! i AND poll_bits (direction (actions po ! i)) \<noteq> 0 \<Longrightarrow>
       P x \<Longrightarrow> callback (actions po ! i) x = Inr (r, x') \<Longrightarrow> P x'"
  shows "P s' \<and> list_all2 retired (actions po) (actions po')"
proof -
  from poll_serves [OF assms(1,2)] show ?thesis
  proof (elim disjE exE conjE)
    fix ps assume len: "length ps = length (actions po)" and sv: "service ps (actions po) s = Inr (res, actions po', s')"
      and ps: "\<forall>i<length (actions po). events (ps ! i) = wanted (actions po ! i) s \<and> revents (ps ! i) = snd (sys_poll (asked po s) t) ! i"
    have "P s'"
    proof (rule service_only [where P = P, OF sv assms(3) len])
      fix i x r x' assume i: "i < length (actions po)" "ready (ps ! i)" "P x" "callback (actions po ! i) x = Inr (r, x')"
      then have rw: "snd (sys_poll (asked po s) t) ! i AND wanted (actions po ! i) s \<noteq> 0" using ps by metis
      then have "wanted (actions po ! i) s \<noteq> 0" by auto
      then have w: "active (actions po ! i)" "when_interested (actions po ! i) s"
        "\<not> (direction (actions po ! i) = In \<and> fd_eof (act_fd (actions po ! i) s))" by (simp_all add: wanted_nonzero)
      then have "wanted (actions po ! i) s = poll_bits (direction (actions po ! i))" by (auto simp: wanted_def)
      with rw i w show "P x'" by (intro assms(4) [of i x r x']) simp_all
    qed
    with service_retires [OF sv] show ?thesis by simp
  next
    assume "s' = s" "actions po' = actions po"
    then show ?thesis using assms(3) by (simp add: list_all2_refl)
  qed
qed

text \<open>A poller with one action that reads from a descriptor.\<close>

definition sample_input :: file_desc where
  "sample_input = sample_fd\<lparr>offers := (\<lambda>i n. Some [1])\<rparr>"

definition sample_reader :: "file_desc action" where
  "sample_reader = mk_action (\<lambda>s. s) In (\<lambda>s. res_bind (fd_read 10 s) (\<lambda>(b, s'). Inr (Continue, s'))) (\<lambda>s. True)"

lemma sample_poll:
  "\<exists>po' s'. poll (\<lambda>ps t. (1, [1])) (-1) (add_action sample_input sample_reader mk_poller) sample_input = Inr (Poll_Success, po', s')"
  by (simp add: poll_def asserting_def add_action_def mk_poller_def sample_reader_def mk_action_def sample_input_def sample_fd_def
      wanted_def poll_bits_def store_revents_def Let_def fd_read_def BUFFER_SIZE_def register_read_def service_count_def poll_error_bits_def)

theorem poll_only_wanted_witness:
  "\<exists>po' s'. poll (\<lambda>ps t. (1, [1])) (-1) (add_action sample_input sample_reader mk_poller) sample_input = Inr (Poll_Success, po', s') \<and>
     fd_sent s' = []"
proof -
  obtain po' s' where p: "poll (\<lambda>ps t. (1, [1])) (-1) (add_action sample_input sample_reader mk_poller) sample_input = Inr (Poll_Success, po', s')"
    using sample_poll by blast
  have "fd_sent s' = [] \<and> list_all2 retired (actions (add_action sample_input sample_reader mk_poller)) (actions po')"
    by (rule poll_only_wanted [OF p poller_ok_add [OF poller_ok_empty], where P = "\<lambda>x. fd_sent x = []"])
       (auto simp: sample_input_def sample_fd_def add_action_def mk_poller_def sample_reader_def mk_action_def dest!: fd_read_Inr(4))
  with p show ?thesis by blast
qed

text \<open>
  C32: A poll that reports success has served every action whose event was asked for and reported, and
  nothing else: the state it leaves arises from the state it was given by the callbacks of exactly these actions, run
  once each, in the order in which the actions were added, each on the state its predecessor left. Every one of them has read from or
  written to its descriptor (otherwise the poll throws) and has not asked to exit, and it is inactive afterwards if it asked to be cancelled;
  all other actions are as before.
\<close>

theorem poll_serves_ready:
  assumes "poll sys_poll t po s = Inr (Poll_Success, po', s')" and "poller_ok po s"
  shows "\<exists>xs. length xs = Suc (length (actions po)) \<and> xs ! 0 = s \<and> xs ! length (actions po) = s' \<and>
     (\<forall>i<length (actions po).
        served_action (snd (sys_poll (asked po s) t) ! i AND wanted (actions po ! i) s \<noteq> 0)
          (actions po ! i) (actions po' ! i) (xs ! i) (xs ! Suc i))"
proof -
  obtain ps where "length ps = length (actions po)" and sv: "service ps (actions po) s = Inr (Poll_Success, actions po', s')"
    and "\<forall>i<length (actions po). events (ps ! i) = wanted (actions po ! i) s \<and> revents (ps ! i) = snd (sys_poll (asked po s) t) ! i"
    using poll_serves [OF assms] by auto
  with service_all [OF sv] show ?thesis by (metis (no_types, lifting))
qed

theorem poll_serves_ready_witness:
  "\<exists>po' s'. poll (\<lambda>ps t. (1, [1])) (-1) (add_action sample_input sample_reader mk_poller) sample_input = Inr (Poll_Success, po', s') \<and>
     (\<exists>r. callback sample_reader sample_input = Inr (r, s')) \<and> service_count sample_reader s' \<noteq> service_count sample_reader sample_input"
proof -
  let ?po = "add_action sample_input sample_reader mk_poller"
  obtain po' s' where p: "poll (\<lambda>ps t. (1, [1])) (-1) ?po sample_input = Inr (Poll_Success, po', s')"
    using sample_poll by blast
  have a: "actions ?po = [sample_reader]" by (simp add: add_action_def mk_poller_def)
  have "wanted sample_reader sample_input = 1"
    by (simp add: wanted_def poll_bits_def sample_reader_def mk_action_def sample_input_def sample_fd_def)
  moreover obtain xs where "xs ! 0 = sample_input" "xs ! 1 = s'"
      "served_action (1 AND wanted sample_reader sample_input \<noteq> 0) sample_reader (actions po' ! 0) (xs ! 0) (xs ! Suc 0)"
    using poll_serves_ready [OF p poller_ok_add [OF poller_ok_empty]] a by auto
  ultimately show ?thesis using p by (auto simp: served_action_def)
qed

end
