(* ===== verification/Child_Process.thy ===== *)
theory Child_Process
  imports Mahimahi_Prelude
begin

text \<open>
  \<open>ChildProcess\<close>, src/src/util/child_process.{hh,cc}. The answers of the system calls are inputs: what
  \<open>clone\<close> returns to the parent, what \<open>waitid\<close> writes into its \<open>siginfo_t\<close> (\<open>None\<close> when it fails) and
  whether \<open>kill\<close> succeeds. An operation that sends signals returns the list of signals it has sent.
  The child's side of the constructor, which runs the procedure and exits, is another process.
\<close>

section \<open>Model\<close>

definition SIGHUP :: int where "SIGHUP = 1"
definition SIGINT :: int where "SIGINT = 2"
definition SIGQUIT :: int where "SIGQUIT = 3"
definition SIGTERM :: int where "SIGTERM = 15"
definition SIGCHLD :: int where "SIGCHLD = 17"
definition SIGCONT :: int where "SIGCONT = 18"
definition SIGSTOP :: int where "SIGSTOP = 19"

lemmas signal_numbers = SIGHUP_def SIGINT_def SIGQUIT_def SIGTERM_def SIGCHLD_def SIGCONT_def SIGSTOP_def

datatype si_code = CLD_EXITED | CLD_KILLED | CLD_DUMPED | CLD_STOPPED | CLD_CONTINUED | CLD_OTHER

record siginfo =
  si_pid :: int
  si_signo :: int
  si_code :: si_code
  si_status :: int

record child_process =
  cp_name :: string
  cp_pid :: int
  cp_running :: bool
  cp_terminated :: bool
  cp_exit_status :: int
  cp_died_on_signal :: bool
  graceful_termination_signal :: int
  moved_away :: bool

text \<open>\<open>do_clone\<close>: \<open>links\<close> is the link count of \<open>/proc/self/task\<close>, \<open>answer\<close> what \<open>clone\<close> returns.\<close>

definition do_clone :: "nat option \<Rightarrow> int \<Rightarrow> int res" where
  "do_clone links answer =
     (case links of
        None \<Rightarrow> Inl (Unix_error ''stat'')
      | Some n \<Rightarrow>
          if n \<noteq> 3 then Inl (Runtime_error ''ChildProcess constructed in multi-threaded program'')
          else if answer < 0 then Inl (Unix_error ''clone'')
          else Inr answer)"

definition mk_child_process :: "string \<Rightarrow> nat option \<Rightarrow> int \<Rightarrow> int \<Rightarrow> child_process res" where
  "mk_child_process name' links answer termination_signal =
     res_bind (do_clone links answer) (\<lambda>p.
       Inr \<lparr>cp_name = name', cp_pid = p, cp_running = True, cp_terminated = False, cp_exit_status = 0,
            cp_died_on_signal = False, graceful_termination_signal = termination_signal, moved_away = False\<rparr>)"

text \<open>The accessors, with their assertions.\<close>

definition running :: "child_process \<Rightarrow> bool res" where
  "running c = asserting (\<not> moved_away c) (Inr (cp_running c))"

definition terminated :: "child_process \<Rightarrow> bool res" where
  "terminated c = asserting (\<not> moved_away c) (Inr (cp_terminated c))"

definition died_on_signal :: "child_process \<Rightarrow> bool res" where
  "died_on_signal c = asserting (\<not> moved_away c) (asserting (cp_terminated c) (Inr (cp_died_on_signal c)))"

definition exit_status :: "child_process \<Rightarrow> int res" where
  "exit_status c = asserting (\<not> moved_away c) (asserting (cp_terminated c) (Inr (cp_exit_status c)))"

definition waitable :: "siginfo option \<Rightarrow> child_process \<Rightarrow> bool res" where
  "waitable answer c =
     asserting (\<not> moved_away c) (asserting (\<not> cp_terminated c)
       (case answer of
          None \<Rightarrow> Inl (Unix_error ''waitid'')
        | Some info \<Rightarrow>
            if si_pid info = 0 then Inr False
            else if si_pid info = cp_pid c then Inr True
            else Inl (Runtime_error ''waitid: unexpected value in siginfo_t si_pid field (not 0 or pid)'')))"

definition change_state :: "siginfo \<Rightarrow> child_process \<Rightarrow> child_process res" where
  "change_state info c =
     (case si_code info of
        CLD_EXITED \<Rightarrow> Inr (c\<lparr>cp_terminated := True, cp_exit_status := si_status info\<rparr>)
      | CLD_KILLED \<Rightarrow> Inr (c\<lparr>cp_terminated := True, cp_exit_status := si_status info, cp_died_on_signal := True\<rparr>)
      | CLD_DUMPED \<Rightarrow> Inr (c\<lparr>cp_terminated := True, cp_exit_status := si_status info, cp_died_on_signal := True\<rparr>)
      | CLD_STOPPED \<Rightarrow> Inr (c\<lparr>cp_running := False\<rparr>)
      | CLD_CONTINUED \<Rightarrow> Inr (c\<lparr>cp_running := True\<rparr>)
      | CLD_OTHER \<Rightarrow> Inl (Runtime_error ''waitid: unexpected siginfo_t si_code''))"

definition wait :: "bool \<Rightarrow> siginfo option \<Rightarrow> child_process \<Rightarrow> child_process res" where
  "wait nonblocking answer c =
     asserting (\<not> moved_away c) (asserting (\<not> cp_terminated c)
       (case answer of
          None \<Rightarrow> Inl (Unix_error ''waitid'')
        | Some info \<Rightarrow>
            if nonblocking \<and> si_pid info = 0 then Inl (Runtime_error ''nonblocking wait: process was not waitable'')
            else if si_pid info \<noteq> cp_pid c then Inl (Runtime_error ''waitid: unexpected value in siginfo_t si_pid field'')
            else if si_signo info \<noteq> SIGCHLD
            then Inl (Runtime_error ''waitid: unexpected value in siginfo_t si_signo field (not SIGCHLD)'')
            else change_state info c))"

definition signal :: "bool \<Rightarrow> int \<Rightarrow> child_process \<Rightarrow> int list res" where
  "signal kill_ok sig c =
     asserting (\<not> moved_away c)
       (if \<not> cp_terminated c then (if kill_ok then Inr [sig] else Inl (Unix_error ''kill'')) else Inr [])"

definition resume :: "bool \<Rightarrow> child_process \<Rightarrow> int list res" where
  "resume kill_ok c =
     asserting (\<not> moved_away c) (if \<not> cp_running c then signal kill_ok SIGCONT c else Inr [])"

definition cp_move :: "child_process \<Rightarrow> (child_process \<times> child_process) res" where
  "cp_move other = asserting (\<not> moved_away other) (Inr (other, other\<lparr>moved_away := True\<rparr>))"

text \<open>
  The destructor: \<open>answers\<close> are the outcomes of the successive calls of \<open>waitid\<close>, each paired with
  whether \<open>kill\<close> works at that time. It returns the signals sent and the last state; \<open>None\<close> while
  the last call still blocks. An exception ends the loop.
\<close>

fun cp_destroy :: "(bool \<times> siginfo option) list \<Rightarrow> child_process \<Rightarrow> (int list \<times> child_process) option" where
  "cp_destroy answers c =
     (if moved_away c \<or> cp_terminated c then Some ([], c)
      else
        case answers of
          [] \<Rightarrow> None
        | (kill_ok, answer) # rest \<Rightarrow>
            (case resume kill_ok c of
               Inl e \<Rightarrow> Some ([], c)
             | Inr sigs1 \<Rightarrow>
                 (case signal kill_ok (graceful_termination_signal c) c of
                    Inl e \<Rightarrow> Some (sigs1, c)
                  | Inr sigs2 \<Rightarrow>
                      (case wait False answer c of
                         Inl e \<Rightarrow> Some (sigs1 @ sigs2, c)
                       | Inr c' \<Rightarrow> map_option (\<lambda>(sigs, c''). (sigs1 @ sigs2 @ sigs, c'')) (cp_destroy rest c')))))"

declare cp_destroy.simps [simp del]

definition show_int :: "int \<Rightarrow> string" where
  "show_int i = (if i < 0 then ''-'' @ show_nat (nat (- i)) else show_nat (nat i))"

definition throw_exception :: "child_process \<Rightarrow> error res" where
  "throw_exception c =
     asserting (\<not> moved_away c)
       (res_bind (died_on_signal c) (\<lambda>d.
        res_bind (exit_status c) (\<lambda>st.
          Inr (Runtime_error (''`'' @ cp_name c @ [CHR 0x27] @ '': process ''
            @ (if d then ''died on signal '' else ''exited with failure status '') @ show_int st)))))"

section \<open>The life of a child\<close>

text \<open>A report of the kernel about a child, as \<open>waitid\<close> documents it.\<close>

definition reports :: "siginfo \<Rightarrow> child_process \<Rightarrow> bool" where
  "reports info c \<longleftrightarrow> si_pid info = cp_pid c \<and> si_signo info = SIGCHLD \<and> si_code info \<noteq> CLD_OTHER"

definition reports_end :: "siginfo \<Rightarrow> bool" where
  "reports_end info \<longleftrightarrow> si_code info \<in> {CLD_EXITED, CLD_KILLED, CLD_DUMPED}"

definition cp_inv :: "child_process \<Rightarrow> bool" where
  "cp_inv c \<longleftrightarrow> \<not> moved_away c \<and> 0 < cp_pid c \<and> (cp_died_on_signal c \<longrightarrow> cp_terminated c)"

lemma wait_reported:
  assumes "cp_inv c" and "\<not> cp_terminated c" and "reports info c"
  shows "\<exists>c'. wait b (Some info) c = Inr c' \<and> cp_inv c' \<and> cp_pid c' = cp_pid c \<and> cp_name c' = cp_name c \<and>
     graceful_termination_signal c' = graceful_termination_signal c \<and>
     cp_terminated c' = reports_end info \<and>
     (reports_end info \<longrightarrow> cp_exit_status c' = si_status info \<and> cp_died_on_signal c' = (si_code info \<noteq> CLD_EXITED)) \<and>
     (\<not> reports_end info \<longrightarrow> cp_running c' = (si_code info = CLD_CONTINUED))"
  using assms
  by (cases "si_code info") (auto simp: wait_def change_state_def reports_def reports_end_def cp_inv_def)

lemma cp_destroy_Cons:
  assumes "cp_inv c" and "\<not> cp_terminated c" and "wait False (Some info) c = Inr c'"
  shows "cp_destroy ((True, Some info) # rest) c =
     map_option (\<lambda>(sigs, c''). ((if cp_running c then [] else [SIGCONT]) @ [graceful_termination_signal c] @ sigs, c''))
       (cp_destroy rest c')"
  using assms by (subst cp_destroy.simps) (simp add: cp_inv_def resume_def signal_def asserting_def)

fun termination_signals :: "siginfo list \<Rightarrow> bool \<Rightarrow> int \<Rightarrow> int list" where
  "termination_signals [] up sig = []"
| "termination_signals (info # infos) up sig =
     (if up then [sig] else [SIGCONT, sig]) @ termination_signals infos (si_code info = CLD_CONTINUED) sig"

text \<open>
  C34: The destructor of a child that has not been moved away ends as soon as the kernel reports the
  child's end, however many times the child is reported stopped or continued before that. The child
  is then marked as terminated, and before every wait it has been sent its termination signal,
  preceded by \<open>SIGCONT\<close> when it was stopped.
\<close>

theorem cp_destroy_ends:
  assumes "cp_inv c" and "\<not> cp_terminated c" and "list_all (\<lambda>i. reports i c \<and> \<not> reports_end i) infos" and "reports last_info c"
    and "reports_end last_info"
  shows "\<exists>c'. cp_destroy (map (\<lambda>i. (True, Some i)) (infos @ [last_info]) @ later) c
       = Some (termination_signals (infos @ [last_info]) (cp_running c) (graceful_termination_signal c), c') \<and>
     cp_terminated c' \<and> cp_exit_status c' = si_status last_info"
  using assms
proof (induction infos arbitrary: c)
  case Nil
  obtain c' where w: "wait False (Some last_info) c = Inr c'" and c': "cp_terminated c'" "cp_exit_status c' = si_status last_info"
    using wait_reported [OF Nil.prems(1,2,4)] Nil.prems(5) by blast
  have "cp_destroy later c' = Some ([], c')" using c' by (subst cp_destroy.simps) simp
  with c' cp_destroy_Cons [OF Nil.prems(1,2) w] show ?case by auto
next
  case (Cons info infos)
  have r: "reports info c" "\<not> reports_end info" using Cons.prems(3) by auto
  obtain c' where w: "wait False (Some info) c = Inr c'" and c': "cp_inv c'" "cp_pid c' = cp_pid c" "\<not> cp_terminated c'"
      "graceful_termination_signal c' = graceful_termination_signal c" "cp_running c' = (si_code info = CLD_CONTINUED)"
    using wait_reported [OF Cons.prems(1,2) r(1)] r(2) by blast
  have "reports i c' = reports i c" for i using c'(2) by (simp add: reports_def)
  then obtain c2 where "cp_destroy (map (\<lambda>i. (True, Some i)) (infos @ [last_info]) @ later) c'
       = Some (termination_signals (infos @ [last_info]) (cp_running c') (graceful_termination_signal c'), c2)"
      "cp_terminated c2" "cp_exit_status c2 = si_status last_info"
    using Cons.IH [OF c'(1,3)] Cons.prems(3,4,5) by auto
  with c' cp_destroy_Cons [OF Cons.prems(1,2) w] show ?case by auto
qed

definition sample_child :: child_process where
  "sample_child = \<lparr>cp_name = ''sh'', cp_pid = 42, cp_running = True, cp_terminated = False, cp_exit_status = 0,
     cp_died_on_signal = False, graceful_termination_signal = SIGHUP, moved_away = False\<rparr>"

definition report :: "si_code \<Rightarrow> int \<Rightarrow> siginfo" where
  "report code status = \<lparr>si_pid = 42, si_signo = SIGCHLD, si_code = code, si_status = status\<rparr>"

theorem cp_destroy_ends_witness:
  "\<exists>c'. cp_destroy [(True, Some (report CLD_STOPPED 19)), (True, Some (report CLD_KILLED 1))] sample_child
       = Some ([SIGHUP, SIGCONT, SIGHUP], c') \<and> cp_terminated c'"
  using cp_destroy_ends [of sample_child "[report CLD_STOPPED 19]" "report CLD_KILLED 1" "[]"]
  by (auto simp: sample_child_def report_def cp_inv_def reports_def reports_end_def)

end
