(* ===== verification/Event_Loop.thy ===== *)
theory Event_Loop
  imports Poller Child_Process
begin

text \<open>
  \<open>EventLoop\<close>, src/src/util/event_loop.{hh,cc}, and the signal wrappers it uses,
  src/src/util/signalfd.{hh,cc}. \<open>loop_world\<close> is the state of the loop and of what its handler of
  signals reaches; the records of the programs built on it extend it. \<open>wait_answers\<close> are the answers
  of \<open>waitid\<close>, \<open>kill\<close> and \<open>raise\<close> during one call of \<open>handle_signal\<close>. \<open>internal_loop\<close> changes the
  effective user before it runs, which has no effect on its state and is left out.
\<close>

section \<open>Model\<close>

subsection \<open>Signals\<close>

text \<open>A mask is the set of its signals; the comparison looks at the numbers below \<open>SIGRTMAX\<close>.\<close>

type_synonym signal_mask = "int set"

definition mask_equal :: "signal_mask \<Rightarrow> signal_mask \<Rightarrow> bool" where
  "mask_equal a b \<longleftrightarrow> list_all (\<lambda>n. (int n \<in> a) = (int n \<in> b)) [0..<64]"

definition loop_signals :: signal_mask where
  "loop_signals = {SIGCHLD, SIGCONT, SIGHUP, SIGTERM, SIGQUIT, SIGINT}"

definition sizeof_signalfd_siginfo :: nat where
  "sizeof_signalfd_siginfo = 128"

text \<open>\<open>read_signal\<close>: \<open>ssi_signo\<close>, the first four bytes of the structure, in host byte order.\<close>

definition ssi_signo :: "byte list \<Rightarrow> u32" where
  "ssi_signo str = word_rcat (rev (take 4 str))"

definition read_signal :: "file_desc \<Rightarrow> (u32 \<times> file_desc) res" where
  "read_signal fd =
     res_bind (fd_read sizeof_signalfd_siginfo fd) (\<lambda>(str, fd').
       if length str \<noteq> sizeof_signalfd_siginfo then Inl (Runtime_error ''signalfd read size mismatch'')
       else Inr (ssi_signo str, fd'))"

subsection \<open>The handler\<close>

record wait_answers =
  peeked :: "int \<Rightarrow> siginfo option"
  reaped :: "int \<Rightarrow> siginfo option"
  kill_ok :: "int \<Rightarrow> bool"
  raise_ok :: bool

record loop_world =
  signal_fd :: file_desc
  child_processes :: "(int \<times> child_process) list"
  wait_answers :: "nat \<Rightarrow> wait_answers"
  signals_sent :: "(int \<times> int) list"
  times_stopped :: nat

definition add_child_process :: "child_process \<Rightarrow> 'a loop_world_scheme \<Rightarrow> 'a loop_world_scheme" where
  "add_child_process c s = s\<lparr>child_processes := child_processes s @ [(- 1, c)]\<rparr>"

definition add_special_child_process :: "int \<Rightarrow> child_process \<Rightarrow> 'a loop_world_scheme \<Rightarrow> 'a loop_world_scheme" where
  "add_special_child_process continue_status c s =
     s\<lparr>child_processes := child_processes s @ [(continue_status, c)]\<rparr>"

fun resume_all :: "(int \<Rightarrow> bool) \<Rightarrow> (int \<times> child_process) list \<Rightarrow> (int \<times> int) list res" where
  "resume_all ok [] = Inr []"
| "resume_all ok ((st, c) # cs) =
     res_bind (resume (ok (cp_pid c)) c) (\<lambda>sigs.
     res_bind (resume_all ok cs) (\<lambda>rest. Inr (map (\<lambda>sig. (cp_pid c, sig)) sigs @ rest)))"

fun all_terminated :: "(int \<times> child_process) list \<Rightarrow> bool res" where
  "all_terminated [] = Inr True"
| "all_terminated ((st, c) # cs) = res_bind (terminated c) (\<lambda>t. if t then all_terminated cs else Inr False)"

text \<open>
  The search of \<open>SIGCHLD\<close> over the children, those before the current one and those from it on. It
  returns the result, the children and how often the process has stopped itself.
\<close>

fun sigchld :: "wait_answers \<Rightarrow> (int \<times> child_process) list \<Rightarrow> (int \<times> child_process) list \<Rightarrow>
    (action_result \<times> (int \<times> child_process) list \<times> nat) res" where
  "sigchld ans before [] = Inr (Continue, before, 0)"
| "sigchld ans before ((st, c) # cs) =
     res_bind (terminated c) (\<lambda>t.
       if t then sigchld ans (before @ [(st, c)]) cs
       else
         res_bind (waitable (peeked ans (cp_pid c)) c) (\<lambda>w.
           if \<not> w then sigchld ans (before @ [(st, c)]) cs
           else
             res_bind (wait True (reaped ans (cp_pid c)) c) (\<lambda>c'.
             res_bind (terminated c') (\<lambda>t'.
               if t' then
                 res_bind (exit_status c') (\<lambda>es.
                   if es \<noteq> 0 \<and> es \<noteq> st then res_bind (throw_exception c') Inl
                   else
                     res_bind (all_terminated (before @ (st, c') # cs)) (\<lambda>all.
                       Inr (if all then Exit 0 else if es = st then Continue else Exit 0, before @ (st, c') # cs, 0)))
               else
                 res_bind (running c') (\<lambda>r.
                   if \<not> r \<and> \<not> raise_ok ans then Inl (Unix_error ''raise'')
                   else
                     res_bind (sigchld ans (before @ [(st, c')]) cs) (\<lambda>(res, cs', n).
                       Inr (res, cs', if r then n else Suc n)))))))"

declare sigchld.simps(2) [simp del]

definition handle_signal :: "u32 \<Rightarrow> 'a loop_world_scheme \<Rightarrow> (action_result \<times> 'a loop_world_scheme) res" where
  "handle_signal sig s =
     (let ans = wait_answers s 0;
          s1 = s\<lparr>wait_answers := (\<lambda>i. wait_answers s (Suc i))\<rparr>;
          no = uint sig
      in if no = SIGCONT then
           res_bind (resume_all (kill_ok ans) (child_processes s)) (\<lambda>sigs.
             Inr (Continue, s1\<lparr>signals_sent := signals_sent s1 @ sigs\<rparr>))
         else if no = SIGCHLD then
           (if child_processes s = [] then Inl (Runtime_error ''received SIGCHLD without any managed children'')
            else res_bind (sigchld ans [] (child_processes s)) (\<lambda>(res, cs, n).
              Inr (res, s1\<lparr>child_processes := cs, times_stopped := times_stopped s1 + n\<rparr>)))
         else if no = SIGHUP \<or> no = SIGTERM \<or> no = SIGQUIT \<or> no = SIGINT then Inr (Exit 0, s1)
         else Inl (Runtime_error ''EventLoop: unknown signal''))"

subsection \<open>The loop\<close>

definition add_simple_input_handler :: "'s \<Rightarrow> ('s \<Rightarrow> file_desc) \<Rightarrow> ('s \<Rightarrow> (action_result \<times> 's) res) \<Rightarrow> 's poller \<Rightarrow> 's poller" where
  "add_simple_input_handler s fd cb po = add_action s (mk_action fd In cb (\<lambda>_. True)) po"

definition signal_handler :: "'a loop_world_scheme \<Rightarrow> (action_result \<times> 'a loop_world_scheme) res" where
  "signal_handler s =
     res_bind (read_signal (signal_fd s)) (\<lambda>(sig, fd). handle_signal sig (s\<lparr>signal_fd := fd\<rparr>))"

definition internal_loop :: "signal_mask \<Rightarrow> ('a loop_world_scheme \<Rightarrow> (int \<times> 'a loop_world_scheme) res) \<Rightarrow>
    (pollfd list \<Rightarrow> int \<Rightarrow> int \<times> u16 list) list \<Rightarrow> 'a loop_world_scheme poller \<Rightarrow> 'a loop_world_scheme \<Rightarrow>
    (u32 option \<times> 'a loop_world_scheme poller \<times> 'a loop_world_scheme) res" where
  "internal_loop current_mask wait_time' ks po s =
     (if \<not> mask_equal loop_signals current_mask then Inl (Runtime_error ''EventLoop: signal mask has been altered'')
      else poll_loop wait_time' ks (add_simple_input_handler s signal_fd signal_handler po) s)"

definition event_loop :: "signal_mask \<Rightarrow> (pollfd list \<Rightarrow> int \<Rightarrow> int \<times> u16 list) list \<Rightarrow> 'a loop_world_scheme poller \<Rightarrow>
    'a loop_world_scheme \<Rightarrow> (u32 option \<times> 'a loop_world_scheme poller \<times> 'a loop_world_scheme) res" where
  "event_loop current_mask ks po s = internal_loop current_mask (\<lambda>s. Inr (- 1, s)) ks po s"

section \<open>The search for waitable children\<close>

text \<open>
  The children the search passes: those that have terminated before, those with nothing to report,
  and those that report being stopped or continued.
\<close>

definition answers_ok :: "wait_answers \<Rightarrow> child_process \<Rightarrow> bool" where
  "answers_ok ans c \<longleftrightarrow> cp_inv c \<and> (cp_terminated c \<or>
     (\<exists>info. peeked ans (cp_pid c) = Some info \<and>
        (si_pid info = 0 \<or> reaped ans (cp_pid c) = Some info \<and> reports info c)))"

definition ends :: "wait_answers \<Rightarrow> child_process \<Rightarrow> bool" where
  "ends ans c \<longleftrightarrow> \<not> cp_terminated c \<and> (\<exists>info. peeked ans (cp_pid c) = Some info \<and> si_pid info \<noteq> 0 \<and> reports_end info)"

definition after_search :: "wait_answers \<Rightarrow> int \<times> child_process \<Rightarrow> int \<times> child_process" where
  "after_search ans p =
     (let c = snd p in
      if cp_terminated c then p
      else case peeked ans (cp_pid c) of
             None \<Rightarrow> p
           | Some info \<Rightarrow>
               if si_pid info = 0 then p
               else case change_state info c of Inr c' \<Rightarrow> (fst p, c') | Inl e \<Rightarrow> p)"

lemma after_search_moved: "moved_away (snd (after_search ans p)) = moved_away (snd p)"
  by (auto simp: after_search_def Let_def change_state_def split: option.split sum.split si_code.splits)

lemma all_terminated_spec:
  "list_all (\<lambda>p. \<not> moved_away (snd p)) cs \<Longrightarrow> all_terminated cs = Inr (list_all (\<lambda>p. cp_terminated (snd p)) cs)"
  by (induction cs rule: all_terminated.induct) (simp_all add: terminated_def asserting_def)

lemma waited:
  assumes "answers_ok ans c" and "\<not> cp_terminated c" and "peeked ans (cp_pid c) = Some info" and "si_pid info \<noteq> 0"
  obtains c' where "wait True (reaped ans (cp_pid c)) c = Inr c'" and "after_search ans (st, c) = (st, c')" and "cp_inv c'"
    and "cp_terminated c' = reports_end info" and "reports_end info \<Longrightarrow> cp_exit_status c' = si_status info"
    and "waitable (peeked ans (cp_pid c)) c = Inr True"
proof -
  have r: "cp_inv c" "reaped ans (cp_pid c) = Some info" "reports info c" using assms by (auto simp: answers_ok_def)
  obtain c' where w: "wait True (Some info) c = Inr c'" "cp_inv c'" "cp_terminated c' = reports_end info"
      "reports_end info \<Longrightarrow> cp_exit_status c' = si_status info"
    using wait_reported [OF r(1) assms(2) r(3), of True] by blast
  have "change_state info c = Inr c'" using w(1) r assms(2,4) by (simp add: wait_def reports_def cp_inv_def asserting_def)
  then have "after_search ans (st, c) = (st, c')" using assms by (simp add: after_search_def)
  moreover have "waitable (peeked ans (cp_pid c)) c = Inr True"
    using assms r by (simp add: waitable_def reports_def cp_inv_def asserting_def)
  ultimately show thesis using w r(2) by (intro that [of c']) simp_all
qed

lemma sigchld_pass:
  assumes "answers_ok ans c" and "\<not> ends ans c" and "raise_ok ans"
  shows "\<exists>n. sigchld ans before ((st, c) # cs)
     = res_bind (sigchld ans (before @ [after_search ans (st, c)]) cs) (\<lambda>(res, cs', m). Inr (res, cs', n + m))"
proof -
  have mv: "\<not> moved_away c" using assms(1) by (simp add: answers_ok_def cp_inv_def)
  have id: "res_bind m (\<lambda>(res, cs', k). Inr (res, cs', 0 + k)) = m" for m :: "(action_result \<times> (int \<times> child_process) list \<times> nat) res"
    by (cases m) auto
  show ?thesis
  proof (cases "cp_terminated c \<or> (\<exists>info. peeked ans (cp_pid c) = Some info \<and> si_pid info = 0)")
    case True
    then have "sigchld ans before ((st, c) # cs) = sigchld ans (before @ [after_search ans (st, c)]) cs"
      using mv by (auto simp: sigchld.simps(2) terminated_def waitable_def after_search_def asserting_def)
    then show ?thesis using id by (intro exI [of _ 0]) simp
  next
    case False
    then obtain info where info: "peeked ans (cp_pid c) = Some info" "si_pid info \<noteq> 0" and nt: "\<not> cp_terminated c"
      using assms(1) by (auto simp: answers_ok_def)
    obtain c' where w: "wait True (reaped ans (cp_pid c)) c = Inr c'" "after_search ans (st, c) = (st, c')" "cp_inv c'"
        "cp_terminated c' = reports_end info" "waitable (peeked ans (cp_pid c)) c = Inr True"
      using waited [OF assms(1) nt info] by metis
    have ne: "\<not> reports_end info" using assms(2) info nt by (auto simp: ends_def)
    have "sigchld ans before ((st, c) # cs)
       = res_bind (sigchld ans (before @ [(st, c')]) cs) (\<lambda>(res, cs', n). Inr (res, cs', if cp_running c' then n else Suc n))"
      using w nt mv ne assms(3) by (simp add: sigchld.simps(2) terminated_def running_def cp_inv_def)
    then show ?thesis using w(2)
      by (intro exI [of _ "if cp_running c' then 0 else 1"]) (auto simp: res_bind_def split: sum.split)
  qed
qed

lemma sigchld_pass_all:
  assumes "raise_ok ans"
  shows "list_all (\<lambda>p. answers_ok ans (snd p) \<and> \<not> ends ans (snd p)) xs \<Longrightarrow>
    \<exists>n. sigchld ans before (xs @ ys) = res_bind (sigchld ans (before @ map (after_search ans) xs) ys) (\<lambda>(res, cs', m). Inr (res, cs', n + m))"
proof (induction xs arbitrary: before)
  case Nil
  then show ?case by (intro exI [of _ 0]) (auto simp: res_bind_def split: sum.split)
next
  case (Cons p xs)
  obtain st c where p: "p = (st, c)" by fastforce
  obtain n where n: "sigchld ans before ((st, c) # xs @ ys)
     = res_bind (sigchld ans (before @ [after_search ans (st, c)]) (xs @ ys)) (\<lambda>(res, cs', m). Inr (res, cs', n + m))"
  proof -
    have "answers_ok ans c" "\<not> ends ans c" using Cons.prems p by auto
    from sigchld_pass [OF this assms] that show thesis by blast
  qed
  obtain m where "sigchld ans (before @ [after_search ans p]) (xs @ ys)
     = res_bind (sigchld ans ((before @ [after_search ans p]) @ map (after_search ans) xs) ys) (\<lambda>(res, cs', k). Inr (res, cs', m + k))"
    using Cons.IH [of "before @ [after_search ans p]"] Cons.prems by auto
  with n p show ?case by (intro exI [of _ "n + m"]) (auto simp: res_bind_def split: sum.split)
qed

lemma sigchld_hit:
  assumes "answers_ok ans c" and "ends ans c" and "peeked ans (cp_pid c) = Some info"
    and "list_all (\<lambda>p. \<not> moved_away (snd p)) (before @ cs)"
  shows "case sigchld ans before ((st, c) # cs) of
      Inl err \<Rightarrow> si_status info \<noteq> 0 \<and> si_status info \<noteq> st \<and> (\<exists>msg. err = Runtime_error msg)
    | Inr (res, cs', n) \<Rightarrow> (si_status info = 0 \<or> si_status info = st) \<and> cs' = before @ after_search ans (st, c) # cs \<and>
        res = (if list_all (\<lambda>p. cp_terminated (snd p)) cs' \<or> si_status info \<noteq> st then Exit 0 else Continue)"
proof -
  have nt: "\<not> cp_terminated c" and p0: "si_pid info \<noteq> 0" and re: "reports_end info" and mv: "\<not> moved_away c"
    using assms(1,2,3) by (auto simp: ends_def answers_ok_def cp_inv_def)
  obtain c' where w: "wait True (reaped ans (cp_pid c)) c = Inr c'" "after_search ans (st, c) = (st, c')" "cp_inv c'"
      "cp_terminated c'" "cp_exit_status c' = si_status info" "waitable (peeked ans (cp_pid c)) c = Inr True"
    using waited [OF assms(1) nt assms(3) p0] re by metis
  have mv': "\<not> moved_away c'" using w(3) by (simp add: cp_inv_def)
  have all: "all_terminated (before @ (st, c') # cs) = Inr (list_all (\<lambda>p. cp_terminated (snd p)) (before @ (st, c') # cs))"
    using assms(4) mv' by (intro all_terminated_spec) simp
  show ?thesis
  proof (cases "si_status info \<noteq> 0 \<and> si_status info \<noteq> st")
    case True
    then show ?thesis
      using w nt mv mv' by (simp add: sigchld.simps(2) terminated_def exit_status_def throw_exception_def died_on_signal_def)
  next
    case False
    then show ?thesis using w nt mv mv' all by (auto simp: sigchld.simps(2) terminated_def exit_status_def)
  qed
qed

lemma sigchld_first_end_core:
  assumes "list_all (\<lambda>p. answers_ok ans (snd p) \<and> \<not> ends ans (snd p)) xs" and "raise_ok ans"
    and "answers_ok ans c" and "ends ans c" and "peeked ans (cp_pid c) = Some info"
    and "list_all (\<lambda>p. \<not> moved_away (snd p)) ys"
  shows "case sigchld ans [] (xs @ (st, c) # ys) of
      Inl err \<Rightarrow> si_status info \<noteq> 0 \<and> si_status info \<noteq> st \<and> (\<exists>msg. err = Runtime_error msg)
    | Inr (res, cs, n) \<Rightarrow> (si_status info = 0 \<or> si_status info = st) \<and>
        cs = map (after_search ans) (xs @ [(st, c)]) @ ys \<and>
        res = (if list_all (\<lambda>p. cp_terminated (snd p)) cs \<or> si_status info \<noteq> st then Exit 0 else Continue)"
proof -
  let ?before = "map (after_search ans) xs"
  obtain n where n: "sigchld ans [] (xs @ (st, c) # ys)
      = res_bind (sigchld ans ?before ((st, c) # ys)) (\<lambda>(res, cs', m). Inr (res, cs', n + m))"
    using sigchld_pass_all [OF assms(2,1), of "[]" "(st, c) # ys"] by auto
  have "\<not> moved_away (snd (after_search ans p))" if "p \<in> set xs" for p
    using assms(1) that by (auto simp: list_all_iff answers_ok_def cp_inv_def after_search_moved)
  then have "list_all (\<lambda>p. \<not> moved_away (snd p)) (?before @ ys)" using assms(6) by (auto simp: list_all_iff)
  from sigchld_hit [OF assms(3,4,5) this, of st] show ?thesis unfolding n by (auto split: sum.splits)
qed

section \<open>Properties\<close>

text \<open>
  What \<open>SIGCHLD\<close> does when a managed child has ended. Of the children in the order they were added,
  those before the first one that has ended are brought up to date (terminated earlier, nothing to
  report, stopped or continued). The first one that has ended decides: an exit status that is
  neither 0 nor its continue status is thrown as an exception; otherwise the loop exits when every
  child has terminated or the status is not the continue status, and goes on when it is.
\<close>

lemma sigchld_first_end:
  assumes "list_all (\<lambda>p. answers_ok ans (snd p) \<and> \<not> ends ans (snd p)) xs" and "raise_ok ans"
    and "answers_ok ans c" and "ends ans c" and "peeked ans (cp_pid c) = Some info"
    and "list_all (\<lambda>p. \<not> moved_away (snd p)) ys"
  shows "case sigchld ans [] (xs @ (st, c) # ys) of
      Inl err \<Rightarrow> si_status info \<noteq> 0 \<and> si_status info \<noteq> st \<and> (\<exists>msg. err = Runtime_error msg)
    | Inr (res, cs, n) \<Rightarrow> (si_status info = 0 \<or> si_status info = st) \<and>
        cs = map (after_search ans) (xs @ [(st, c)]) @ ys \<and>
        res = (if list_all (\<lambda>p. cp_terminated (snd p)) cs \<or> si_status info \<noteq> st then Exit 0 else Continue)"
  using assms by (rule sigchld_first_end_core)

definition sample_answers :: wait_answers where
  "sample_answers =
     \<lparr>peeked = (\<lambda>p. Some \<lparr>si_pid = p, si_signo = SIGCHLD, si_code = CLD_EXITED, si_status = if p = 42 then 77 else 0\<rparr>),
      reaped = (\<lambda>p. Some \<lparr>si_pid = p, si_signo = SIGCHLD, si_code = CLD_EXITED, si_status = if p = 42 then 77 else 0\<rparr>),
      kill_ok = (\<lambda>p. True), raise_ok = True\<rparr>"

lemma sample_answers_ok:
  "raise_ok sample_answers" "answers_ok sample_answers sample_child" "ends sample_answers sample_child"
  "peeked sample_answers (cp_pid sample_child) = Some \<lparr>si_pid = 42, si_signo = SIGCHLD, si_code = CLD_EXITED, si_status = 77\<rparr>"
  "answers_ok sample_answers (sample_child\<lparr>cp_pid := 43\<rparr>)" "ends sample_answers (sample_child\<lparr>cp_pid := 43\<rparr>)"
  by (simp_all add: sample_answers_def sample_child_def answers_ok_def ends_def cp_inv_def reports_def reports_end_def)

text \<open>
  C33: The search stops at the first child that has ended. If that child ends with its continue status
  while a later child has ended too, the loop goes on and the later child is not looked at, so its
  end is noticed only with another \<open>SIGCHLD\<close>, although one signal may stand for both events.
\<close>

theorem sigchld_misses_second:
  assumes "list_all (\<lambda>p. answers_ok ans (snd p) \<and> \<not> ends ans (snd p)) xs" and "raise_ok ans"
    and "answers_ok ans c" and "ends ans c" and "peeked ans (cp_pid c) = Some info" and "si_status info = st"
    and "list_all (\<lambda>p. \<not> moved_away (snd p)) ys" and "(st2, d) \<in> set ys" and "ends ans d"
  shows "\<exists>n. sigchld ans [] (xs @ (st, c) # ys) = Inr (Continue, map (after_search ans) (xs @ [(st, c)]) @ ys, n)"
proof -
  have "\<not> cp_terminated d" using assms(9) by (simp add: ends_def)
  then have "\<not> list_all (\<lambda>p. cp_terminated (snd p)) (map (after_search ans) (xs @ [(st, c)]) @ ys)"
    using assms(8) by (force simp: list_all_iff)
  then show ?thesis
    using sigchld_first_end_core [OF assms(1-5,7), of st] assms(6) by (auto split: sum.splits)
qed

theorem sigchld_misses_second_witness:
  "\<exists>cs n. sigchld sample_answers [] [(77, sample_child), (- 1, sample_child\<lparr>cp_pid := 43\<rparr>)] = Inr (Continue, cs, n) \<and>
     ends sample_answers (snd (cs ! 1))"
proof -
  let ?d = "sample_child\<lparr>cp_pid := 43\<rparr>"
  obtain n where "sigchld sample_answers [] ([] @ (77, sample_child) # [(- 1, ?d)])
      = Inr (Continue, map (after_search sample_answers) ([] @ [(77, sample_child)]) @ [(- 1, ?d)], n)"
    using sigchld_misses_second [of sample_answers "[]" sample_child _ 77 "[(- 1, ?d)]", OF _ sample_answers_ok(1,2,3,4) _ _ _ sample_answers_ok(6)]
    by (auto simp: sample_child_def)
  with sample_answers_ok(6) show ?thesis by auto
qed

end
