(* ===== verification/Packet_Shell.thy ===== *)
theory Packet_Shell
  imports Ferry_Queues Event_Loop
begin

text \<open>
  \<open>PacketShell<FerryQueueType>::Ferry::loop\<close>, src/src/packet/packetshell.cc: the event loop that moves
  packets from a TUN device through a ferry queue to the sibling's device. \<open>ferry_world\<close> extends the
  state of the event loop by the two devices and the queue; \<open>ferry_envs\<close> are the environments
  (clock readings, random numbers) of the successive calls of the queue.
  The loop starts with the handlers of the ferry alone: the two handlers of the DNS proxies that
  \<open>PacketShell\<close> adds before, on descriptors of their own, only start threads and are left out.

  The locale \<open>ferry_session\<close> fixes a queue that meets the contract of a ferry queue and starts
  empty. It is a sublocale of the poller's \<open>handlers\<close>: the invariant is that the state of the loop is
  that of a run of the abstract relation \<open>ferry_run\<close>, so the loop refines that relation.
\<close>

section \<open>Model\<close>

record 'q ferry_world = loop_world +
  tun :: file_desc
  sibling :: file_desc
  ferry_queue :: 'q
  ferry_envs :: "nat \<Rightarrow> env"
  interest_env :: env

definition next_env :: "'q ferry_world \<Rightarrow> 'q ferry_world" where
  "next_env s = s\<lparr>ferry_envs := (\<lambda>i. ferry_envs s (Suc i))\<rparr>"

definition ferry_read :: "'q ferry_ops \<Rightarrow> 'q ferry_world \<Rightarrow> (action_result \<times> 'q ferry_world) res" where
  "ferry_read fops s =
     res_bind (fd_read BUFFER_SIZE (tun s)) (\<lambda>(pkt, fd).
     res_bind (f_read fops (ferry_envs s 0) pkt (ferry_queue s)) (\<lambda>q.
       Inr (Continue, next_env (s\<lparr>tun := fd, ferry_queue := q\<rparr>))))"

definition ferry_write :: "'q ferry_ops \<Rightarrow> 'q ferry_world \<Rightarrow> (action_result \<times> 'q ferry_world) res" where
  "ferry_write fops s =
     res_bind (f_write fops (ferry_envs s 0) (sibling s) (ferry_queue s)) (\<lambda>(fd, q).
       Inr (Continue, next_env (s\<lparr>sibling := fd, ferry_queue := q\<rparr>)))"

definition ferry_wait :: "'q ferry_ops \<Rightarrow> 'q ferry_world \<Rightarrow> (int \<times> 'q ferry_world) res" where
  "ferry_wait fops s =
     res_bind (f_wait fops (ferry_envs s 0) (ferry_queue s)) (\<lambda>(w, q).
       Inr (sint w, next_env (s\<lparr>ferry_queue := q\<rparr>)))"

definition ferry_actions :: "'q ferry_ops \<Rightarrow> 'q ferry_world action list" where
  "ferry_actions fops =
     [mk_action tun In (ferry_read fops) (\<lambda>_. True),
      mk_action sibling Out (ferry_write fops) (\<lambda>s. f_pending fops (interest_env s) (ferry_queue s)),
      mk_action sibling Out (\<lambda>s. Inr (Exit 77, s)) (\<lambda>s. f_finished fops (ferry_queue s))]"

definition ferry_loop :: "'q ferry_ops \<Rightarrow> signal_mask \<Rightarrow> (pollfd list \<Rightarrow> int \<Rightarrow> int \<times> u16 list) list \<Rightarrow> 'q ferry_world \<Rightarrow>
    (u32 option \<times> 'q ferry_world poller \<times> 'q ferry_world) res" where
  "ferry_loop fops current_mask ks s =
     internal_loop current_mask (ferry_wait fops) ks (fold (add_action s) (ferry_actions fops) mk_poller) s"

section \<open>The loop refines the ferry runs\<close>

lemma handle_signal_frame:
  fixes s :: "'q ferry_world"
  assumes "handle_signal sig s = Inr (r, s')"
  shows "tun s' = tun s \<and> sibling s' = sibling s \<and> ferry_queue s' = ferry_queue s \<and> signal_fd s' = signal_fd s"
  using assms by (auto simp: handle_signal_def Let_def split: if_splits)

lemma signal_handler_frame:
  fixes s :: "'q ferry_world"
  assumes "signal_handler s = Inr (r, s')"
  shows "tun s' = tun s \<and> sibling s' = sibling s \<and> ferry_queue s' = ferry_queue s \<and> fd_num (signal_fd s') = fd_num (signal_fd s)"
proof -
  obtain sig fd where rs: "read_signal (signal_fd s) = Inr (sig, fd)" and h: "handle_signal sig (s\<lparr>signal_fd := fd\<rparr>) = Inr (r, s')"
    using assms by (auto simp: signal_handler_def)
  have "fd_num fd = fd_num (signal_fd s)" using rs by (auto simp: read_signal_def dest: fd_read_Inr(6) split: if_splits)
  with handle_signal_frame [OF h] show ?thesis by simp
qed

definition ferry_handlers :: "'q ferry_ops \<Rightarrow> 'q ferry_world action list" where
  "ferry_handlers fops = ferry_actions fops @ [mk_action signal_fd In signal_handler (\<lambda>_. True)]"

locale ferry_session = ferry_queue +
  fixes q0
  assumes starts: "finv q0" "flight q0 = []"

sublocale ferry_session \<subseteq> loop: handlers "ferry_handlers fops"
  "\<lambda>s. ferry_run fops q0 (fd_got (tun s)) (sibling s) (ferry_queue s)" "\<lambda>i s. True" "\<lambda>err. True"
proof (unfold_locales, goal_cases)
  case (2 i s r s')
  have "i = 0 \<or> i = 1 \<or> i = 2 \<or> i = 3" using 2(1) by (auto simp: ferry_handlers_def ferry_actions_def)
  then show ?case
  proof (elim disjE)
    assume "i = 0"
    with 2(4) obtain pkt fd q where r: "fd_read BUFFER_SIZE (tun s) = Inr (pkt, fd)"
        "f_read fops (ferry_envs s 0) pkt (ferry_queue s) = Inr q" "s' = next_env (s\<lparr>tun := fd, ferry_queue := q\<rparr>)"
      by (auto simp: ferry_handlers_def ferry_actions_def mk_action_def ferry_read_def)
    from fr_read [OF 2(2) r(2)] fd_read_Inr(2,6) [OF r(1)] r(3) show ?case
      by (auto simp: ferry_handlers_def ferry_actions_def mk_action_def next_env_def)
  next
    assume "i = 1"
    with 2(4) obtain fd q where w: "f_write fops (ferry_envs s 0) (sibling s) (ferry_queue s) = Inr (fd, q)"
        "s' = next_env (s\<lparr>sibling := fd, ferry_queue := q\<rparr>)"
      by (auto simp: ferry_handlers_def ferry_actions_def mk_action_def ferry_write_def)
    from fr_write [OF 2(2) w(1)] write_num [OF w(1)] w(2) show ?case
      by (auto simp: ferry_handlers_def ferry_actions_def mk_action_def next_env_def)
  next
    assume "i = 2"
    then show ?case using 2 by (auto simp: ferry_handlers_def ferry_actions_def mk_action_def numeral_2_eq_2)
  next
    assume "i = 3"
    with 2(4) have "signal_handler s = Inr (r, s')"
      by (auto simp: ferry_handlers_def ferry_actions_def mk_action_def numeral_3_eq_3)
    from signal_handler_frame [OF this] 2(2) show ?case
      by (auto simp: ferry_handlers_def ferry_actions_def mk_action_def)
  qed
qed auto

context ferry_session
begin

lemma ferry_waits: "loop.waits (ferry_wait fops)"
  unfolding loop.waits_def
proof (intro allI impI)
  fix s :: "'a ferry_world" assume run: "ferry_run fops q0 (fd_got (tun s)) (sibling s) (ferry_queue s)"
  show "case ferry_wait fops s of Inl err \<Rightarrow> True | Inr (t, s') \<Rightarrow>
      ferry_run fops q0 (fd_got (tun s')) (sibling s') (ferry_queue s') \<and>
      (\<forall>b\<in>set (ferry_handlers fops). fd_num (act_fd b s') = fd_num (act_fd b s))"
  proof (cases "f_wait fops (ferry_envs s 0) (ferry_queue s)")
    case (Inr x)
    obtain w q where w: "f_wait fops (ferry_envs s 0) (ferry_queue s) = Inr (w, q)" using Inr by (cases x) auto
    from fr_wait [OF run w] w show ?thesis
      by (auto simp: ferry_wait_def next_env_def ferry_handlers_def ferry_actions_def mk_action_def)
  qed (simp add: ferry_wait_def)
qed

text \<open>Whatever the loop has done when it is looked at, it has followed a run of the ferry.\<close>

lemma loop_runs:
  assumes "ferry_loop fops current_mask ks s = Inr (x, po, s')" and "list_all honest ks"
    and "fd_got (tun s) = []" "datagram (sibling s)" "fd_sent (sibling s) = []" "ferry_queue s = q0"
  shows "ferry_run fops q0 (fd_got (tun s')) (sibling s') (ferry_queue s')"
proof -
  let ?po = "add_simple_input_handler s signal_fd signal_handler (fold (add_action s) (ferry_actions fops) mk_poller)"
  have po: "poller_ok ?po s" "actions ?po = ferry_handlers fops"
    using poller_ok_fold [OF poller_ok_empty, of s "ferry_actions fops"]
    by (simp_all add: add_simple_input_handler_def poller_ok_add ferry_handlers_def mk_poller_def) (simp add: add_action_def)
  have "ferry_run fops q0 (fd_got (tun s)) (sibling s) (ferry_queue s)"
    unfolding assms(3,6) by (rule fr_start) (use assms in simp_all)
  moreover have "poll_loop (ferry_wait fops) ks ?po s = Inr (x, po, s')"
    using assms(1) by (simp add: ferry_loop_def internal_loop_def split: if_splits)
  ultimately show ?thesis
    using loop.loop_keeps [OF ferry_waits assms(2) po(1)] po(2) by (simp add: list_all2_refl)
qed

end

interpretation delay_session: ferry_session delay_ferry "\<lambda>q. map snd (delayed q)" "\<lambda>q. True" "\<lparr>delay_ms = d, delayed = []\<rparr>"
  by unfold_locales simp_all

interpretation iid_session: ferry_session iid_ferry loss_packets "\<lambda>q. True" "\<lparr>loss_packets = [], loss_rate = rate\<rparr>"
  by unfold_locales simp_all

interpretation switching_session: ferry_session "switching_ferry fuel" loss_packets "\<lambda>q. True"
  "mk_switching_link mean_on mean_off now ds"
  by unfold_locales (simp_all add: mk_switching_link_def)

interpretation meter_session: ferry_session meter_ferry meter_packets "\<lambda>q. True" "\<lparr>meter_packets = [], meter_graph = g\<rparr>"
  by unfold_locales simp_all

section \<open>Properties\<close>

text \<open>
  C29: The event loop of \<open>mm-delay\<close>: whenever it is looked at, after any number of polls with any answers
  of the system call, signals included, the sibling device has been given exactly the packets read
  from the TUN device, in order and unaltered, except for those at the end that are still being
  delayed.
\<close>

theorem delay_ferry_loop_exact:
  assumes "ferry_loop delay_ferry current_mask ks s = Inr (x, po, s')" and "list_all honest ks"
    and "fd_got (tun s) = []" "datagram (sibling s)" "fd_sent (sibling s) = []" "ferry_queue s = \<lparr>delay_ms = d, delayed = []\<rparr>"
  shows "fd_sent (sibling s') @ map snd (delayed (ferry_queue s')) = fd_got (tun s')"
  using delay.run_exact [OF delay_session.loop_runs [OF assms]] by simp

text \<open>A world in which the first poll finds a packet on the TUN device.\<close>

definition sample_world :: "'q \<Rightarrow> 'q ferry_world" where
  "sample_world q =
     \<lparr>signal_fd = sample_fd, child_processes = [], wait_answers = (\<lambda>_. sample_answers), signals_sent = [], times_stopped = 0,
      tun = sample_input, sibling = sample_dgram, ferry_queue = q, ferry_envs = (\<lambda>_. sample_env), interest_env = sample_env\<rparr>"

lemma loop_signals_equal: "mask_equal loop_signals loop_signals"
  by (simp add: mask_equal_def list_all_iff)

definition sample_kernel :: "pollfd list \<Rightarrow> int \<Rightarrow> int \<times> u16 list" where
  "sample_kernel ps t = (1, take (length ps) [1, 0, 0, 0] @ replicate (length ps - 4) 0)"

lemma sample_kernel_honest: "list_all honest [sample_kernel]"
  by (auto simp: honest_def sample_kernel_def min_def)

lemma sample_delay_loop:
  "\<exists>po s'. ferry_loop delay_ferry loop_signals [sample_kernel] (sample_world \<lparr>delay_ms = 20, delayed = []\<rparr>) = Inr (None, po, s') \<and>
     fd_got (tun s') = [[1]]"
  by (simp add: ferry_loop_def internal_loop_def loop_signals_equal add_simple_input_handler_def ferry_actions_def mk_action_def
      add_action_def mk_poller_def sample_world_def ferry_wait_def next_env_def delay_ferry_def delay_wait_time_def delay_pending_output_def
      poll_def wanted_def poll_bits_def sample_kernel_def store_revents_def poll_error_bits_def sample_fd_def sample_input_def sample_dgram_def
      ferry_read_def fd_read_def register_read_def service_count_def Let_def BUFFER_SIZE_def max_wait_def sample_env_def delay_read_packet_def)

theorem delay_ferry_loop_exact_witness:
  "\<exists>po s'. ferry_loop delay_ferry loop_signals [sample_kernel] (sample_world \<lparr>delay_ms = 20, delayed = []\<rparr>) = Inr (None, po, s') \<and>
     fd_sent (sibling s') @ map snd (delayed (ferry_queue s')) = [[1]]"
proof -
  obtain po s' where r: "ferry_loop delay_ferry loop_signals [sample_kernel] (sample_world \<lparr>delay_ms = 20, delayed = []\<rparr>) = Inr (None, po, s')"
      and g: "fd_got (tun s') = [[1]]"
    using sample_delay_loop by blast
  have "fd_sent (sibling s') @ map snd (delayed (ferry_queue s')) = fd_got (tun s')"
    by (rule delay_ferry_loop_exact [OF r sample_kernel_honest])
       (simp_all add: sample_world_def sample_input_def sample_fd_def sample_dgram_datagram)
  with r g show ?thesis by auto
qed

text \<open>
  C4: The event loop of \<open>mm-link\<close>, over any of the program's packet queues: whenever it is looked at,
  what the sibling device has been given, followed by what is still inside the link, is a
  subsequence of the packets read from the TUN device. Packets are delivered in order, at most once
  and unaltered, whatever the queue drops; the sizes are those a 32-bit counter can hold.
\<close>

theorem link_ferry_loop_in_order:
  assumes "ferry_loop link_ferry current_mask ks s = Inr (x, po, s')" and "list_all honest ks"
    and "fd_got (tun s) = []" "datagram (sibling s)" "fd_sent (sibling s) = []" "ferry_queue s = l0"
    and "any_inv (link_packets l0)" "transit_wf l0" "pipeline any_pkts l0 = []"
    and "sum_list (map length (fd_got (tun s'))) < 2 ^ 31" "length (fd_got (tun s')) < 2 ^ 31"
  shows "subseq (fd_sent (sibling s') @ pipeline any_pkts (ferry_queue s')) (fd_got (tun s'))"
proof -
  have "ferry_session link_ferry (pipeline any_pkts) (\<lambda>l. any_inv (link_packets l) \<and> transit_wf l) l0"
    using assms(7,8,9) by unfold_locales auto
  from ferry_session.loop_runs [OF this assms(1-6)]
  show ?thesis using link.run_delivers assms(7-11) by blast
qed

theorem link_ferry_loop_in_order_witness:
  "\<exists>po s'. ferry_loop link_ferry loop_signals [\<lambda>ps t. (0, replicate (length ps) 0)] (sample_world sample_link) = Inr (None, po, s') \<and>
     subseq (fd_sent (sibling s') @ pipeline any_pkts (ferry_queue s')) []"
proof -
  let ?k = "\<lambda>ps t. (0 :: int, replicate (length ps) 0 :: u16 list)"
  obtain w l1 where w: "wait_time any_ops 0 sample_link = Inr (w, l1)"
    using rel.wait_time_total [OF sample_link_ok(1) _ sample_link_ok(4), of 0] by (auto simp: sample_link_def)
  have "\<exists>po s'. ferry_loop link_ferry loop_signals [?k] (sample_world sample_link) = Inr (None, po, s') \<and> fd_got (tun s') = []"
    by (simp add: ferry_loop_def internal_loop_def loop_signals_equal add_simple_input_handler_def ferry_actions_def mk_action_def
        add_action_def mk_poller_def sample_world_def ferry_wait_def next_env_def link_ferry_def sample_env_def w
        poll_def wanted_def poll_bits_def sample_fd_def sample_input_def sample_dgram_def Let_def)
  then obtain po s' where r: "ferry_loop link_ferry loop_signals [?k] (sample_world sample_link) = Inr (None, po, s')"
      and g: "fd_got (tun s') = []" by blast
  have "any_inv (link_packets sample_link)" using sample_infinite_inv by (simp add: sample_link_def)
  from link_ferry_loop_in_order [OF r _ _ _ _ _ this sample_link_ok(2,3)] g
  have "subseq (fd_sent (sibling s') @ pipeline any_pkts (ferry_queue s')) []"
    by (simp add: honest_def sample_world_def sample_input_def sample_fd_def sample_dgram_datagram)
  with r show ?thesis by blast
qed

end
