(* ===== verification/Bytestream_Queue.thy ===== *)
theory Bytestream_Queue
  imports File_Desc
begin

text \<open>
  \<open>ByteStreamQueue\<close>, src/src/util/bytestream_queue.{hh,cc}: a ring buffer between two file
  descriptors. The positions are \<open>size_t\<close>, so the subtractions in \<open>available_to_pop\<close> and
  \<open>available_to_push\<close> wrap. \<open>stream\<close> abstracts the ring to the bytes it holds; the locale
  \<open>byte_fifo\<close> is the contract of a byte stream, and the ring buffer meets it.
\<close>

section \<open>Model\<close>

record bytestream =
  buffer :: "byte list"
  next_byte_to_push :: u64
  next_byte_to_pop :: u64

datatype bs_result = Success | EndOfFile

abbreviation buffer_size :: "bytestream \<Rightarrow> u64" where
  "buffer_size q \<equiv> of_nat (length (buffer q))"

definition mk_bytestream :: "nat \<Rightarrow> bytestream res" where
  "mk_bytestream size' =
     asserting (1 < size') (Inr \<lparr>buffer = replicate size' 0, next_byte_to_push = 0, next_byte_to_pop = 0\<rparr>)"

definition available_to_pop :: "bytestream \<Rightarrow> u64" where
  "available_to_pop q =
     next_byte_to_push q - next_byte_to_pop q
       + (if next_byte_to_push q < next_byte_to_pop q then buffer_size q else 0)"

definition available_to_push :: "bytestream \<Rightarrow> u64" where
  "available_to_push q =
     next_byte_to_pop q - next_byte_to_push q - 1
       + (if next_byte_to_push q < next_byte_to_pop q then 0 else buffer_size q)"

definition space_available :: "bytestream \<Rightarrow> bool" where
  "space_available q \<longleftrightarrow> 0 < available_to_push q"

definition non_empty :: "bytestream \<Rightarrow> bool" where
  "non_empty q \<longleftrightarrow> 0 < available_to_pop q"

text \<open>\<open>memcpy( &buffer_.at( pos ), chunk.data(), chunk.size() )\<close> for a chunk that fits.\<close>

definition copy_into :: "byte list \<Rightarrow> nat \<Rightarrow> byte list \<Rightarrow> byte list" where
  "copy_into buf pos chunk = take pos buf @ chunk @ drop (pos + length chunk) buf"

definition wrap_at :: "u64 \<Rightarrow> u64 \<Rightarrow> u64" where
  "wrap_at sz pos = (if pos = sz then 0 else pos)"

definition contiguous :: "u64 \<Rightarrow> u64 \<Rightarrow> u64 \<Rightarrow> u64" where
  "contiguous sz pos avail = (if sz \<le> pos + avail then sz - pos else avail)"

definition bs_push :: "file_desc \<Rightarrow> bytestream \<Rightarrow> (bs_result \<times> file_desc \<times> bytestream) res" where
  "bs_push fd q =
     asserting (space_available q)
       (let space = contiguous (buffer_size q) (next_byte_to_push q) (available_to_push q) in
        asserting (0 < space)
          (res_bind (fd_read (unat space) fd) (\<lambda>(new_chunk, fd1).
             if new_chunk = [] then Inr (EndOfFile, fd1, q)
             else
               asserting (of_nat (length new_chunk) \<le> buffer_size q - next_byte_to_push q)
                 (if buffer_size q \<le> next_byte_to_push q then Inl Out_of_range
                  else
                    let pos = next_byte_to_push q + of_nat (length new_chunk);
                        q1 = q\<lparr>buffer := copy_into (buffer q) (unat (next_byte_to_push q)) new_chunk,
                               next_byte_to_push := wrap_at (buffer_size q) pos\<rparr>
                    in asserting (pos \<le> buffer_size q)
                         (asserting (non_empty q1) (Inr (Success, fd1, q1)))))))"

definition bs_pop :: "file_desc \<Rightarrow> bytestream \<Rightarrow> (file_desc \<times> bytestream) res" where
  "bs_pop fd q =
     asserting (non_empty q)
       (let space = contiguous (buffer_size q) (next_byte_to_pop q) (available_to_pop q) in
        res_bind (write_some (take (unat space) (drop (unat (next_byte_to_pop q)) (buffer q))) fd) (\<lambda>(rest, fd1).
          let pos = next_byte_to_pop q + (space - of_nat (length rest)) in
          asserting (pos \<le> buffer_size q)
            (Inr (fd1, q\<lparr>next_byte_to_pop := wrap_at (buffer_size q) pos\<rparr>))))"

definition eof :: "bs_result \<Rightarrow> bool" where
  "eof r \<longleftrightarrow> r = EndOfFile"

section \<open>The ring as a list\<close>

definition bs_inv :: "bytestream \<Rightarrow> bool" where
  "bs_inv q \<longleftrightarrow> 1 < length (buffer q) \<and> length (buffer q) < 2 ^ 62 \<and>
     unat (next_byte_to_push q) < length (buffer q) \<and> unat (next_byte_to_pop q) < length (buffer q)"

definition ring :: "byte list \<Rightarrow> nat \<Rightarrow> nat \<Rightarrow> byte list" where
  "ring buf i j = (if j \<le> i then take (i - j) (drop j buf) else drop j buf @ take i buf)"

definition stream :: "bytestream \<Rightarrow> byte list" where
  "stream q = ring (buffer q) (unat (next_byte_to_push q)) (unat (next_byte_to_pop q))"

lemma length_ring: "i < length buf \<Longrightarrow> j < length buf \<Longrightarrow> length (ring buf i j) = (if j \<le> i then i - j else length buf + i - j)"
  by (auto simp: ring_def)

lemma unat_of_nat_small: "n < 2 ^ 62 \<Longrightarrow> unat (of_nat n :: u64) = n"
  by (simp add: unat_of_nat take_bit_nat_eq_self)

lemma buffer_size_unat: "bs_inv q \<Longrightarrow> unat (buffer_size q) = length (buffer q)"
  by (simp add: bs_inv_def unat_of_nat_small)

lemma available_to_pop_unat:
  assumes "bs_inv q"
  shows "unat (available_to_pop q) = length (stream q)"
proof -
  let ?i = "next_byte_to_push q" and ?j = "next_byte_to_pop q" and ?n = "buffer_size q"
  have n: "unat ?n = length (buffer q)" and lt: "unat ?i < length (buffer q)" "unat ?j < length (buffer q)"
    and small: "length (buffer q) < 2 ^ 62"
    using buffer_size_unat [OF assms] assms unfolding bs_inv_def by blast+
  show ?thesis
  proof (cases "?i < ?j")
    case True
    have "?j \<le> ?n" using n lt by (simp add: word_le_nat_alt)
    then have "unat (?n - ?j) = length (buffer q) - unat ?j" using n by (simp add: unat_sub)
    then have "unat (?i + (?n - ?j)) = unat ?i + (length (buffer q) - unat ?j)"
      using lt small by (subst unat_add_small) auto
    moreover have "available_to_pop q = ?i + (?n - ?j)" using True by (simp add: available_to_pop_def)
    ultimately show ?thesis using True lt by (simp add: stream_def length_ring word_less_nat_alt)
  next
    case False
    then have "unat (?i - ?j) = unat ?i - unat ?j" by (simp add: unat_sub)
    then show ?thesis using False lt by (simp add: available_to_pop_def stream_def length_ring word_less_nat_alt)
  qed
qed

lemma available_to_push_unat:
  assumes "bs_inv q"
  shows "unat (available_to_push q) = length (buffer q) - 1 - length (stream q)"
proof -
  let ?i = "next_byte_to_push q" and ?j = "next_byte_to_pop q" and ?n = "buffer_size q"
  have n: "unat ?n = length (buffer q)" and lt: "unat ?i < length (buffer q)" "unat ?j < length (buffer q)"
    and small: "length (buffer q) < 2 ^ 62"
    using buffer_size_unat [OF assms] assms unfolding bs_inv_def by blast+
  show ?thesis
  proof (cases "?i < ?j")
    case True
    have u: "unat (?j - ?i) = unat ?j - unat ?i" using True by (simp add: unat_sub order_less_imp_le)
    have "1 \<le> ?j - ?i" using True u by (simp add: word_le_nat_alt word_less_nat_alt)
    then have "unat (?j - ?i - 1) = unat ?j - unat ?i - 1" using u by (simp add: unat_sub)
    then show ?thesis using True lt by (simp add: available_to_push_def stream_def length_ring word_less_nat_alt)
  next
    case False
    have "?i \<le> ?n" using n lt by (simp add: word_le_nat_alt)
    then have a: "unat (?n - ?i) = length (buffer q) - unat ?i" using n by (simp add: unat_sub)
    then have "1 \<le> ?n - ?i" using lt by (simp add: word_le_nat_alt)
    then have b: "unat (?n - ?i - 1) = length (buffer q) - unat ?i - 1" using a by (simp add: unat_sub)
    have "unat (?j + (?n - ?i - 1)) = unat ?j + (length (buffer q) - unat ?i - 1)"
      using lt small b by (subst unat_add_small) auto
    moreover have "available_to_push q = ?j + (?n - ?i - 1)" using False by (simp add: available_to_push_def)
    ultimately show ?thesis
      using False lt by (simp add: stream_def length_ring word_less_nat_alt)
  qed
qed

text \<open>The capacity is one byte less than the size of the buffer.\<close>

lemma stream_capacity: "bs_inv q \<Longrightarrow> length (stream q) < length (buffer q)"
  by (auto simp: bs_inv_def stream_def length_ring)

lemma non_empty_iff: "bs_inv q \<Longrightarrow> non_empty q \<longleftrightarrow> stream q \<noteq> []"
  using available_to_pop_unat [of q] by (simp add: non_empty_def word_less_nat_alt)

lemma space_available_iff: "bs_inv q \<Longrightarrow> space_available q \<longleftrightarrow> length (stream q) + 1 < length (buffer q)"
  using available_to_push_unat [of q] stream_capacity [of q] by (auto simp: space_available_def word_less_nat_alt)

lemma contiguous_unat:
  assumes "unat pos < n" and "unat avail < n" and "n < 2 ^ 62"
  shows "unat (contiguous (of_nat n) pos avail) = min (n - unat pos) (unat avail)"
proof -
  have n: "unat (of_nat n :: u64) = n" using assms(3) by (rule unat_of_nat_small)
  have "unat (pos + avail) = unat pos + unat avail" using assms by (intro unat_add_small) simp
  moreover have "unat (of_nat n - pos) = n - unat pos" using n assms(1) by (simp add: unat_sub word_le_nat_alt)
  ultimately show ?thesis using n by (auto simp: contiguous_def word_le_nat_alt)
qed

lemma wrap_at_unat:
  assumes "unat pos \<le> n" and "n < 2 ^ 62"
  shows "unat (wrap_at (of_nat n) pos) = (if unat pos = n then 0 else unat pos)"
proof -
  have "unat (of_nat n :: u64) = n" using assms(2) by (rule unat_of_nat_small)
  then show ?thesis by (auto simp: wrap_at_def)
qed

lemma length_copy_into: "pos + length chunk \<le> length buf \<Longrightarrow> length (copy_into buf pos chunk) = length buf"
  by (simp add: copy_into_def)

text \<open>Copying a chunk behind the stream appends it, whether or not the position then wraps.\<close>

lemma ring_push:
  assumes "i < length buf" and "j < length buf" and "i + length chunk \<le> length buf"
    and "length (ring buf i j) + length chunk < length buf"
  shows "ring (copy_into buf i chunk) (if i + length chunk = length buf then 0 else i + length chunk) j
       = ring buf i j @ chunk"
  using assms by (auto simp: ring_def copy_into_def drop_take not_le split: if_splits)

lemma ring_pop:
  assumes "i < length buf" and "j < length buf" and "j + k \<le> length buf" and "k \<le> length (ring buf i j)"
  shows "ring buf i (if j + k = length buf then 0 else j + k) = drop k (ring buf i j)"
    and "take k (drop j buf) = take k (ring buf i j)"
  using assms by (auto simp: ring_def not_le drop_take add.commute split: if_splits)

section \<open>Refinement\<close>

text \<open>What a push reads is appended to the stream; the end of the file changes nothing.\<close>

definition push_space :: "bytestream \<Rightarrow> u64" where
  "push_space q = contiguous (buffer_size q) (next_byte_to_push q) (available_to_push q)"

lemma push_space_unat:
  assumes "bs_inv q"
  shows "unat (push_space q) = min (length (buffer q) - unat (next_byte_to_push q)) (length (buffer q) - 1 - length (stream q))"
proof -
  have "unat (next_byte_to_push q) < length (buffer q)" "1 < length (buffer q)" "length (buffer q) < 2 ^ 62"
    using assms unfolding bs_inv_def by blast+
  then show ?thesis
    unfolding push_space_def using available_to_push_unat [OF assms] by (subst contiguous_unat) auto
qed

lemma push_space_pos:
  assumes "bs_inv q" and "space_available q"
  shows "0 < push_space q"
proof -
  have "unat (next_byte_to_push q) < length (buffer q)" using assms(1) unfolding bs_inv_def by blast
  then have "0 < unat (push_space q)"
    using push_space_unat [OF assms(1)] assms(2) space_available_iff [OF assms(1)] by simp
  then show ?thesis by (simp add: word_less_nat_alt)
qed

lemma push_fails:
  assumes "bs_inv q" and "space_available q" and "fd_read (unat (push_space q)) fd = Inl err"
  shows "bs_push fd q = Inl err"
  using push_space_pos [OF assms(1,2)] assms by (simp add: bs_push_def asserting_def Let_def res_bind_def flip: push_space_def)

lemma push_refines:
  assumes "bs_inv q" and "space_available q" and "fd_read (unat (push_space q)) fd = Inr (chunk, fd1)"
  shows "\<exists>q'. bs_push fd q = Inr (if chunk = [] then EndOfFile else Success, fd1, q') \<and>
     bs_inv q' \<and> stream q' = stream q @ chunk \<and> length (buffer q') = length (buffer q)"
proof -
  let ?i = "next_byte_to_push q" and ?n = "length (buffer q)"
  define space where "space = push_space q"
  have inv: "1 < ?n" "?n < 2 ^ 62" "unat ?i < ?n" "unat (next_byte_to_pop q) < ?n" using assms(1) by (auto simp: bs_inv_def)
  have n: "unat (buffer_size q) = ?n" using assms(1) by (rule buffer_size_unat)
  have cap: "length (stream q) < ?n" "length (stream q) + 1 < ?n"
    using stream_capacity [OF assms(1)] assms(2) space_available_iff [OF assms(1)] by auto
  have sp: "unat space = min (?n - unat ?i) (?n - 1 - length (stream q))"
    unfolding space_def by (rule push_space_unat [OF assms(1)])
  have pos: "0 < space" using push_space_pos [OF assms(1,2)] by (simp add: space_def)
  have r: "fd_read (unat space) fd = Inr (chunk, fd1)" using assms(3) by (simp add: space_def)
  have len: "length chunk \<le> unat space" using fd_read_Inr(1) [OF r] .
  show ?thesis
  proof (cases "chunk = []")
    case True
    then show ?thesis using r pos assms(1,2) by (simp add: bs_push_def asserting_def Let_def space_def push_space_def)
  next
    case False
    have c: "unat (of_nat (length chunk) :: u64) = length chunk"
      using len sp inv by (intro unat_of_nat_small) linarith
    have fits: "unat ?i + length chunk \<le> ?n" using len sp inv by linarith
    have p: "unat (?i + of_nat (length chunk)) = unat ?i + length chunk"
      using c fits inv by (subst unat_add_small) auto
    let ?q = "q\<lparr>buffer := copy_into (buffer q) (unat ?i) chunk, next_byte_to_push := wrap_at (buffer_size q) (?i + of_nat (length chunk))\<rparr>"
    have w: "unat (next_byte_to_push ?q) = (if unat ?i + length chunk = ?n then 0 else unat ?i + length chunk)"
      using wrap_at_unat [of "?i + of_nat (length chunk)" ?n] p fits inv by simp
    have lb: "length (buffer ?q) = ?n" using fits by (simp add: length_copy_into)
    have inv': "bs_inv ?q" using inv fits w lb unfolding bs_inv_def by (auto split: if_splits)
    have "length (stream q) + length chunk < ?n" using len sp cap by linarith
    then have st: "stream ?q = stream q @ chunk"
      using inv fits w unfolding stream_def by (subst ring_push [symmetric]) auto
    have "non_empty ?q" using non_empty_iff [OF inv'] st False by simp
    moreover have "of_nat (length chunk) \<le> buffer_size q - ?i"
    proof -
      have "unat (buffer_size q - ?i) = ?n - unat ?i" using n inv by (simp add: unat_sub word_le_nat_alt)
      then show ?thesis using c fits by (simp add: word_le_nat_alt)
    qed
    moreover have "\<not> buffer_size q \<le> ?i" using n inv by (simp add: word_le_nat_alt)
    moreover have "?i + of_nat (length chunk) \<le> buffer_size q" using p n fits by (simp add: word_le_nat_alt)
    ultimately have "bs_push fd q = Inr (Success, fd1, ?q)"
      using r pos assms(2) False by (simp add: bs_push_def asserting_def Let_def space_def push_space_def)
    with inv' st lb False show ?thesis by auto
  qed
qed

text \<open>What a pop writes comes off the front of the stream.\<close>

lemma pop_refines:
  assumes "bs_inv q" and "stream q \<noteq> []"
  shows "\<exists>s. s \<noteq> [] \<and> prefix s (stream q) \<and>
     (case write_some s fd of
        Inl err \<Rightarrow> bs_pop fd q = Inl err
      | Inr (rest, fd1) \<Rightarrow> \<exists>q'. bs_pop fd q = Inr (fd1, q') \<and> bs_inv q' \<and> stream q' = drop (length s - length rest) (stream q) \<and>
          length (buffer q') = length (buffer q))"
proof -
  let ?j = "next_byte_to_pop q" and ?n = "length (buffer q)"
  define space where "space = contiguous (buffer_size q) ?j (available_to_pop q)"
  define s where "s = take (unat space) (drop (unat ?j) (buffer q))"
  have inv: "1 < ?n" "?n < 2 ^ 62" "unat ?j < ?n" "unat (next_byte_to_push q) < ?n" using assms(1) by (auto simp: bs_inv_def)
  have n: "unat (buffer_size q) = ?n" using assms(1) by (rule buffer_size_unat)
  have ne: "non_empty q" using non_empty_iff assms by blast
  have sp: "unat space = min (?n - unat ?j) (length (stream q))"
    unfolding space_def using inv available_to_pop_unat [OF assms(1)] stream_capacity [OF assms(1)]
    by (subst contiguous_unat) auto
  have ls: "length s = unat space" using sp by (simp add: s_def)
  have ring: "take k (drop (unat ?j) (buffer q)) = take k (stream q)"
    if "k \<le> unat space" for k
    using that sp inv unfolding stream_def by (intro ring_pop(2)) auto
  have "s = take (unat space) (stream q)" using ring [of "unat space"] by (simp add: s_def)
  then have pre: "prefix s (stream q)" by (simp add: take_is_prefix)
  have "0 < unat space" using sp inv assms(2) by simp
  then have "s \<noteq> []" using ls by auto
  moreover have "case write_some s fd of
        Inl err \<Rightarrow> bs_pop fd q = Inl err
      | Inr (rest, fd1) \<Rightarrow> \<exists>q'. bs_pop fd q = Inr (fd1, q') \<and> bs_inv q' \<and> stream q' = drop (length s - length rest) (stream q) \<and>
          length (buffer q') = length (buffer q)"
  proof (cases "write_some s fd")
    case (Inl err)
    then show ?thesis using ne by (simp add: bs_pop_def asserting_def Let_def res_bind_def flip: space_def s_def)
  next
    case (Inr r)
    obtain rest fd1 where r: "r = (rest, fd1)" by fastforce
    let ?k = "length s - length rest"
    obtain m where m: "0 < m" "m \<le> length s" "rest = drop m s" using write_some_Inr(1) Inr r by blast
    then have k: "?k = m" "length rest = length s - m" by auto
    have u: "unat (space - of_nat (length rest)) = m"
    proof -
      have r: "unat (of_nat (length rest) :: u64) = length rest"
        using k(2) ls sp inv by (intro unat_of_nat_small) linarith
      have "of_nat (length rest) \<le> space" unfolding word_le_nat_alt r using k(2) ls by linarith
      from unat_sub [OF this] have "unat (space - of_nat (length rest)) = unat space - length rest" unfolding r .
      then show ?thesis using k(2) m(2) ls by linarith
    qed
    have fits: "unat ?j + m \<le> ?n" using m ls sp inv by linarith
    have p: "unat (?j + (space - of_nat (length rest))) = unat ?j + m"
      using u fits inv by (subst unat_add_small) auto
    let ?q = "q\<lparr>next_byte_to_pop := wrap_at (buffer_size q) (?j + (space - of_nat (length rest)))\<rparr>"
    have w: "unat (next_byte_to_pop ?q) = (if unat ?j + m = ?n then 0 else unat ?j + m)"
      using wrap_at_unat [of "?j + (space - of_nat (length rest))" ?n] p fits inv by simp
    have "bs_inv ?q" using inv fits w unfolding bs_inv_def by (auto split: if_splits)
    moreover have "stream ?q = drop ?k (stream q)"
      using inv fits m ls sp w k unfolding stream_def by (subst ring_pop(1) [symmetric]) auto
    moreover have "?j + (space - of_nat (length rest)) \<le> buffer_size q" using p n fits by (simp add: word_le_nat_alt)
    then have "bs_pop fd q = Inr (fd1, ?q)"
      using Inr r ne by (simp add: bs_pop_def asserting_def Let_def flip: space_def s_def)
    ultimately show ?thesis using Inr r by auto
  qed
  ultimately show ?thesis using pre by blast
qed

section \<open>The contract of a byte stream\<close>

text \<open>A relay fills the stream from one descriptor and drains it into another, in any order.\<close>

inductive relay :: "(file_desc \<Rightarrow> 'q \<Rightarrow> (bs_result \<times> file_desc \<times> 'q) res) \<Rightarrow> (file_desc \<Rightarrow> 'q \<Rightarrow> (file_desc \<times> 'q) res) \<Rightarrow>
    file_desc \<times> 'q \<times> file_desc \<Rightarrow> file_desc \<times> 'q \<times> file_desc \<Rightarrow> bool"
  for fill drain s0 where
  relay_start: "relay fill drain s0 s0"
| relay_fill: "relay fill drain s0 (src, q, dst) \<Longrightarrow> fill src q = Inr (r, src', q') \<Longrightarrow> relay fill drain s0 (src', q', dst)"
| relay_drain: "relay fill drain s0 (src, q, dst) \<Longrightarrow> drain dst q = Inr (dst', q') \<Longrightarrow> relay fill drain s0 (src, q', dst')"

locale byte_fifo =
  fixes fill :: "file_desc \<Rightarrow> 'q \<Rightarrow> (bs_result \<times> file_desc \<times> 'q) res"
    and drain :: "file_desc \<Rightarrow> 'q \<Rightarrow> (file_desc \<times> 'q) res"
    and bytes :: "'q \<Rightarrow> byte list"
    and qinv :: "'q \<Rightarrow> bool"
  assumes fill_law: "qinv q \<Longrightarrow> fill fd q = Inr (r, fd', q') \<Longrightarrow>
       qinv q' \<and> (\<exists>c. fd_got fd' = fd_got fd @ [c] \<and> bytes q' = bytes q @ c \<and> (r = EndOfFile \<longleftrightarrow> c = []))"
    and drain_law: "qinv q \<Longrightarrow> drain fd q = Inr (fd', q') \<Longrightarrow>
       qinv q' \<and> (\<exists>c. c \<noteq> [] \<and> fd_sent fd' = fd_sent fd @ [c] \<and> bytes q = c @ bytes q')"
begin

lemma relay_exact:
  "relay fill drain s0 s \<Longrightarrow> s0 = (src0, q0, dst0) \<Longrightarrow> qinv q0 \<Longrightarrow> bytes q0 = [] \<Longrightarrow> fd_got src0 = [] \<Longrightarrow> fd_sent dst0 = [] \<Longrightarrow>
     qinv (fst (snd s)) \<and> concat (fd_sent (snd (snd s))) @ bytes (fst (snd s)) = concat (fd_got (fst s))"
proof (induction rule: relay.induct)
  case (relay_fill src q dst r src' q')
  then have IH: "qinv q" "concat (fd_sent dst) @ bytes q = concat (fd_got src)" by auto
  from fill_law [OF IH(1) relay_fill(2)] obtain c where "qinv q'" "fd_got src' = fd_got src @ [c]" "bytes q' = bytes q @ c" by blast
  with IH(2) show ?case by simp
next
  case (relay_drain src q dst dst' q')
  then have IH: "qinv q" "concat (fd_sent dst) @ bytes q = concat (fd_got src)" by auto
  from drain_law [OF IH(1) relay_drain(2)] obtain c where "qinv q'" "fd_sent dst' = fd_sent dst @ [c]" "bytes q = c @ bytes q'" by blast
  with IH(2) show ?case by simp
qed simp

end

lemma push_law:
  assumes "bs_inv q" and "bs_push fd q = Inr (r, fd', q')"
  shows "bs_inv q' \<and> (\<exists>c. fd_got fd' = fd_got fd @ [c] \<and> stream q' = stream q @ c \<and> (r = EndOfFile \<longleftrightarrow> c = []))"
proof -
  have sp: "space_available q" using assms(2) by (auto simp: bs_push_def asserting_def split: if_splits)
  show ?thesis
  proof (cases "fd_read (unat (push_space q)) fd")
    case (Inl err)
    with push_fails [OF assms(1) sp] assms(2) show ?thesis by simp
  next
    case (Inr x)
    obtain chunk fd1 where x: "fd_read (unat (push_space q)) fd = Inr (chunk, fd1)" using Inr by (cases x) auto
    obtain q1 where "bs_push fd q = Inr (if chunk = [] then EndOfFile else Success, fd1, q1)" "bs_inv q1" "stream q1 = stream q @ chunk"
      using push_refines [OF assms(1) sp x] by blast
    with assms(2) fd_read_Inr(2) [OF x] show ?thesis by (auto split: if_splits)
  qed
qed

lemma pop_law:
  assumes "bs_inv q" and "bs_pop fd q = Inr (fd', q')"
  shows "bs_inv q' \<and> (\<exists>c. c \<noteq> [] \<and> fd_sent fd' = fd_sent fd @ [c] \<and> stream q = c @ stream q')"
proof -
  have "non_empty q" using assms(2) by (auto simp: bs_pop_def asserting_def split: if_splits)
  then have ne: "stream q \<noteq> []" using non_empty_iff [OF assms(1)] by blast
  obtain s where s: "prefix s (stream q)" and pop: "case write_some s fd of
        Inl err \<Rightarrow> bs_pop fd q = Inl err
      | Inr (rest, fd1) \<Rightarrow> \<exists>q'. bs_pop fd q = Inr (fd1, q') \<and> bs_inv q' \<and> stream q' = drop (length s - length rest) (stream q) \<and>
          length (buffer q') = length (buffer q)"
    using pop_refines [OF assms(1) ne, of fd] by blast
  obtain rest where w: "write_some s fd = Inr (rest, fd')" and q': "bs_inv q'" "stream q' = drop (length s - length rest) (stream q)"
    using pop assms(2) by (cases "write_some s fd") auto
  obtain n where n: "0 < n" "n \<le> length s" "rest = drop n s" "fd_sent fd' = fd_sent fd @ [take n s]"
    using write_some_Inr(1) [OF w] by blast
  obtain t where t: "stream q = s @ t" using s by (auto simp: prefix_def)
  have "take n s \<noteq> []" using n(1,2) by auto
  moreover have "stream q = take n s @ stream q'" unfolding q'(2) t n(3) using n(2) by simp
  ultimately show ?thesis using q'(1) n(4) by blast
qed

interpretation ring: byte_fifo bs_push bs_pop stream bs_inv
  by unfold_locales (rule push_law pop_law; assumption)+

section \<open>Properties\<close>

text \<open>
  C12: The ring buffer is a bounded queue of bytes. In every well-formed state there is space exactly
  when it holds fewer than \<open>size - 1\<close> bytes and it is non-empty exactly when it holds one; a push
  that returns has appended what it read (nothing at the end of the file), a pop that returns has
  removed what it wrote from the front, and both keep the state well formed. When the guards
  \<open>space_available\<close> and \<open>non_empty\<close> hold, no assertion of the two operations can fail: they fail
  only with the error of the system call.
\<close>

theorem bytestream_refines:
  assumes "bs_inv q"
  shows "(space_available q \<longleftrightarrow> length (stream q) < length (buffer q) - 1) \<and> (non_empty q \<longleftrightarrow> stream q \<noteq> []) \<and>
     (\<forall>r fd' q'. bs_push fd q = Inr (r, fd', q') \<longrightarrow>
        bs_inv q' \<and> (\<exists>c. fd_got fd' = fd_got fd @ [c] \<and> stream q' = stream q @ c \<and> (r = EndOfFile \<longleftrightarrow> c = []))) \<and>
     (\<forall>fd' q'. bs_pop fd q = Inr (fd', q') \<longrightarrow>
        bs_inv q' \<and> (\<exists>c. c \<noteq> [] \<and> fd_sent fd' = fd_sent fd @ [c] \<and> stream q = c @ stream q')) \<and>
     (\<forall>err. space_available q \<longrightarrow> bs_push fd q = Inl err \<longrightarrow> fd_read (unat (push_space q)) fd = Inl err) \<and>
     (\<forall>err. non_empty q \<longrightarrow> bs_pop fd q = Inl err \<longrightarrow> (\<exists>s. s \<noteq> [] \<and> prefix s (stream q) \<and> write_some s fd = Inl err))"
proof (intro conjI allI impI)
  show "space_available q \<longleftrightarrow> length (stream q) < length (buffer q) - 1" using space_available_iff [OF assms] by auto
  show "non_empty q \<longleftrightarrow> stream q \<noteq> []" by (rule non_empty_iff [OF assms])
next
  fix err assume sp: "space_available q" and e: "bs_push fd q = Inl err"
  show "fd_read (unat (push_space q)) fd = Inl err"
  proof (cases "fd_read (unat (push_space q)) fd")
    case (Inl x)
    then show ?thesis using push_fails [OF assms sp Inl] e by simp
  next
    case (Inr x)
    then show ?thesis using push_refines [OF assms sp, of fd "fst x" "snd x"] e by auto
  qed
next
  fix err assume ne: "non_empty q" and e: "bs_pop fd q = Inl err"
  then have "stream q \<noteq> []" using non_empty_iff [OF assms] by blast
  then obtain s where s: "s \<noteq> []" "prefix s (stream q)" and pop: "case write_some s fd of
        Inl err \<Rightarrow> bs_pop fd q = Inl err
      | Inr (rest, fd1) \<Rightarrow> \<exists>q'. bs_pop fd q = Inr (fd1, q') \<and> bs_inv q' \<and> stream q' = drop (length s - length rest) (stream q) \<and>
          length (buffer q') = length (buffer q)"
    using pop_refines [OF assms, of fd] by blast
  have "write_some s fd = Inl err" using pop e by (cases "write_some s fd") auto
  with s show "\<exists>s. s \<noteq> [] \<and> prefix s (stream q) \<and> write_some s fd = Inl err" by blast
qed (use push_law [OF assms] pop_law [OF assms] in blast)+

theorem bytestream_refines_witness:
  "stream \<lparr>buffer = [7, 0, 0, 5, 6], next_byte_to_push = 1, next_byte_to_pop = 3\<rparr> = [5, 6, 7] \<and>
   space_available \<lparr>buffer = [7, 0, 0, 5, 6], next_byte_to_push = 1, next_byte_to_pop = 3\<rparr>"
  using bytestream_refines [of "\<lparr>buffer = [7, 0, 0, 5, 6], next_byte_to_push = 1, next_byte_to_pop = 3\<rparr>" sample_fd]
  by (simp add: bs_inv_def stream_def ring_def)

end
