(* ===== verification/Dns_Proxy.thy ===== *)
theory Dns_Proxy
  imports Bytestream_Queue Poller
begin

text \<open>
  The threads of \<open>DNSProxy\<close>, src/src/util/dns_proxy.cc, with the datagram operations of
  \<open>UDPSocket\<close> they use (src/src/util/socket.cc). A TCP connection is relayed through two
  \<open>ByteStreamQueue\<close>s by four actions of a \<open>Poller\<close>; a UDP request is forwarded and one reply is
  sent back. \<open>dns_world\<close> holds what the lambdas of \<open>handle_tcp\<close> capture. The connected sockets
  are inputs: \<open>connect\<close> and \<open>accept\<close> are system calls.
\<close>

unbundle bit_operations_syntax

section \<open>Model\<close>

subsection \<open>handle_tcp\<close>

record dns_world =
  dns_server :: file_desc
  client :: file_desc
  from_client :: bytestream
  from_server :: bytestream

definition dns_tcp_actions :: "dns_world action list" where
  "dns_tcp_actions =
     [mk_action dns_server In
        (\<lambda>s. res_bind (bs_push (dns_server s) (from_server s)) (\<lambda>(r, fd, q).
           Inr (if eof r then Cancel else Continue, s\<lparr>dns_server := fd, from_server := q\<rparr>)))
        (\<lambda>s. space_available (from_server s)),
      mk_action client In
        (\<lambda>s. res_bind (bs_push (client s) (from_client s)) (\<lambda>(r, fd, q).
           Inr (if eof r then Cancel else Continue, s\<lparr>client := fd, from_client := q\<rparr>)))
        (\<lambda>s. space_available (from_client s)),
      mk_action dns_server Out
        (\<lambda>s. res_bind (bs_pop (dns_server s) (from_client s)) (\<lambda>(fd, q).
           Inr (Continue, s\<lparr>dns_server := fd, from_client := q\<rparr>)))
        (\<lambda>s. non_empty (from_client s)),
      mk_action client Out
        (\<lambda>s. res_bind (bs_pop (client s) (from_server s)) (\<lambda>(fd, q).
           Inr (Continue, s\<lparr>client := fd, from_server := q\<rparr>)))
        (\<lambda>s. non_empty (from_server s))]"

definition dns_buffer_size :: nat where
  "dns_buffer_size = 1024 * 1024"

definition handle_tcp :: "(pollfd list \<Rightarrow> int \<Rightarrow> int \<times> u16 list) list \<Rightarrow> file_desc \<Rightarrow> file_desc \<Rightarrow>
    (u32 option \<times> dns_world poller \<times> dns_world) res" where
  "handle_tcp ks server cl =
     res_bind (mk_bytestream dns_buffer_size) (\<lambda>fc.
     res_bind (mk_bytestream dns_buffer_size) (\<lambda>fs.
       let s = \<lparr>dns_server = server, client = cl, from_client = fc, from_server = fs\<rparr>
       in poll_loop (\<lambda>s. Inr (60000, s)) ks (fold (add_action s) dns_tcp_actions mk_poller) s))"

subsection \<open>handle_udp\<close>

text \<open>
  \<open>sendto\<close>: \<open>sent\<close> is what the system call returns. \<open>recvfrom\<close> with \<open>MSG_TRUNC\<close> returns the real
  length of a datagram, of which the buffer holds the first 65536 bytes.
\<close>

definition sendto :: "int \<Rightarrow> byte list \<Rightarrow> file_desc \<Rightarrow> file_desc res" where
  "sendto sent payload fd =
     (if sent < 0 then Inl (Unix_error ''sendto'')
      else if sent \<noteq> int (length payload) then Inl (Runtime_error ''datagram payload too big for sendto()'')
      else Inr (register_write fd))"

definition recvfrom :: "('a \<times> byte list) option \<Rightarrow> file_desc \<Rightarrow> (('a \<times> byte list) \<times> file_desc) res" where
  "recvfrom datagram' fd =
     (case datagram' of
        None \<Rightarrow> Inl (Unix_error ''recvfrom'')
      | Some (addr, payload) \<Rightarrow>
          if 65536 < length payload then Inl (Runtime_error ''recvfrom (oversized datagram)'')
          else Inr ((addr, payload), register_read fd))"

record 'a udp_world =
  udp_listener :: file_desc
  udp_server :: file_desc
  sendto_result :: "nat \<Rightarrow> int"
  replies :: "('a \<times> byte list) list"

definition udp_actions :: "'a \<Rightarrow> 'a udp_world action list" where
  "udp_actions addr =
     [mk_action udp_server In
        (\<lambda>s. res_bind (fd_read BUFFER_SIZE (udp_server s)) (\<lambda>(payload, fd).
             res_bind (sendto (sendto_result s (length payload)) payload (udp_listener s)) (\<lambda>l.
               Inr (Continue, s\<lparr>udp_server := fd, udp_listener := l, replies := replies s @ [(addr, payload)]\<rparr>))))
        (\<lambda>s. True)]"

definition udp_thread :: "(pollfd list \<Rightarrow> int \<Rightarrow> int \<times> u16 list) \<Rightarrow> 'a \<times> byte list \<Rightarrow> 'a udp_world \<Rightarrow> 'a udp_world res" where
  "udp_thread k request s =
     res_bind (write_all (snd request) (udp_server s)) (\<lambda>fd.
       let s1 = s\<lparr>udp_server := fd\<rparr> in
       res_bind (poll k 60000 (fold (add_action s1) (udp_actions (fst request)) mk_poller) s1)
         (\<lambda>(r, po, s2). Inr s2))"

definition handle_udp :: "(pollfd list \<Rightarrow> int \<Rightarrow> int \<times> u16 list) \<Rightarrow> ('a \<times> byte list) option \<Rightarrow> 'a udp_world \<Rightarrow> 'a udp_world res" where
  "handle_udp k datagram' s =
     res_bind (recvfrom datagram' (udp_listener s)) (\<lambda>(request, l). udp_thread k request (s\<lparr>udp_listener := l\<rparr>))"

section \<open>The relay\<close>

definition dns_inv :: "dns_world \<Rightarrow> bool" where
  "dns_inv s \<longleftrightarrow> bs_inv (from_client s) \<and> bs_inv (from_server s) \<and>
     concat (fd_sent (dns_server s)) @ stream (from_client s) = concat (fd_got (client s)) \<and>
     concat (fd_sent (client s)) @ stream (from_server s) = concat (fd_got (dns_server s))"

definition dns_enabled :: "nat \<Rightarrow> dns_world \<Rightarrow> bool" where
  "dns_enabled i s =
     ([space_available (from_server s), space_available (from_client s),
       non_empty (from_client s), non_empty (from_server s)] ! i)"

text \<open>The errors that are not the fault of the program: those of the system calls and a busy wait.\<close>

definition from_outside :: "error \<Rightarrow> bool" where
  "from_outside err \<longleftrightarrow> err \<noteq> Assertion_failed \<and> err \<noteq> Out_of_range \<and> err \<noteq> Runtime_error ''nothing to write''"

lemma fd_read_error: "fd_read n fd = Inl err \<Longrightarrow> from_outside err"
  by (auto simp: fd_read_def from_outside_def Let_def split: option.splits if_splits)

lemma write_some_error: "write_some s fd = Inl err \<Longrightarrow> s \<noteq> [] \<Longrightarrow> from_outside err"
  by (auto simp: write_some_def from_outside_def Let_def split: if_splits)

lemma push_error:
  assumes "bs_inv q" and "space_available q" and "bs_push fd q = Inl err"
  shows "from_outside err"
proof (cases "fd_read (unat (push_space q)) fd")
  case (Inl e)
  then show ?thesis using push_fails [OF assms(1,2) Inl] assms(3) fd_read_error by simp
next
  case (Inr x)
  then show ?thesis using push_refines [OF assms(1,2), of fd "fst x" "snd x"] assms(3) by auto
qed

text \<open>A push leaves what was sent alone, a pop what was received.\<close>

lemma push_fd:
  assumes "bs_push fd q = Inr (r, fd', q')"
  shows "fd_sent fd' = fd_sent fd \<and> fd_num fd' = fd_num fd"
proof -
  obtain n chunk where "fd_read n fd = Inr (chunk, fd')"
    using assms by (auto simp: bs_push_def asserting_def Let_def split: if_splits)
  from fd_read_Inr(4,6) [OF this] show ?thesis by simp
qed

lemma pop_fd:
  assumes "bs_pop fd q = Inr (fd', q')"
  shows "fd_got fd' = fd_got fd \<and> fd_num fd' = fd_num fd"
proof -
  obtain s rest where "write_some s fd = Inr (rest, fd')"
    using assms by (auto simp: bs_pop_def asserting_def Let_def split: if_splits)
  from write_some_Inr(2,5) [OF this] show ?thesis by simp
qed

lemma pop_error:
  assumes "bs_inv q" and "non_empty q" and "bs_pop fd q = Inl err"
  shows "from_outside err"
proof -
  have "stream q \<noteq> []" using assms non_empty_iff by blast
  from pop_refines [OF assms(1) this, of fd] obtain s where "s \<noteq> []" "case write_some s fd of
        Inl err \<Rightarrow> bs_pop fd q = Inl err
      | Inr (rest, fd1) \<Rightarrow> \<exists>q'. bs_pop fd q = Inr (fd1, q') \<and> bs_inv q' \<and> stream q' = drop (length s - length rest) (stream q) \<and>
          length (buffer q') = length (buffer q)" by blast
  with assms(3) show ?thesis by (cases "write_some s fd") (auto dest: write_some_error)
qed

lemma four_cases: "i < 4 \<longleftrightarrow> i = 0 \<or> i = 1 \<or> i = 2 \<or> i = (3 :: nat)"
  by auto

lemmas dns_simps = dns_tcp_actions_def mk_action_def dns_enabled_def numeral_2_eq_2 numeral_3_eq_3

text \<open>The four callbacks, one by one.\<close>

lemma dns_push_server:
  assumes "dns_inv s" and "bs_push (dns_server s) (from_server s) = Inr (r, fd, q)"
  shows "dns_inv (s\<lparr>dns_server := fd, from_server := q\<rparr>)"
  using assms(1) push_law [OF _ assms(2)] push_fd [OF assms(2)] by (auto simp: dns_inv_def simp flip: append_assoc)

lemma dns_push_client:
  assumes "dns_inv s" and "bs_push (client s) (from_client s) = Inr (r, fd, q)"
  shows "dns_inv (s\<lparr>client := fd, from_client := q\<rparr>)"
  using assms(1) push_law [OF _ assms(2)] push_fd [OF assms(2)] by (auto simp: dns_inv_def simp flip: append_assoc)

lemma dns_pop_server:
  assumes "dns_inv s" and "bs_pop (dns_server s) (from_client s) = Inr (fd, q)"
  shows "dns_inv (s\<lparr>dns_server := fd, from_client := q\<rparr>)"
  using assms(1) pop_law [OF _ assms(2)] pop_fd [OF assms(2)] by (auto simp: dns_inv_def)

lemma dns_pop_client:
  assumes "dns_inv s" and "bs_pop (client s) (from_server s) = Inr (fd, q)"
  shows "dns_inv (s\<lparr>client := fd, from_server := q\<rparr>)"
  using assms(1) pop_law [OF _ assms(2)] pop_fd [OF assms(2)] by (auto simp: dns_inv_def)

lemma push_non_empty:
  assumes "bs_inv q" and "non_empty q" and "bs_push fd q = Inr (r, fd', q')"
  shows "non_empty q'"
  using push_law [OF assms(1,3)] assms(1,2) non_empty_iff by auto

interpretation dns: handlers dns_tcp_actions dns_inv dns_enabled from_outside
proof (unfold_locales, goal_cases)
  case (1 i s)
  then show ?case by (auto simp: dns_simps less_Suc_eq)
next
  case (2 i s r s')
  have "i = 0 \<or> i = 1 \<or> i = 2 \<or> i = 3" using 2(1) by (auto simp: dns_tcp_actions_def)
  then show ?case using 2(2,4)
    by (elim disjE) (auto simp: dns_simps dns_push_server dns_push_client dns_pop_server dns_pop_client dest: push_fd pop_fd)
next
  case (3 i s err)
  have "i = 0 \<or> i = 1 \<or> i = 2 \<or> i = 3" using 3(1) by (auto simp: dns_tcp_actions_def)
  then show ?case using 3(2,3,4)
    by (elim disjE) (auto simp: dns_simps dns_inv_def res_bind_def dest: push_error pop_error split: sum.splits)
next
  case (4 i j s r s')
  have "i = 0 \<or> i = 1 \<or> i = 2" and "j = 1 \<or> j = 2 \<or> j = 3" using 4(1,2) by (auto simp: dns_tcp_actions_def)
  then show ?case using 4(1,3,4,5,6)
    by (elim disjE) (auto simp: dns_simps dns_inv_def intro: push_non_empty)
qed (auto simp: from_outside_def busy_wait_def)

section \<open>Properties\<close>

lemma mk_bytestream_fresh:
  assumes "1 < n" and "n < 2 ^ 62"
  shows "\<exists>q. mk_bytestream n = Inr q \<and> bs_inv q \<and> stream q = []"
  using assms by (auto simp: mk_bytestream_def asserting_def bs_inv_def stream_def ring_def)

text \<open>
  C31: The TCP half of the DNS proxy relays faithfully: over any number of polls, whatever the system
  calls answer, the bytes given to the server are those the client has sent, in order, except for a
  rest that is still in the buffer, and the other way round. If the thread throws, the exception
  comes from a system call or the busy-wait check: no assertion of the ring buffers or the poller
  can fail, although a buffer's guards are checked before other handlers run.
\<close>

theorem dns_tcp_relays:
  assumes "list_all honest ks" and "fd_got server = []" "fd_sent server = []" "fd_got cl = []" "fd_sent cl = []"
  shows "case handle_tcp ks server cl of
       Inl err \<Rightarrow> err \<noteq> Assertion_failed \<and> err \<noteq> Out_of_range
     | Inr (x, po, s) \<Rightarrow>
         concat (fd_sent (dns_server s)) @ stream (from_client s) = concat (fd_got (client s)) \<and>
         concat (fd_sent (client s)) @ stream (from_server s) = concat (fd_got (dns_server s))"
proof -
  obtain q where q: "mk_bytestream dns_buffer_size = Inr q" "bs_inv q" "stream q = []"
    using mk_bytestream_fresh [of dns_buffer_size] by (auto simp: dns_buffer_size_def)
  let ?s = "\<lparr>dns_server = server, client = cl, from_client = q, from_server = q\<rparr>"
  let ?po = "fold (add_action ?s) dns_tcp_actions mk_poller"
  have po: "poller_ok ?po ?s" "actions ?po = dns_tcp_actions"
    using poller_ok_fold [OF poller_ok_empty, of ?s dns_tcp_actions] by (simp_all add: mk_poller_def)
  have "dns_inv ?s" using q assms by (simp add: dns_inv_def)
  moreover have "dns.waits (\<lambda>s. Inr (60000, s))" by (simp add: dns.waits_def)
  ultimately have "case poll_loop (\<lambda>s. Inr (60000, s)) ks ?po ?s of Inl err \<Rightarrow> from_outside err | Inr (x, po', s') \<Rightarrow> dns_inv s'"
    using dns.loop_keeps [of _ ks ?po ?s] assms(1) po by (simp add: list_all2_refl)
  moreover have "handle_tcp ks server cl = poll_loop (\<lambda>s. Inr (60000, s)) ks ?po ?s" using q(1) by (simp add: handle_tcp_def Let_def)
  ultimately show ?thesis by (auto simp: from_outside_def dns_inv_def split: sum.splits)
qed

theorem dns_tcp_relays_witness:
  "case handle_tcp [\<lambda>ps t. (int (length ps), map events ps)] sample_fd sample_input of
       Inl err \<Rightarrow> err \<noteq> Assertion_failed \<and> err \<noteq> Out_of_range
     | Inr (x, po, s) \<Rightarrow>
         concat (fd_sent (dns_server s)) @ stream (from_client s) = concat (fd_got (client s)) \<and>
         concat (fd_sent (client s)) @ stream (from_server s) = concat (fd_got (dns_server s))"
  by (rule dns_tcp_relays) (simp_all add: honest_def sample_input_def sample_fd_def)

lemma udp_thread_replies:
  assumes "udp_thread k request s = Inr s'"
  shows "\<exists>xs. fd_sent (udp_server s') = fd_sent (udp_server s) @ xs \<and> concat xs = snd request \<and>
     (replies s' = replies s \<and> fd_got (udp_server s') = fd_got (udp_server s) \<or>
      (\<exists>reply. replies s' = replies s @ [(fst request, reply)] \<and> fd_got (udp_server s') = fd_got (udp_server s) @ [reply]))"
proof -
  obtain fd where w: "write_all (snd request) (udp_server s) = Inr fd"
    using assms by (auto simp: udp_thread_def)
  obtain xs where xs: "fd_sent fd = fd_sent (udp_server s) @ xs" "concat xs = snd request" "fd_got fd = fd_got (udp_server s)"
    using write_all_sent [OF w] by blast
  let ?s = "s\<lparr>udp_server := fd\<rparr>"
  let ?po = "fold (add_action ?s) (udp_actions (fst request)) mk_poller"
  have po: "poller_ok ?po ?s" "actions ?po = udp_actions (fst request)"
    using poller_ok_fold [OF poller_ok_empty, of ?s "udp_actions (fst request)"] by (simp_all add: mk_poller_def)
  obtain r po' where p: "poll k 60000 ?po ?s = Inr (r, po', s')" using assms w by (auto simp: udp_thread_def Let_def)
  have reply: "\<exists>reply. fd_sent (udp_server x') = fd_sent (udp_server x) \<and> replies x' = replies x @ [(fst request, reply)] \<and>
      fd_got (udp_server x') = fd_got (udp_server x) @ [reply]"
    if "callback (hd (udp_actions (fst request))) x = Inr (r, x')" for x r x'
    using that by (auto simp: udp_actions_def mk_action_def dest: fd_read_Inr(2,4))
  from poll_serves [OF p po(1)] show ?thesis
  proof (elim disjE exE conjE)
    fix ps assume len: "length ps = length (actions ?po)" and sv: "service ps (actions ?po) ?s = Inr (r, actions po', s')"
    have one: "udp_actions (fst request) = [hd (udp_actions (fst request))]" by (simp add: udp_actions_def)
    have "length ps = 1" unfolding len po(2) by (simp add: udp_actions_def)
    then obtain q where ps: "ps = [q]" by (cases ps) auto
    have "service (q # []) (hd (udp_actions (fst request)) # []) ?s = Inr (r, actions po', s')"
      using sv unfolding po(2) ps by (subst (asm) one)
    then show ?thesis
    proof (cases rule: service_ConsE)
      case (exit status)
      then show ?thesis using xs reply [OF exit(2)] by auto
    next
      case (serve r' s1 a1 as1)
      then show ?thesis using xs reply [OF serve(2)] by auto
    qed (use xs in auto)
  qed (use xs in auto)
qed

text \<open>
  The UDP half: a request is sent to the server as it came, at most one reply is sent back, to
  the address the request came from, and it is what the server answered.
\<close>

lemma dns_udp_replies:
  assumes "handle_udp k (Some (addr, payload)) s = Inr s'"
  shows "\<exists>xs. fd_sent (udp_server s') = fd_sent (udp_server s) @ xs \<and> concat xs = payload \<and>
     (replies s' = replies s \<and> fd_got (udp_server s') = fd_got (udp_server s) \<or>
      (\<exists>reply. replies s' = replies s @ [(addr, reply)] \<and> fd_got (udp_server s') = fd_got (udp_server s) @ [reply]))"
proof -
  obtain l where "udp_thread k (addr, payload) (s\<lparr>udp_listener := l\<rparr>) = Inr s'"
    using assms by (auto simp: handle_udp_def recvfrom_def split: if_splits)
  from udp_thread_replies [OF this] show ?thesis by simp
qed

end
