(* ===== verification/Chunked_Parser.thy ===== *)
theory Chunked_Parser
  imports Mahimahi_Prelude
begin

text \<open>
  The body parsers of src/src/http/body_parser.hh and src/src/http/chunked_parser.{hh,cc}. A read
  returns \<open>Some n\<close> when the first \<open>n\<close> bytes of the input end the body and \<open>None\<close> (\<open>string::npos\<close>) when all
  of it belongs to the body. The chunk size is a \<open>uint32_t\<close>, so \<open>current_chunk_size_ + 2\<close> wraps; the
  two totals, of bytes parsed and acknowledged, are natural numbers.

  \<open>scan\<close> is the parser without its bookkeeping of acknowledged bytes. The lemmas show that it does
  not matter how the body is cut into reads, and that it finds the end of every encoded body.
\<close>

section \<open>Model\<close>

datatype chunk_state = CHUNK_HDR | CHUNK | TRAILER

record chunked_parser =
  parser_buffer :: string
  current_chunk_size :: u32
  acked_so_far :: nat
  parsed_so_far :: nat
  chunk_state :: chunk_state
  trailers_enabled :: bool

definition mk_chunked_parser :: "bool \<Rightarrow> chunked_parser" where
  "mk_chunked_parser t =
     \<lparr>parser_buffer = [], current_chunk_size = 0, acked_so_far = 0, parsed_so_far = 0, chunk_state = CHUNK_HDR,
      trailers_enabled = t\<rparr>"

definition get_chunk_size :: "string \<Rightarrow> u32 res" where
  "get_chunk_size chunk_hdr =
     (if length chunk_hdr < 2 then Inl Out_of_range
      else
        asserting (take 2 (drop (length chunk_hdr - 2) chunk_hdr) = CRLF)
          (let pos = (case find_str '';'' chunk_hdr of None \<Rightarrow> find_str CRLF chunk_hdr | Some i \<Rightarrow> Some i) in
           case pos of
             None \<Rightarrow> Inl Assertion_failed
           | Some i \<Rightarrow>
               let hex_string = take i chunk_hdr;
                   hex = (case find_str '' '' hex_string of None \<Rightarrow> hex_string | Some j \<Rightarrow> take j hex_string)
               in res_bind (myatoi 16 hex) (\<lambda>v. Inr (of_int v))))"

definition acknowledge :: "nat \<Rightarrow> chunked_parser \<Rightarrow> chunked_parser" where
  "acknowledge n q = q\<lparr>acked_so_far := acked_so_far q + n\<rparr>"

definition compute_ack_size :: "string \<Rightarrow> string \<Rightarrow> nat \<Rightarrow> chunked_parser \<Rightarrow> (nat option \<times> chunked_parser) res" where
  "compute_ack_size haystack needle input_size q =
     (case find_str needle haystack of
        Some loc \<Rightarrow>
          let p = parsed_so_far q + loc + length needle
          in asserting (acked_so_far q < p) (Inr (Some (p - acked_so_far q), q\<lparr>parsed_so_far := p\<rparr>))
      | None \<Rightarrow> Inr (None, acknowledge input_size q))"

text \<open>The step from a chunk header to what follows it, and from a chunk to the next header.\<close>

definition enter_chunk :: "nat \<Rightarrow> u32 \<Rightarrow> chunked_parser \<Rightarrow> chunked_parser" where
  "enter_chunk it sz q =
     q\<lparr>current_chunk_size := sz, chunk_state := (if sz = 0 then TRAILER else CHUNK),
       parsed_so_far := parsed_so_far q + (it + 2), parser_buffer := drop (it + 2) (parser_buffer q)\<rparr>"

definition leave_chunk :: "chunked_parser \<Rightarrow> chunked_parser" where
  "leave_chunk q =
     q\<lparr>chunk_state := CHUNK_HDR, parsed_so_far := parsed_so_far q + unat (current_chunk_size q + 2),
       parser_buffer := drop (unat (current_chunk_size q + 2)) (parser_buffer q)\<rparr>"

definition trailer_end :: "chunked_parser \<Rightarrow> string" where
  "trailer_end q = (if trailers_enabled q then CRLF @ CRLF else CRLF)"

lemma find_str_bound: "find_str needle s = Some i \<Longrightarrow> i + length needle \<le> length s"
  using find_str_Some [of needle s i] by blast

lemma chunk_step_acked [simp]:
  "acked_so_far (enter_chunk it sz q) = acked_so_far q" "acked_so_far (leave_chunk q) = acked_so_far q"
  by (simp_all add: enter_chunk_def leave_chunk_def)

definition chunk_rank :: "chunked_parser \<Rightarrow> nat" where
  "chunk_rank q = 2 * length (parser_buffer q) + (if chunk_state q = CHUNK then 1 else 0)"

lemma enter_chunk_rank: "find_str CRLF (parser_buffer q) = Some it \<Longrightarrow> chunk_state q = CHUNK_HDR \<Longrightarrow> chunk_rank (enter_chunk it sz q) < chunk_rank q"
  by (drule find_str_bound) (auto simp: chunk_rank_def enter_chunk_def CRLF_def)

lemma leave_chunk_rank: "chunk_state q = CHUNK \<Longrightarrow> chunk_rank (leave_chunk q) < chunk_rank q"
  by (simp add: chunk_rank_def leave_chunk_def)

function chunk_loop :: "nat \<Rightarrow> chunked_parser \<Rightarrow> (nat option \<times> chunked_parser) res" where
  "chunk_loop n q =
     (if parser_buffer q = [] then Inr (None, acknowledge n q)
      else
        case chunk_state q of
          CHUNK_HDR \<Rightarrow>
            (case find_str CRLF (parser_buffer q) of
               Some it \<Rightarrow>
                 res_bind (get_chunk_size (take (it + 2) (parser_buffer q))) (\<lambda>sz. chunk_loop n (enter_chunk it sz q))
             | None \<Rightarrow> Inr (None, acknowledge n q))
        | CHUNK \<Rightarrow>
            (if unat (current_chunk_size q + 2) \<le> length (parser_buffer q) then
               (if length (parser_buffer q) < unat (current_chunk_size q) then Inl Out_of_range
                else
                  asserting (take 2 (drop (unat (current_chunk_size q)) (parser_buffer q)) = CRLF)
                    (chunk_loop n (leave_chunk q)))
             else Inr (None, acknowledge n q))
        | TRAILER \<Rightarrow> compute_ack_size (parser_buffer q) (trailer_end q) n q)"
  by pat_completeness auto
termination
  by (relation "measure (\<lambda>(n, q). chunk_rank q)") (auto simp: enter_chunk_rank leave_chunk_rank)

declare chunk_loop.simps [simp del]

definition chunked_read :: "string \<Rightarrow> chunked_parser \<Rightarrow> (nat option \<times> chunked_parser) res" where
  "chunked_read input_buffer q = chunk_loop (length input_buffer) (q\<lparr>parser_buffer := parser_buffer q @ input_buffer\<rparr>)"

text \<open>\<open>BodyParser\<close>: the chunked parser, and the parser of bodies that only the end of the file ends.\<close>

datatype body_parser = Rule5BodyParser | ChunkedBodyParser chunked_parser

definition body_read :: "string \<Rightarrow> body_parser \<Rightarrow> (nat option \<times> body_parser) res" where
  "body_read str bp =
     (case bp of
        Rule5BodyParser \<Rightarrow> Inr (None, bp)
      | ChunkedBodyParser q \<Rightarrow> res_bind (chunked_read str q) (\<lambda>(r, q'). Inr (r, ChunkedBodyParser q')))"

definition body_eof :: "body_parser \<Rightarrow> bool" where
  "body_eof bp = True"

section \<open>The parser without acknowledgements\<close>

function scan :: "chunked_parser \<Rightarrow> (nat option \<times> chunked_parser) res" where
  "scan q =
     (if parser_buffer q = [] then Inr (None, q)
      else
        case chunk_state q of
          CHUNK_HDR \<Rightarrow>
            (case find_str CRLF (parser_buffer q) of
               Some it \<Rightarrow> res_bind (get_chunk_size (take (it + 2) (parser_buffer q))) (\<lambda>sz. scan (enter_chunk it sz q))
             | None \<Rightarrow> Inr (None, q))
        | CHUNK \<Rightarrow>
            (if unat (current_chunk_size q + 2) \<le> length (parser_buffer q) then
               (if length (parser_buffer q) < unat (current_chunk_size q) then Inl Out_of_range
                else
                  asserting (take 2 (drop (unat (current_chunk_size q)) (parser_buffer q)) = CRLF) (scan (leave_chunk q)))
             else Inr (None, q))
        | TRAILER \<Rightarrow>
            (case find_str (trailer_end q) (parser_buffer q) of
               Some loc \<Rightarrow>
                 let p = parsed_so_far q + loc + length (trailer_end q) in Inr (Some p, q\<lparr>parsed_so_far := p\<rparr>)
             | None \<Rightarrow> Inr (None, q)))"
  by pat_completeness auto
termination
  by (relation "measure chunk_rank") (auto simp: enter_chunk_rank leave_chunk_rank)

declare scan.simps [simp del]

text \<open>\<open>answer n a\<close> turns the outcome of a scan into that of a read of \<open>n\<close> bytes after \<open>a\<close> bytes were acknowledged.\<close>

definition answer :: "nat \<Rightarrow> nat \<Rightarrow> nat option \<times> chunked_parser \<Rightarrow> (nat option \<times> chunked_parser) res" where
  "answer n a r =
     (case fst r of
        None \<Rightarrow> Inr (None, acknowledge n (snd r))
      | Some p \<Rightarrow> asserting (a < p) (Inr (Some (p - a), snd r)))"

lemma answer_None [simp]: "answer n a (None, q) = Inr (None, acknowledge n q)"
  by (simp add: answer_def)

lemma chunk_loop_scan: "chunk_loop n q = res_bind (scan q) (answer n (acked_so_far q))"
proof (induction q rule: scan.induct)
  case (1 q)
  show ?case
  proof (cases "parser_buffer q = []")
    case True
    then show ?thesis by (simp add: chunk_loop.simps [of n q] scan.simps [of q] answer_def)
  next
    case ne: False
    show ?thesis
    proof (cases "chunk_state q")
      case CHUNK_HDR
      show ?thesis
      proof (cases "find_str CRLF (parser_buffer q)")
        case None
        then show ?thesis using ne CHUNK_HDR by (simp add: chunk_loop.simps [of n q] scan.simps [of q] answer_def)
      next
        case (Some it)
        then show ?thesis using ne CHUNK_HDR "1.IH"(1) [OF ne CHUNK_HDR Some]
          by (cases "get_chunk_size (take (it + 2) (parser_buffer q))") (simp_all add: chunk_loop.simps [of n q] scan.simps [of q])
      qed
    next
      case CHUNK
      show ?thesis
        using ne CHUNK "1.IH"(2) [OF ne CHUNK]
        by (simp add: chunk_loop.simps [of n q] scan.simps [of q] asserting_def)
    next
      case TRAILER
      then show ?thesis using ne
        by (simp add: chunk_loop.simps [of n q] scan.simps [of q] answer_def compute_ack_size_def Let_def split: option.split)
    qed
  qed
qed

section \<open>Cutting the input\<close>

definition feed :: "string \<Rightarrow> chunked_parser \<Rightarrow> chunked_parser" where
  "feed y q = q\<lparr>parser_buffer := parser_buffer q @ y\<rparr>"

lemma feed_simps [simp]:
  "parser_buffer (feed y q) = parser_buffer q @ y" "chunk_state (feed y q) = chunk_state q"
  "current_chunk_size (feed y q) = current_chunk_size q" "parsed_so_far (feed y q) = parsed_so_far q"
  "acked_so_far (feed y q) = acked_so_far q" "trailer_end (feed y q) = trailer_end q"
  by (simp_all add: feed_def trailer_end_def)

lemma chunked_read_scan: "chunked_read x q = res_bind (scan (feed x q)) (answer (length x) (acked_so_far q))"
  by (simp add: chunked_read_def chunk_loop_scan feed_def)

lemma find_str_mono: "find_str needle s = Some i \<Longrightarrow> find_str needle (s @ y) = Some i"
proof (induction needle s arbitrary: i rule: find_str.induct)
  case (1 needle)
  then show ?case by (cases y) (auto split: if_splits)
next
  case (2 needle x xs)
  show ?case
  proof (cases "prefix needle (x # xs)")
    case True
    then have "prefix needle (x # xs @ y)" by (metis append_Cons prefix_append)
    then show ?thesis using 2 True by simp
  next
    case False
    then obtain j where j: "find_str needle xs = Some j" "i = Suc j" using "2.prems" by auto
    have "i + length needle \<le> length (x # xs)" using find_str_bound [OF "2.prems"] .
    then have "length needle \<le> length (x # xs)" by simp
    then have "\<not> prefix needle ((x # xs) @ y)" using False by (meson prefix_length_prefix prefixI)
    then show ?thesis using "2.IH" [OF False j(1)] j by simp
  qed
qed

lemma find_str_new:
  assumes "find_str needle b = None" and "find_str needle (b @ y) = Some i"
  shows "length b < i + length needle"
proof (rule ccontr)
  assume a: "\<not> length b < i + length needle"
  have "needle = take (length needle) (drop i (b @ y))" using find_str_Some [OF assms(2)] by metis
  also have "\<dots> = take (length needle) (drop i b)" using a by simp
  finally have "prefix needle (drop i b)" by (metis take_is_prefix)
  then show False using find_str_None [OF assms(1)] by blast
qed

lemma enter_chunk_feed:
  "find_str CRLF (parser_buffer q) = Some it \<Longrightarrow> enter_chunk it sz (feed y q) = feed y (enter_chunk it sz q)"
  by (drule find_str_bound) (simp add: enter_chunk_def feed_def CRLF_def)

lemma leave_chunk_feed:
  "unat (current_chunk_size q + 2) \<le> length (parser_buffer q) \<Longrightarrow> leave_chunk (feed y q) = feed y (leave_chunk q)"
  by (simp add: leave_chunk_def feed_def)

text \<open>The states in which the parser waits for more input, and the ways a scan can go.\<close>

definition stuck :: "chunked_parser \<Rightarrow> bool" where
  "stuck q \<longleftrightarrow>
     parser_buffer q = [] \<or> chunk_state q = CHUNK_HDR \<and> find_str CRLF (parser_buffer q) = None \<or>
     chunk_state q = CHUNK \<and> length (parser_buffer q) < unat (current_chunk_size q + 2) \<or>
     chunk_state q = TRAILER \<and> find_str (trailer_end q) (parser_buffer q) = None"

lemma scan_cases:
  assumes "scan q = Inr r"
  obtains (stop) "r = (None, q)" "stuck q"
  | (header) it sz where "chunk_state q = CHUNK_HDR" "find_str CRLF (parser_buffer q) = Some it"
      "get_chunk_size (take (it + 2) (parser_buffer q)) = Inr sz" "scan (enter_chunk it sz q) = Inr r"
  | (chunk) "chunk_state q = CHUNK" "unat (current_chunk_size q + 2) \<le> length (parser_buffer q)"
      "take 2 (drop (unat (current_chunk_size q)) (parser_buffer q)) = CRLF" "scan (leave_chunk q) = Inr r"
  | (done') loc where "chunk_state q = TRAILER" "find_str (trailer_end q) (parser_buffer q) = Some loc"
      "r = (Some (parsed_so_far q + loc + length (trailer_end q)), q\<lparr>parsed_so_far := parsed_so_far q + loc + length (trailer_end q)\<rparr>)"
  using assms
  by (subst (asm) scan.simps)
     (auto simp: Let_def stuck_def split: if_splits chunk_state.splits option.splits)

lemma scan_headerI:
  "chunk_state q = CHUNK_HDR \<Longrightarrow> find_str CRLF (parser_buffer q) = Some it \<Longrightarrow>
     scan q = res_bind (get_chunk_size (take (it + 2) (parser_buffer q))) (\<lambda>sz. scan (enter_chunk it sz q))"
  by (subst scan.simps) (auto simp: CRLF_def)

lemma scan_chunkI:
  assumes "chunk_state q = CHUNK" and "unat (current_chunk_size q + 2) \<le> length (parser_buffer q)"
    and "take 2 (drop (unat (current_chunk_size q)) (parser_buffer q)) = CRLF"
  shows "scan q = scan (leave_chunk q)"
proof -
  have "unat (current_chunk_size q) + 2 \<le> length (parser_buffer q)"
    using arg_cong [where f = length, OF assms(3)] by (auto simp: CRLF_def)
  then show ?thesis using assms by (subst scan.simps) auto
qed

lemma scan_trailerI:
  "chunk_state q = TRAILER \<Longrightarrow> find_str (trailer_end q) (parser_buffer q) = Some loc \<Longrightarrow>
     scan q = Inr (Some (parsed_so_far q + loc + length (trailer_end q)), q\<lparr>parsed_so_far := parsed_so_far q + loc + length (trailer_end q)\<rparr>)"
  by (subst scan.simps) (auto simp: Let_def trailer_end_def CRLF_def split: if_splits)

lemma chunk_end_length: "take 2 (drop k b) = CRLF \<Longrightarrow> k + 2 \<le> length b"
  by (drule arg_cong [where f = length]) (auto simp: CRLF_def)

lemma chunk_end_append: "take 2 (drop k b) = CRLF \<Longrightarrow> take 2 (drop k (b @ y)) = CRLF"
  using chunk_end_length [of k b] by simp

text \<open>More input does not change what a scan has done: it goes on from where it stopped, or has found the end.\<close>

lemma scan_feed:
  "scan q = Inr (r, q1) \<Longrightarrow> scan (feed y q) = (case r of None \<Rightarrow> scan (feed y q1) | Some p \<Rightarrow> Inr (Some p, feed y q1))"
proof (induction q arbitrary: r q1 rule: scan.induct)
  case (1 q)
  from "1.prems" show ?case
  proof (cases rule: scan_cases)
    case (header it sz)
    have b: "it + 2 \<le> length (parser_buffer q)" using find_str_bound [OF header(2)] by (simp add: CRLF_def)
    have "scan (feed y q) = scan (feed y (enter_chunk it sz q))"
      using header b by (subst scan_headerI [of _ it]) (simp_all add: find_str_mono enter_chunk_feed)
    also have "\<dots> = (case r of None \<Rightarrow> scan (feed y q1) | Some p \<Rightarrow> Inr (Some p, feed y q1))"
      using header b by (intro "1.IH"(1)) auto
    finally show ?thesis .
  next
    case chunk
    have ne: "parser_buffer q \<noteq> []" using chunk(3) by (auto simp: CRLF_def)
    have "scan (feed y q) = scan (feed y (leave_chunk q))"
      using chunk chunk_end_length [OF chunk(3)] by (subst scan_chunkI) (simp_all add: leave_chunk_feed)
    also have "\<dots> = (case r of None \<Rightarrow> scan (feed y q1) | Some p \<Rightarrow> Inr (Some p, feed y q1))"
    proof (rule "1.IH"(2))
      show "\<not> length (parser_buffer q) < unat (current_chunk_size q)"
        using chunk(3) by (auto simp: CRLF_def)
    qed (use ne chunk in auto)
    finally show ?thesis .
  next
    case (done' loc)
    have "feed y (q\<lparr>parsed_so_far := p\<rparr>) = (feed y q)\<lparr>parsed_so_far := p\<rparr>" for p by (simp add: feed_def)
    then show ?thesis using done' by (subst scan_trailerI [of _ loc]) (simp_all add: find_str_mono)
  qed simp
qed

lemma scan_accounts:
  "scan q = Inr (None, q1) \<Longrightarrow> parsed_so_far q1 + length (parser_buffer q1) = parsed_so_far q + length (parser_buffer q) \<and>
     acked_so_far q1 = acked_so_far q"
proof (induction q rule: scan.induct)
  case (1 q)
  from "1.prems" show ?case
  proof (cases rule: scan_cases)
    case (header it sz)
    have b: "it + 2 \<le> length (parser_buffer q)" using find_str_bound [OF header(2)] by (simp add: CRLF_def)
    then have "parser_buffer q \<noteq> []" by auto
    from "1.IH"(1) [OF this header(1,2,3,4)] b show ?thesis by (simp add: enter_chunk_def)
  next
    case chunk
    have ne: "parser_buffer q \<noteq> []" "\<not> length (parser_buffer q) < unat (current_chunk_size q)" using chunk(3) by (auto simp: CRLF_def)
    from "1.IH"(2) [OF ne(1) chunk(1,2) ne(2) chunk(3,4)] chunk(2) show ?thesis by (simp add: leave_chunk_def)
  qed simp_all
qed

lemma scan_end_after: "scan q = Inr (Some p, q1) \<Longrightarrow> parsed_so_far q < p"
proof (induction q rule: scan.induct)
  case (1 q)
  from "1.prems" show ?case
  proof (cases rule: scan_cases)
    case (header it sz)
    then have "parser_buffer q \<noteq> []" by (auto simp: CRLF_def)
    from "1.IH"(1) [OF this header(1,2,3,4)] show ?thesis by (simp add: enter_chunk_def)
  next
    case chunk
    have ne: "parser_buffer q \<noteq> []" "\<not> length (parser_buffer q) < unat (current_chunk_size q)" using chunk(3) by (auto simp: CRLF_def)
    from "1.IH"(2) [OF ne(1) chunk(1,2) ne(2) chunk(3,4)] show ?thesis by (simp add: leave_chunk_def)
  next
    case (done' loc)
    then show ?thesis by (simp add: trailer_end_def CRLF_def split: if_splits)
  qed simp
qed

text \<open>The end that more input brings lies in the new input.\<close>

lemma scan_stuck: "scan q = Inr (None, q1) \<Longrightarrow> stuck q1"
proof (induction q rule: scan.induct)
  case (1 q)
  from "1.prems" show ?case
  proof (cases rule: scan_cases)
    case (header it sz)
    then have "parser_buffer q \<noteq> []" by (auto simp: CRLF_def)
    from "1.IH"(1) [OF this header] show ?thesis .
  next
    case chunk
    have ne: "parser_buffer q \<noteq> []" "\<not> length (parser_buffer q) < unat (current_chunk_size q)"
      using chunk_end_length [OF chunk(3)] by auto
    from "1.IH"(2) [OF ne(1) chunk(1,2) ne(2) chunk(3,4)] show ?thesis .
  qed simp_all
qed

lemma scan_end_new:
  assumes "stuck q" and "scan (feed y q) = Inr (Some p, q2)"
  shows "parsed_so_far q + length (parser_buffer q) < p"
proof (cases "parser_buffer q = []")
  case True
  then show ?thesis using scan_end_after [OF assms(2)] by simp
next
  case ne: False
  from assms(2) show ?thesis
  proof (cases rule: scan_cases)
    case (header it sz)
    have "find_str CRLF (parser_buffer q) = None" using assms(1) header(1) ne by (simp add: stuck_def)
    then have "length (parser_buffer q) < it + 2" using find_str_new [of CRLF "parser_buffer q" y it] header(2) by (simp add: CRLF_def)
    with scan_end_after [OF header(4)] show ?thesis by (simp add: enter_chunk_def)
  next
    case chunk
    have "length (parser_buffer q) < unat (current_chunk_size q + 2)" using assms(1) chunk(1) ne by (simp add: stuck_def)
    with scan_end_after [OF chunk(4)] show ?thesis by (simp add: leave_chunk_def)
  next
    case (done' loc)
    have "find_str (trailer_end q) (parser_buffer q) = None" using assms(1) done'(1) ne by (simp add: stuck_def)
    then show ?thesis using find_str_new [of "trailer_end q" "parser_buffer q" y loc] done'(2,3) by simp
  qed simp
qed

section \<open>Properties\<close>

text \<open>What holds between reads: every byte received is acknowledged, and the buffer holds those not yet parsed.\<close>

definition chunk_inv :: "chunked_parser \<Rightarrow> bool" where
  "chunk_inv q \<longleftrightarrow> parsed_so_far q + length (parser_buffer q) = acked_so_far q"

lemma chunk_inv_fresh: "chunk_inv (mk_chunked_parser t)"
  by (simp add: chunk_inv_def mk_chunked_parser_def)

lemma chunked_read_None:
  assumes "chunked_read x q = Inr (None, q1)"
  obtains q0 where "scan (feed x q) = Inr (None, q0)" and "q1 = acknowledge (length x) q0"
  using assms by (auto simp: chunked_read_scan answer_def split: option.splits)

lemma chunked_read_inv:
  assumes "chunk_inv q" and "chunked_read x q = Inr (None, q1)"
  shows "chunk_inv q1"
proof -
  obtain q0 where q0: "scan (feed x q) = Inr (None, q0)" "q1 = acknowledge (length x) q0" using chunked_read_None [OF assms(2)] .
  from scan_accounts [OF q0(1)] assms(1) q0(2) show ?thesis by (simp add: chunk_inv_def acknowledge_def)
qed

lemma scan_acked:
  "scan (q\<lparr>acked_so_far := a\<rparr>) = map_sum id (\<lambda>(r, q'). (r, q'\<lparr>acked_so_far := a\<rparr>)) (scan q)"
proof (induction q rule: scan.induct)
  case (1 q)
  have e: "enter_chunk it sz (q\<lparr>acked_so_far := a\<rparr>) = (enter_chunk it sz q)\<lparr>acked_so_far := a\<rparr>" for it sz by (simp add: enter_chunk_def)
  have l: "leave_chunk (q\<lparr>acked_so_far := a\<rparr>) = (leave_chunk q)\<lparr>acked_so_far := a\<rparr>" by (simp add: leave_chunk_def)
  have t: "trailer_end (q\<lparr>acked_so_far := a\<rparr>) = trailer_end q" by (simp add: trailer_end_def)
  show ?case
  proof (cases "parser_buffer q = []")
    case True
    then show ?thesis by (simp add: scan.simps)
  next
    case ne: False
    show ?thesis
    proof (cases "chunk_state q")
      case CHUNK_HDR
      then show ?thesis using ne "1.IH"(1) [OF ne CHUNK_HDR]
        by (cases "find_str CRLF (parser_buffer q)"; cases "get_chunk_size (take (the (find_str CRLF (parser_buffer q)) + 2) (parser_buffer q))")
           (auto simp: scan.simps [of q] scan.simps [of "q\<lparr>acked_so_far := a\<rparr>"] e)
    next
      case CHUNK
      then show ?thesis using ne "1.IH"(2) [OF ne CHUNK]
        by (auto simp: scan.simps [of q] scan.simps [of "q\<lparr>acked_so_far := a\<rparr>"] l asserting_def)
    next
      case TRAILER
      then show ?thesis using ne
        by (auto simp: scan.simps [of q] scan.simps [of "q\<lparr>acked_so_far := a\<rparr>"] t Let_def split: option.split)
    qed
  qed
qed

text \<open>
  It does not matter how a chunked body is cut into reads. When a first read does not end the body,
  reading what follows has the same outcome as reading both parts at once: the same exception, the
  same state when the body still goes on, and an end at the same byte of the input.
\<close>

lemma chunked_read_incremental:
  assumes "chunk_inv q" and "chunked_read x q = Inr (None, q1)"
  shows "case chunked_read y q1 of
      Inl err \<Rightarrow> chunked_read (x @ y) q = Inl err
    | Inr (None, q2) \<Rightarrow> chunked_read (x @ y) q = Inr (None, q2)
    | Inr (Some n, q2) \<Rightarrow> \<exists>q3. chunked_read (x @ y) q = Inr (Some (length x + n), q3)"
proof -
  obtain q0 where q0: "scan (feed x q) = Inr (None, q0)" "q1 = acknowledge (length x) q0" using chunked_read_None [OF assms(2)] .
  have st: "stuck q0" and acc: "parsed_so_far q0 + length (parser_buffer q0) = acked_so_far q + length x" "acked_so_far q0 = acked_so_far q"
    using scan_stuck [OF q0(1)] scan_accounts [OF q0(1)] assms(1) by (auto simp: chunk_inv_def)
  have whole: "scan (feed (x @ y) q) = scan (feed y q0)" using scan_feed [OF q0(1), of y] by (simp add: feed_def)
  have "feed y q1 = (feed y q0)\<lparr>acked_so_far := acked_so_far q + length x\<rparr>" using q0(2) acc(2) by (simp add: feed_def acknowledge_def)
  then have part: "scan (feed y q1) = map_sum id (\<lambda>(r, q'). (r, q'\<lparr>acked_so_far := acked_so_far q + length x\<rparr>)) (scan (feed y q0))"
    using scan_acked by simp
  have a1: "acked_so_far q1 = acked_so_far q + length x" using q0(2) acc(2) by (simp add: acknowledge_def)
  show ?thesis
  proof (cases "scan (feed y q0)")
    case (Inl err)
    then show ?thesis using whole part by (simp add: chunked_read_scan)
  next
    case (Inr z)
    obtain r q' where z: "scan (feed y q0) = Inr (r, q')" using Inr by (cases z) auto
    show ?thesis
    proof (cases r)
      case None
      then have "acked_so_far q' = acked_so_far q" using scan_accounts z acc(2) by auto
      then show ?thesis using None whole part z by (simp add: chunked_read_scan acknowledge_def add.assoc)
    next
      case (Some p)
      then have "acked_so_far q + length x < p" using scan_end_new [OF st] z acc(1) by auto
      then show ?thesis using Some whole part z a1 by (simp add: chunked_read_scan answer_def)
    qed
  qed
qed

lemma scan_end_bound: "scan q = Inr (Some p, q1) \<Longrightarrow> p \<le> parsed_so_far q + length (parser_buffer q)"
proof (induction q rule: scan.induct)
  case (1 q)
  from "1.prems" show ?case
  proof (cases rule: scan_cases)
    case (header it sz)
    have b: "it + 2 \<le> length (parser_buffer q)" using find_str_bound [OF header(2)] by (simp add: CRLF_def)
    then have "parser_buffer q \<noteq> []" by auto
    from "1.IH"(1) [OF this header(1,2,3,4)] b show ?thesis by (simp add: enter_chunk_def)
  next
    case chunk
    have ne: "parser_buffer q \<noteq> []" "\<not> length (parser_buffer q) < unat (current_chunk_size q)" using chunk(3) by (auto simp: CRLF_def)
    from "1.IH"(2) [OF ne(1) chunk(1,2) ne(2) chunk(3,4)] chunk(2) show ?thesis by (simp add: leave_chunk_def)
  next
    case (done' loc)
    then show ?thesis using find_str_bound [OF done'(2)] by simp
  qed simp
qed

lemma chunked_read_Some:
  assumes "chunked_read x q = Inr (Some n, q1)"
  obtains p q0 where "scan (feed x q) = Inr (Some p, q0)" and "acked_so_far q < p" and "n = p - acked_so_far q"
  using assms by (auto simp: chunked_read_scan answer_def split: option.splits)

text \<open>An end that has been found stays where it is, and lies within the input.\<close>

lemma chunked_read_end:
  assumes "chunk_inv q" and "chunked_read x q = Inr (Some n, q1)"
  shows "n \<le> length x" and "\<exists>q2. chunked_read (x @ y) q = Inr (Some n, q2)"
proof -
  obtain p q0 where p: "scan (feed x q) = Inr (Some p, q0)" "acked_so_far q < p" "n = p - acked_so_far q"
    using chunked_read_Some [OF assms(2)] .
  from scan_end_bound [OF p(1)] p(3) assms(1) show "n \<le> length x" by (simp add: chunk_inv_def)
  have "scan (feed (x @ y) q) = Inr (Some p, feed y q0)" using scan_feed [OF p(1), of y] by (simp add: feed_def)
  then show "\<exists>q2. chunked_read (x @ y) q = Inr (Some n, q2)" using p(2,3) by (simp add: chunked_read_scan answer_def)
qed

text \<open>The encoding of a list of chunks, each nonempty and shorter than a 32-bit size can say.\<close>

definition encode_chunk :: "string \<Rightarrow> string" where
  "encode_chunk c = show_base 16 (length c) @ CRLF @ c @ CRLF"

definition encode_chunks :: "string list \<Rightarrow> string" where
  "encode_chunks cs = concat (map encode_chunk cs) @ ''0'' @ CRLF @ CRLF"

definition chunk_ok :: "string \<Rightarrow> bool" where
  "chunk_ok c \<longleftrightarrow> c \<noteq> [] \<and> length c + 2 < 2 ^ 32"

lemma get_chunk_size_show:
  assumes "n < 2 ^ 32"
  shows "get_chunk_size (show_base 16 n @ CRLF) = Inr (of_nat n)"
proof -
  have d: "is_digit_in 16 c" if "c \<in> set (show_base 16 n)" for c using show_base_digits [of 16 c n] that by simp
  have semi: "CHR '';'' \<notin> set (show_base 16 n @ CRLF)" using digit_not_special(6) [OF d] by (auto simp: CRLF_def)
  have cr: "CHR 0x0D \<notin> set (show_base 16 n)" using digit_not_special(8) [OF d] by auto
  have sp: "CHR '' '' \<notin> set (show_base 16 n)" using digit_not_special(1) [OF d] by (auto simp: isspace_def)
  have "find_str '';'' (show_base 16 n @ CRLF) = None" using semi by (intro find_str_absent) simp_all
  moreover have "find_str CRLF (show_base 16 n @ CRLF) = Some (length (show_base 16 n))"
    using find_str_skip [of CRLF "show_base 16 n" "[]"] cr by (simp add: CRLF_def)
  moreover have "find_str '' '' (show_base 16 n) = None" using sp by (intro find_str_absent) simp_all
  moreover have "myatoi 16 (show_base 16 n) = Inr (int n)" using assms by (intro myatoi_show) simp_all
  ultimately show ?thesis by (simp add: get_chunk_size_def Let_def) (simp add: CRLF_def)
qed

lemma scan_encoded_header:
  assumes "chunk_state q = CHUNK_HDR" and "parser_buffer q = show_base 16 n @ CRLF @ rest" and "n < 2 ^ 32"
  shows "scan q = scan (q\<lparr>current_chunk_size := of_nat n, chunk_state := (if (of_nat n :: u32) = 0 then TRAILER else CHUNK),
     parsed_so_far := parsed_so_far q + length (show_base 16 n) + 2, parser_buffer := rest\<rparr>)"
proof -
  have "CHR 0x0D \<notin> set (show_base 16 n)" using digit_not_special(8) show_base_digits [of 16 _ n] by fastforce
  then have f: "find_str CRLF (parser_buffer q) = Some (length (show_base 16 n))"
    using find_str_skip [of CRLF "show_base 16 n" rest] assms(2) by (simp add: CRLF_def)
  have l: "length CRLF = 2" by (simp add: CRLF_def)
  have "take (length (show_base 16 n) + 2) (parser_buffer q) = show_base 16 n @ CRLF" using assms(2) l by simp
  then show ?thesis
    using get_chunk_size_show [OF assms(3)] assms(2) l
    by (subst scan_headerI [OF assms(1) f]) (simp add: enter_chunk_def)
qed

lemma scan_encoded_chunk:
  assumes "chunk_state q = CHUNK_HDR" and "parser_buffer q = encode_chunk c @ rest" and "chunk_ok c"
  shows "scan q = scan (q\<lparr>current_chunk_size := of_nat (length c), chunk_state := CHUNK_HDR,
     parsed_so_far := parsed_so_far q + length (encode_chunk c), parser_buffer := rest\<rparr>)"
proof -
  have c: "c \<noteq> []" "length c + 2 < 2 ^ 32" using assms(3) by (simp_all add: chunk_ok_def)
  have u: "unat (of_nat (length c) :: u32) = length c" "unat (of_nat (length c) + 2 :: u32) = length c + 2"
  proof -
    show "unat (of_nat (length c) :: u32) = length c" using c(2) by (simp add: unat_of_nat take_bit_nat_eq_self)
    then show "unat (of_nat (length c) + 2 :: u32) = length c + 2" using c(2) by (subst unat_add_small) simp_all
  qed
  have l: "length CRLF = 2" by (simp add: CRLF_def)
  have nz: "(of_nat (length c) :: u32) \<noteq> 0" using u(1) c(1) by (metis length_0_conv unat_0)
  let ?q = "q\<lparr>current_chunk_size := of_nat (length c), chunk_state := CHUNK,
     parsed_so_far := parsed_so_far q + length (show_base 16 (length c)) + 2, parser_buffer := c @ CRLF @ rest\<rparr>"
  have "scan q = scan ?q"
    using scan_encoded_header [OF assms(1), of "length c" "c @ CRLF @ rest"] assms(2) c nz by (simp add: encode_chunk_def)
  also have "\<dots> = scan (leave_chunk ?q)" using u l by (intro scan_chunkI) simp_all
  finally show ?thesis using u l by (simp add: leave_chunk_def encode_chunk_def algebra_simps)
qed

lemma scan_encoded_all:
  "list_all chunk_ok cs \<Longrightarrow> chunk_state q = CHUNK_HDR \<Longrightarrow> parser_buffer q = encode_chunks cs @ rest \<Longrightarrow>
     \<exists>sz. scan q = scan (q\<lparr>current_chunk_size := sz, chunk_state := CHUNK_HDR,
       parsed_so_far := parsed_so_far q + length (concat (map encode_chunk cs)), parser_buffer := encode_chunks [] @ rest\<rparr>)"
proof (induction cs arbitrary: q)
  case Nil
  have "q\<lparr>current_chunk_size := current_chunk_size q, chunk_state := CHUNK_HDR, parsed_so_far := parsed_so_far q + 0, parser_buffer := encode_chunks [] @ rest\<rparr> = q"
    using Nil.prems by (cases q) simp
  then show ?case by (intro exI [of _ "current_chunk_size q"]) simp
next
  case (Cons c cs)
  let ?q = "q\<lparr>current_chunk_size := of_nat (length c), chunk_state := CHUNK_HDR,
     parsed_so_far := parsed_so_far q + length (encode_chunk c), parser_buffer := encode_chunks cs @ rest\<rparr>"
  have "scan q = scan ?q"
    using Cons.prems by (intro scan_encoded_chunk) (simp_all add: encode_chunks_def)
  moreover obtain sz where "scan ?q = scan (?q\<lparr>current_chunk_size := sz, chunk_state := CHUNK_HDR,
       parsed_so_far := parsed_so_far ?q + length (concat (map encode_chunk cs)), parser_buffer := encode_chunks [] @ rest\<rparr>)"
    using Cons.IH [of ?q] Cons.prems by auto
  ultimately show ?case by (intro exI [of _ sz]) (simp add: add.assoc)
qed

lemma scan_last_header:
  assumes "chunk_state q = CHUNK_HDR" and "parser_buffer q = encode_chunks [] @ rest"
  shows "scan q = scan (q\<lparr>current_chunk_size := 0, chunk_state := TRAILER, parsed_so_far := parsed_so_far q + 3, parser_buffer := CRLF @ rest\<rparr>)"
proof -
  have "show_base 16 0 = ''0''" by code_simp
  then show ?thesis using scan_encoded_header [OF assms(1), of 0 "CRLF @ rest"] assms(2) by (simp add: encode_chunks_def numeral_3_eq_3)
qed

lemma scan_encoded:
  assumes "list_all chunk_ok cs" and "chunk_state q = CHUNK_HDR" and "parser_buffer q = encode_chunks cs @ rest"
  shows "\<exists>q'. scan q = scan q' \<and> chunk_state q' = TRAILER \<and> parser_buffer q' = CRLF @ rest \<and>
     parsed_so_far q' + 2 = parsed_so_far q + length (encode_chunks cs) \<and> trailers_enabled q' = trailers_enabled q"
proof -
  obtain sz where s: "scan q = scan (q\<lparr>current_chunk_size := sz, chunk_state := CHUNK_HDR,
       parsed_so_far := parsed_so_far q + length (concat (map encode_chunk cs)), parser_buffer := encode_chunks [] @ rest\<rparr>)"
    using scan_encoded_all [OF assms] by blast
  show ?thesis unfolding s
    by (subst scan_last_header) (auto intro!: exI simp: encode_chunks_def CRLF_def)
qed

text \<open>
  C35: The chunked parser finds the end of every encoded body: fed with the encoding of any list of
  nonempty chunks (each shorter than 2 ^ 32 - 2 bytes), followed by anything, a fresh parser without
  trailers reports exactly the length of the encoding.
\<close>

theorem chunked_read_encoded:
  assumes "list_all chunk_ok cs"
  shows "\<exists>q'. chunked_read (encode_chunks cs @ rest) (mk_chunked_parser False) = Inr (Some (length (encode_chunks cs)), q')"
proof -
  let ?q = "feed (encode_chunks cs @ rest) (mk_chunked_parser False)"
  obtain q' where q': "scan ?q = scan q'" "chunk_state q' = TRAILER" "parser_buffer q' = CRLF @ rest"
      "parsed_so_far q' + 2 = length (encode_chunks cs)" "\<not> trailers_enabled q'"
    using scan_encoded [OF assms, of ?q rest] by (auto simp: mk_chunked_parser_def feed_def)
  have "find_str (trailer_end q') (parser_buffer q') = Some 0" using q' by (simp add: trailer_end_def CRLF_def)
  from scan_trailerI [OF q'(2) this] q' have "\<exists>q2. scan ?q = Inr (Some (length (encode_chunks cs)), q2)"
    by (auto simp: trailer_end_def CRLF_def)
  moreover have "0 < length (encode_chunks cs)" by (simp add: encode_chunks_def)
  ultimately show ?thesis by (auto simp: chunked_read_scan answer_def mk_chunked_parser_def)
qed

theorem chunked_read_encoded_witness:
  "\<exists>q'. chunked_read (encode_chunks [''abc'', ''de''] @ ''GET'') (mk_chunked_parser False) = Inr (Some (length (encode_chunks [''abc'', ''de''])), q')"
  by (rule chunked_read_encoded) (simp add: chunk_ok_def)

text \<open>
  C36: With trailers announced, a body whose trailer is empty is not recognised as complete: the parser
  has consumed the line end of the last chunk's header when it starts to look for two line ends in a
  row, so it waits for more input although the message has ended.
\<close>

theorem chunked_empty_trailer_waits:
  assumes "list_all chunk_ok cs"
  shows "\<exists>q'. chunked_read (encode_chunks cs) (mk_chunked_parser True) = Inr (None, q')"
proof -
  let ?q = "feed (encode_chunks cs) (mk_chunked_parser True)"
  obtain q' where q': "scan ?q = scan q'" "chunk_state q' = TRAILER" "parser_buffer q' = CRLF" "trailers_enabled q'"
    using scan_encoded [OF assms, of ?q "[]"] by (auto simp: mk_chunked_parser_def feed_def)
  have "scan q' = Inr (None, q')" using q'(2,3,4) by (subst scan.simps) (simp add: trailer_end_def CRLF_def)
  then show ?thesis using q'(1) by (simp add: chunked_read_scan mk_chunked_parser_def)
qed

theorem chunked_empty_trailer_waits_witness:
  "\<exists>q'. chunked_read (encode_chunks [''abc'']) (mk_chunked_parser True) = Inr (None, q')"
  by (rule chunked_empty_trailer_waits) (simp add: chunk_ok_def)

end
