(* ===== verification/Http_Message.thy ===== *)
theory Http_Message
  imports Chunked_Parser
begin

text \<open>
  HTTP messages, src/src/http: \<open>split\<close> (tokenize.hh), \<open>MIMEType\<close>, \<open>HTTPHeader\<close>, \<open>HTTPMessage\<close> and its
  subclasses \<open>HTTPRequest\<close> and \<open>HTTPResponse\<close>. A message is a record, which \<open>http_response\<close> extends.
  The virtual functions of a subclass are a record \<open>http_class\<close>, an argument of the functions of the
  base class that call them. \<open>proto_message\<close> is the message of src/src/protobufs/http_record.proto.
\<close>

section \<open>Model\<close>

subsection \<open>Tokens and media types\<close>

lemma find_str_from_Some: "find_str_from needle s pos = Some i \<Longrightarrow> pos \<le> i \<and> i + length needle \<le> length s"
  by (auto simp: find_str_from_def dest: find_str_bound split: if_splits)

text \<open>The offsets of the separator; the search goes on one byte behind the last hit.\<close>

function split_indices :: "string \<Rightarrow> string \<Rightarrow> nat \<Rightarrow> nat list" where
  "split_indices str separator next_token =
     (case find_str_from separator str next_token of
        None \<Rightarrow> []
      | Some i \<Rightarrow> i # split_indices str separator (i + 1))"
  by pat_completeness auto
termination
  by (relation "measure (\<lambda>(s, sep, pos). Suc (length s) - pos)") (auto dest!: find_str_from_Some)

declare split_indices.simps [simp del]

text \<open>The inner and the last token. A count that underflows takes all that is left.\<close>

fun split_tokens :: "string \<Rightarrow> string \<Rightarrow> nat list \<Rightarrow> string list" where
  "split_tokens str separator [] = []"
| "split_tokens str separator [i] = [drop (i + length separator) str]"
| "split_tokens str separator (i # j # is) =
     (let tok = drop (i + length separator) str in
      (if j < i + length separator then tok else take (j - i - length separator) tok) # split_tokens str separator (j # is))"

definition split :: "string \<Rightarrow> string \<Rightarrow> string list" where
  "split str separator =
     (case split_indices str separator 0 of
        [] \<Rightarrow> [str]
      | i # is \<Rightarrow> take i str # split_tokens str separator (i # is))"

definition mime_type :: "string \<Rightarrow> string res" where
  "mime_type content_type =
     (case split content_type '';'' of
        [] \<Rightarrow> Inl (Runtime_error ''MIMEType: invalid MIME media-type string'')
      | t # ts \<Rightarrow> if t = [] then Inl (Runtime_error ''MIMEType: invalid MIME media-type string'') else Inr t)"

subsection \<open>Headers\<close>

record http_header =
  header_key :: string
  header_value :: string

definition mk_http_header :: "string \<Rightarrow> http_header res" where
  "mk_http_header buf =
     (case find_str '':'' buf of
        None \<Rightarrow> Inl (Runtime_error ''HTTPHeader: buffer does not contain colon'')
      | Some colon_location \<Rightarrow>
          let value_temp = drop (colon_location + 1) buf in
          Inr \<lparr>header_key = take colon_location buf,
               header_value = (case find_index (\<lambda>c. c \<noteq> CHR '' '') value_temp of
                                 None \<Rightarrow> value_temp
                               | Some first_nonspace \<Rightarrow> drop first_nonspace value_temp)\<rparr>)"

definition header_str :: "http_header \<Rightarrow> string" where
  "header_str h = header_key h @ '': '' @ header_value h"

subsection \<open>Messages\<close>

datatype http_message_state = FIRST_LINE_PENDING | HEADERS_PENDING | BODY_PENDING | COMPLETE

record http_message =
  expected_size :: "bool \<times> u64"
  first_line :: string
  headers :: "http_header list"
  body :: string
  message_state :: http_message_state

definition mk_http_message :: http_message where
  "mk_http_message =
     \<lparr>expected_size = (False, - 1), first_line = [], headers = [], body = [], message_state = FIRST_LINE_PENDING\<rparr>"

text \<open>The virtual functions of a subclass, and the initial values of the members it adds.\<close>

record 'a http_class =
  calculate_expected_body_size :: "'a http_message_scheme \<Rightarrow> 'a http_message_scheme res"
  read_in_complex_body :: "string \<Rightarrow> 'a http_message_scheme \<Rightarrow> (nat \<times> 'a http_message_scheme) res"
  eof_in_body :: "'a http_message_scheme \<Rightarrow> bool res"
  fresh_members :: 'a

definition fresh_message :: "'a http_class \<Rightarrow> 'a http_message_scheme" where
  "fresh_message cls = http_message.extend mk_http_message (fresh_members cls)"

definition set_first_line :: "string \<Rightarrow> 'a http_message_scheme \<Rightarrow> 'a http_message_scheme res" where
  "set_first_line str m =
     asserting (message_state m = FIRST_LINE_PENDING) (Inr (m\<lparr>first_line := str, message_state := HEADERS_PENDING\<rparr>))"

definition add_header :: "string \<Rightarrow> 'a http_message_scheme \<Rightarrow> 'a http_message_scheme res" where
  "add_header str m =
     asserting (message_state m = HEADERS_PENDING)
       (res_bind (mk_http_header str) (\<lambda>h. Inr (m\<lparr>headers := headers m @ [h]\<rparr>)))"

definition done_with_headers :: "'a http_class \<Rightarrow> 'a http_message_scheme \<Rightarrow> 'a http_message_scheme res" where
  "done_with_headers cls m =
     asserting (message_state m = HEADERS_PENDING) (calculate_expected_body_size cls (m\<lparr>message_state := BODY_PENDING\<rparr>))"

definition set_expected_body_size :: "bool \<Rightarrow> u64 \<Rightarrow> 'a http_message_scheme \<Rightarrow> 'a http_message_scheme res" where
  "set_expected_body_size is_known v m =
     asserting (message_state m = BODY_PENDING) (Inr (m\<lparr>expected_size := (is_known, v)\<rparr>))"

definition body_size_is_known :: "'a http_message_scheme \<Rightarrow> bool res" where
  "body_size_is_known m =
     asserting (message_state m = BODY_PENDING \<or> message_state m = COMPLETE) (Inr (fst (expected_size m)))"

definition expected_body_size :: "'a http_message_scheme \<Rightarrow> u64 res" where
  "expected_body_size m = res_bind (body_size_is_known m) (\<lambda>known. asserting known (Inr (snd (expected_size m))))"

definition read_in_body :: "'a http_class \<Rightarrow> string \<Rightarrow> 'a http_message_scheme \<Rightarrow> (nat \<times> 'a http_message_scheme) res" where
  "read_in_body cls str m =
     asserting (message_state m = BODY_PENDING)
       (res_bind (body_size_is_known m) (\<lambda>known.
          if known then
            res_bind (expected_body_size m) (\<lambda>size'.
              asserting (length (body m) \<le> unat size')
                (let amount_to_append = min (unat size' - length (body m)) (length str);
                     m1 = m\<lparr>body := body m @ take amount_to_append str\<rparr>
                 in Inr (amount_to_append, if length (body m1) = unat size' then m1\<lparr>message_state := COMPLETE\<rparr> else m1)))
          else read_in_complex_body cls str m))"

definition message_eof :: "'a http_class \<Rightarrow> 'a http_message_scheme \<Rightarrow> 'a http_message_scheme res" where
  "message_eof cls m =
     (case message_state m of
        FIRST_LINE_PENDING \<Rightarrow> Inr m
      | HEADERS_PENDING \<Rightarrow> Inl (Runtime_error ''HTTPMessage: EOF received in middle of headers'')
      | BODY_PENDING \<Rightarrow> res_bind (eof_in_body cls m) (\<lambda>b. Inr (if b then m\<lparr>message_state := COMPLETE\<rparr> else m))
      | COMPLETE \<Rightarrow> Inl Assertion_failed)"

text \<open>Comparison without regard to case and to leading spaces.\<close>

definition http_to_lower :: "char \<Rightarrow> char" where
  "http_to_lower c =
     (let n = (of_char c :: nat) in if 65 \<le> n \<and> n \<le> 90 then char_of (n + 32) else c)"

definition strip_initial_whitespace :: "string \<Rightarrow> string" where
  "strip_initial_whitespace str =
     (case find_index (\<lambda>c. c \<noteq> CHR '' '') str of None \<Rightarrow> [] | Some first_nonspace \<Rightarrow> drop first_nonspace str)"

definition equivalent_strings :: "string \<Rightarrow> string \<Rightarrow> bool" where
  "equivalent_strings a b =
     (let new_a = strip_initial_whitespace a; new_b = strip_initial_whitespace b
      in list_all2 (\<lambda>x y. http_to_lower x = http_to_lower y) new_a new_b)"

definition has_header :: "string \<Rightarrow> 'a http_message_scheme \<Rightarrow> bool" where
  "has_header header_name m = list_ex (\<lambda>h. equivalent_strings (header_key h) header_name) (headers m)"

definition get_header_value :: "string \<Rightarrow> 'a http_message_scheme \<Rightarrow> string res" where
  "get_header_value header_name m =
     (case find (\<lambda>h. equivalent_strings (header_key h) header_name) (headers m) of
        Some h \<Rightarrow> Inr (header_value h)
      | None \<Rightarrow> Inl (Runtime_error (''HTTPMessage header not found: '' @ header_name)))"

definition message_str :: "'a http_message_scheme \<Rightarrow> string res" where
  "message_str m =
     asserting (message_state m = COMPLETE)
       (Inr (first_line m @ CRLF @ concat (map (\<lambda>h. header_str h @ CRLF) (headers m)) @ CRLF @ body m))"

text \<open>Protocol buffers.\<close>

record proto_message =
  proto_first_line :: string
  proto_header :: "(string \<times> string) list"
  proto_body :: string

definition toprotobuf :: "'a http_message_scheme \<Rightarrow> proto_message res" where
  "toprotobuf m =
     asserting (message_state m = COMPLETE)
       (Inr \<lparr>proto_first_line = first_line m, proto_header = map (\<lambda>h. (header_key h, header_value h)) (headers m), proto_body = body m\<rparr>)"

definition from_protobuf :: "proto_message \<Rightarrow> http_message" where
  "from_protobuf p =
     mk_http_message\<lparr>first_line := proto_first_line p, body := proto_body p, message_state := COMPLETE,
       headers := map (\<lambda>(k, v). \<lparr>header_key = k, header_value = v\<rparr>) (proto_header p)\<rparr>"

subsection \<open>Requests\<close>

definition request_body_size :: "http_message \<Rightarrow> http_message res" where
  "request_body_size m =
     asserting (message_state m = BODY_PENDING)
       (if take 4 (first_line m) = ''GET '' \<or> take 5 (first_line m) = ''HEAD '' then set_expected_body_size True 0 m
        else if take 5 (first_line m) = ''POST '' then
          (if \<not> has_header ''Content-Length'' m then Inl (Runtime_error ''HTTPRequest: does not support chunked requests'')
           else
             res_bind (get_header_value ''Content-Length'' m) (\<lambda>v.
             res_bind (myatoi 10 v) (\<lambda>n. set_expected_body_size True (of_int n) m)))
        else Inl (Runtime_error (''Cannot handle HTTP method: '' @ first_line m)))"

definition request_class :: "unit http_class" where
  "request_class =
     \<lparr>calculate_expected_body_size = request_body_size,
      read_in_complex_body = (\<lambda>str m. Inl (Runtime_error ''HTTPRequest: does not support chunked requests'')),
      eof_in_body = (\<lambda>m. Inl (Runtime_error ''HTTPRequest: got EOF in middle of body'')),
      fresh_members = ()\<rparr>"

definition is_head :: "http_message \<Rightarrow> bool res" where
  "is_head m = asserting (message_state m \<noteq> FIRST_LINE_PENDING) (Inr (take 5 (first_line m) = ''HEAD ''))"

subsection \<open>Responses\<close>

record http_response = http_message +
  request :: http_message
  body_parser :: "body_parser option"

text \<open>The members of the base class do not touch the request of a response.\<close>

lemma request_base_update [simp]:
  "request (m\<lparr>expected_size := v\<rparr>) = request (m :: http_response)" "request (m\<lparr>first_line := l\<rparr>) = request (m :: http_response)"
  "request (m\<lparr>headers := hs\<rparr>) = request (m :: http_response)" "request (m\<lparr>body := b\<rparr>) = request (m :: http_response)"
  "request (m\<lparr>message_state := st\<rparr>) = request (m :: http_response)"
  by (cases m; simp)+

definition status_code :: "http_response \<Rightarrow> string res" where
  "status_code m =
     asserting (message_state m \<noteq> FIRST_LINE_PENDING)
       (let tokens = split (first_line m) '' '' in
        if length tokens < 3 then Inl (Runtime_error (''HTTPResponse: Invalid status line: '' @ first_line m))
        else Inr (tokens ! 1))"

text \<open>The rules of RFC 2616 section 4.4 in the order of the code. Rule 1 is \<open>bodyless\<close>, the test of rule 2 \<open>is_chunked\<close>.\<close>

definition bodyless :: "http_response \<Rightarrow> bool res" where
  "bodyless m =
     res_bind (status_code m) (\<lambda>code.
       if code = [] then Inl Out_of_range
       else if hd code = CHR ''1'' \<or> code = ''204'' \<or> code = ''304'' then Inr True
       else is_head (request m))"

definition is_chunked :: "http_response \<Rightarrow> bool res" where
  "is_chunked m =
     (if \<not> has_header ''Transfer-Encoding'' m then Inr False
      else res_bind (get_header_value ''Transfer-Encoding'' m) (\<lambda>v.
        Inr (equivalent_strings (last (split v '','')) ''chunked'')))"

definition is_byteranges :: "http_response \<Rightarrow> bool res" where
  "is_byteranges m =
     (if \<not> has_header ''Content-Type'' m then Inr False
      else
        res_bind (get_header_value ''Content-Type'' m) (\<lambda>v.
        res_bind (mime_type v) (\<lambda>t. Inr (equivalent_strings t ''multipart/byteranges''))))"

definition response_body_size :: "http_response \<Rightarrow> http_response res" where
  "response_body_size m =
     asserting (message_state m = BODY_PENDING)
       (res_bind (bodyless m) (\<lambda>none.
          if none then set_expected_body_size True 0 m
          else
            res_bind (is_chunked m) (\<lambda>chunked.
              if chunked then
                res_bind (set_expected_body_size False (- 1) m) (\<lambda>m1.
                  Inr (m1\<lparr>body_parser := Some (ChunkedBodyParser (mk_chunked_parser (has_header ''Trailer'' m)))\<rparr>))
              else if \<not> has_header ''Transfer-Encoding'' m \<and> has_header ''Content-Length'' m then
                res_bind (get_header_value ''Content-Length'' m) (\<lambda>v.
                res_bind (myatoi 10 v) (\<lambda>n. set_expected_body_size True (of_int n) m))
              else
                res_bind (is_byteranges m) (\<lambda>ranges.
                  if ranges then
                    Inl (Runtime_error ''HTTPResponse: unsupported multipart/byteranges without Content-Length'')
                  else
                    res_bind (set_expected_body_size False (- 1) m) (\<lambda>m1.
                      Inr (m1\<lparr>body_parser := Some Rule5BodyParser\<rparr>))))))"

definition response_complex_body :: "string \<Rightarrow> http_response \<Rightarrow> (nat \<times> http_response) res" where
  "response_complex_body str m =
     asserting (message_state m = BODY_PENDING)
       (case body_parser m of
          None \<Rightarrow> Inl Assertion_failed
        | Some bp \<Rightarrow>
            res_bind (body_read str bp) (\<lambda>(amount_parsed, bp').
              let m1 = m\<lparr>body_parser := Some bp'\<rparr> in
              case amount_parsed of
                None \<Rightarrow> Inr (length str, m1\<lparr>body := body m1 @ str\<rparr>)
              | Some n \<Rightarrow> Inr (n, m1\<lparr>body := body m1 @ take n str, message_state := COMPLETE\<rparr>)))"

definition response_eof_in_body :: "http_response \<Rightarrow> bool res" where
  "response_eof_in_body m =
     (case body_parser m of
        Some bp \<Rightarrow> Inr (body_eof bp)
      | None \<Rightarrow> Inl (Runtime_error ''HTTPResponse: got EOF in middle of body''))"

definition set_request :: "http_message \<Rightarrow> http_response \<Rightarrow> http_response res" where
  "set_request req m = asserting (message_state m = FIRST_LINE_PENDING) (Inr (m\<lparr>request := req\<rparr>))"

definition response_class :: "unit http_response_ext http_class" where
  "response_class =
     \<lparr>calculate_expected_body_size = response_body_size, read_in_complex_body = response_complex_body,
      eof_in_body = response_eof_in_body, fresh_members = http_response.fields mk_http_message None\<rparr>"

end
