(* ===== verification/Http_Parser.thy ===== *)
theory Http_Parser
  imports Http_Message
begin

text \<open>
  The parsers of src/src/http: \<open>HTTPMessageSequence\<close> with its subclasses \<open>HTTPRequestParser\<close> and
  \<open>HTTPResponseParser\<close>. The buffer and the queue of complete messages are private to the base class;
  what a subclass adds (the requests that wait for a response) is \<open>subclass_members\<close>, and its
  \<open>initialize_new_message\<close> an argument of the base class.

  The locale \<open>body_reader\<close> holds the contract between the sequence and the body parser of a message,
  and the proof that a stream may be cut into reads anywhere.
\<close>

section \<open>Model\<close>

record ('a, 'e) message_sequence =
  seq_buffer :: string
  complete_messages :: "'a http_message_scheme list"
  message_in_progress :: "'a http_message_scheme"
  subclass_members :: 'e

type_synonym ('a, 'e) initializer = "'a http_message_scheme \<Rightarrow> 'e \<Rightarrow> ('a http_message_scheme \<times> 'e) res"

definition mk_message_sequence :: "'a http_class \<Rightarrow> 'e \<Rightarrow> ('a, 'e) message_sequence" where
  "mk_message_sequence cls e =
     \<lparr>seq_buffer = [], complete_messages = [], message_in_progress = fresh_message cls, subclass_members = e\<rparr>"

definition have_complete_line :: "string \<Rightarrow> bool" where
  "have_complete_line buf = (find_str CRLF buf \<noteq> None)"

definition pop_bytes :: "nat \<Rightarrow> string \<Rightarrow> string res" where
  "pop_bytes num buf = asserting (num \<le> length buf) (Inr (drop num buf))"

definition get_and_pop_line :: "string \<Rightarrow> (string \<times> string) res" where
  "get_and_pop_line buf =
     (case find_str CRLF buf of
        None \<Rightarrow> Inl Assertion_failed
      | Some first_line_ending \<Rightarrow>
          res_bind (pop_bytes (first_line_ending + length CRLF) buf) (\<lambda>later. Inr (take first_line_ending buf, later)))"

definition parsing_step ::
  "'a http_class \<Rightarrow> ('a, 'e) initializer \<Rightarrow> ('a, 'e) message_sequence \<Rightarrow> (bool \<times> ('a, 'e) message_sequence) res" where
  "parsing_step cls init s =
     (case message_state (message_in_progress s) of
        FIRST_LINE_PENDING \<Rightarrow>
          (if \<not> have_complete_line (seq_buffer s) then Inr (False, s)
           else
             res_bind (init (message_in_progress s) (subclass_members s)) (\<lambda>(m, e).
             res_bind (get_and_pop_line (seq_buffer s)) (\<lambda>(line, later).
             res_bind (set_first_line line m) (\<lambda>m'.
               Inr (True, s\<lparr>seq_buffer := later, message_in_progress := m', subclass_members := e\<rparr>)))))
      | HEADERS_PENDING \<Rightarrow>
          (if \<not> have_complete_line (seq_buffer s) then Inr (False, s)
           else
             res_bind (get_and_pop_line (seq_buffer s)) (\<lambda>(line, later).
             res_bind (if line = [] then done_with_headers cls (message_in_progress s)
                       else add_header line (message_in_progress s)) (\<lambda>m'.
               Inr (True, s\<lparr>seq_buffer := later, message_in_progress := m'\<rparr>))))
      | BODY_PENDING \<Rightarrow>
          res_bind (read_in_body cls (seq_buffer s) (message_in_progress s)) (\<lambda>(bytes_read, m').
            asserting (bytes_read = length (seq_buffer s) \<or> message_state m' = COMPLETE)
              (res_bind (pop_bytes bytes_read (seq_buffer s)) (\<lambda>later.
                 Inr (message_state m' = COMPLETE, s\<lparr>seq_buffer := later, message_in_progress := m'\<rparr>))))
      | COMPLETE \<Rightarrow>
          Inr (True, s\<lparr>complete_messages := complete_messages s @ [message_in_progress s], message_in_progress := fresh_message cls\<rparr>))"

text \<open>Every step that goes on consumes bytes of a line or moves towards a fresh message.\<close>

definition state_rank :: "http_message_state \<Rightarrow> nat" where
  "state_rank st = (case st of BODY_PENDING \<Rightarrow> 2 | COMPLETE \<Rightarrow> 1 | _ \<Rightarrow> 0)"

definition sequence_rank :: "('a, 'e) message_sequence \<Rightarrow> nat" where
  "sequence_rank s = 3 * length (seq_buffer s) + state_rank (message_state (message_in_progress s))"

lemma state_rank_le: "state_rank st \<le> 2"
  by (simp add: state_rank_def split: http_message_state.split)

lemma fresh_message_state [simp]: "message_state (fresh_message cls) = FIRST_LINE_PENDING"
  by (simp add: fresh_message_def mk_http_message_def http_message.defs)

lemma get_and_pop_line_Inr:
  "get_and_pop_line buf = Inr (line, later) \<longleftrightarrow>
     (\<exists>i. find_str CRLF buf = Some i \<and> line = take i buf \<and> later = drop (i + 2) buf)"
  by (auto simp: get_and_pop_line_def pop_bytes_def CRLF_def dest: find_str_bound split: option.split)

lemma get_and_pop_line_length: "get_and_pop_line buf = Inr (line, later) \<Longrightarrow> length later + 2 \<le> length buf"
  by (auto simp: get_and_pop_line_Inr CRLF_def dest!: find_str_bound)

lemma parsing_step_rank: "parsing_step cls init s = Inr (True, s') \<Longrightarrow> sequence_rank s' < sequence_rank s"
proof -
  assume a: "parsing_step cls init s = Inr (True, s')"
  note le = state_rank_le [of "message_state (message_in_progress s')"]
  show ?thesis
  proof (cases "message_state (message_in_progress s)")
    case BODY_PENDING
    then show ?thesis using a
      by (auto simp: parsing_step_def sequence_rank_def state_rank_def pop_bytes_def split: prod.splits)
  qed (use a le in \<open>auto simp: parsing_step_def sequence_rank_def state_rank_def split: prod.splits if_splits dest!: get_and_pop_line_length\<close>)
qed

function parse_loop :: "'a http_class \<Rightarrow> ('a, 'e) initializer \<Rightarrow> ('a, 'e) message_sequence \<Rightarrow> ('a, 'e) message_sequence res" where
  "parse_loop cls init s =
     res_bind (parsing_step cls init s) (\<lambda>(continue, s'). if continue then parse_loop cls init s' else Inr s')"
  by pat_completeness auto
termination
  by (relation "measure (\<lambda>(cls, init, s). sequence_rank s)") (auto simp: parsing_step_rank)

declare parse_loop.simps [simp del]

lemma parse_loop_step: "parsing_step cls init s = Inr (True, t) \<Longrightarrow> parse_loop cls init s = parse_loop cls init t"
  by (simp add: parse_loop.simps [of cls init s])

lemma parse_loop_stop: "parsing_step cls init s = Inr (False, t) \<Longrightarrow> parse_loop cls init s = Inr t"
  by (simp add: parse_loop.simps [of cls init s])

definition parse ::
  "'a http_class \<Rightarrow> ('a, 'e) initializer \<Rightarrow> string \<Rightarrow> ('a, 'e) message_sequence \<Rightarrow> ('a, 'e) message_sequence res" where
  "parse cls init buf s =
     res_bind (if buf = [] then message_eof cls (message_in_progress s) else Inr (message_in_progress s)) (\<lambda>m.
       parse_loop cls init (s\<lparr>message_in_progress := m, seq_buffer := seq_buffer s @ buf\<rparr>))"

text \<open>The two parsers.\<close>

type_synonym request_parser = "(unit, unit) message_sequence"

definition request_initialize :: "(unit, unit) initializer" where
  "request_initialize m e = Inr (m, e)"

definition mk_request_parser :: request_parser where
  "mk_request_parser = mk_message_sequence request_class ()"

definition parse_requests :: "string \<Rightarrow> request_parser \<Rightarrow> request_parser res" where
  "parse_requests = parse request_class request_initialize"

type_synonym response_parser = "(unit http_response_ext, http_message list) message_sequence"

definition response_initialize :: "(unit http_response_ext, http_message list) initializer" where
  "response_initialize m reqs =
     (case reqs of
        [] \<Rightarrow> Inl (Runtime_error ''HTTPResponseParser: response without matching request'')
      | req # later \<Rightarrow> res_bind (set_request req m) (\<lambda>m'. Inr (m', later)))"

definition mk_response_parser :: response_parser where
  "mk_response_parser = mk_message_sequence response_class []"

definition new_request_arrived :: "http_message \<Rightarrow> response_parser \<Rightarrow> response_parser" where
  "new_request_arrived req s = s\<lparr>subclass_members := subclass_members s @ [req]\<rparr>"

definition parse_responses :: "string \<Rightarrow> response_parser \<Rightarrow> response_parser res" where
  "parse_responses = parse response_class response_initialize"

text \<open>The getters: \<open>front\<close> and \<open>pop\<close> are undefined on an empty queue.\<close>

definition sequence_empty :: "('a, 'e) message_sequence \<Rightarrow> bool" where
  "sequence_empty s = (complete_messages s = [])"

definition sequence_front :: "('a, 'e) message_sequence \<Rightarrow> 'a http_message_scheme res" where
  "sequence_front s = (case complete_messages s of [] \<Rightarrow> Inl Undefined_behaviour | m # ms \<Rightarrow> Inr m)"

definition sequence_pop :: "('a, 'e) message_sequence \<Rightarrow> ('a, 'e) message_sequence res" where
  "sequence_pop s = (case complete_messages s of [] \<Rightarrow> Inl Undefined_behaviour | m # ms \<Rightarrow> Inr (s\<lparr>complete_messages := ms\<rparr>))"

section \<open>Reading a body in parts\<close>

definition settled :: "('a http_message_scheme \<Rightarrow> 'a http_message_scheme) \<Rightarrow> 'a http_message_scheme \<Rightarrow> 'a http_message_scheme" where
  "settled forget m = (if message_state m = COMPLETE then forget m else m)"

definition shift_read :: "('a http_message_scheme \<Rightarrow> 'a http_message_scheme) \<Rightarrow> nat \<Rightarrow> (nat \<times> 'a http_message_scheme) res \<Rightarrow> (nat \<times> 'a http_message_scheme) res" where
  "shift_read forget k = map_sum id (\<lambda>(n, m). (k + n, settled forget m))"

text \<open>
  The contract of a class of messages: \<open>keeps\<close> holds of a message whose body is being read, and
  \<open>forget\<close> drops what a complete message no longer needs.
\<close>

locale body_reader =
  fixes cls :: "'a http_class"
    and keeps :: "'a http_message_scheme \<Rightarrow> bool"
    and forget :: "'a http_message_scheme \<Rightarrow> 'a http_message_scheme"
  assumes forget_state: "message_state (forget m) = message_state m"
    and keeps_body: "keeps (m\<lparr>body := b\<rparr>) = keeps m"
    and size_keeps: "message_state m = BODY_PENDING \<Longrightarrow> calculate_expected_body_size cls m = Inr m' \<Longrightarrow> message_state m' = BODY_PENDING \<and> keeps m'"
    and complex_outcome: "keeps m \<Longrightarrow> message_state m = BODY_PENDING \<Longrightarrow> \<not> fst (expected_size m) \<Longrightarrow>
      read_in_complex_body cls x m = Inr (n, m') \<Longrightarrow>
      n \<le> length x \<and> message_state m' = COMPLETE \<or>
      n = length x \<and> message_state m' = BODY_PENDING \<and> \<not> fst (expected_size m') \<and> keeps m'"
    and complex_more: "keeps m \<Longrightarrow> message_state m = BODY_PENDING \<Longrightarrow> \<not> fst (expected_size m) \<Longrightarrow>
      read_in_complex_body cls x m = Inr (n, m') \<Longrightarrow> message_state m' = BODY_PENDING \<Longrightarrow>
      shift_read forget 0 (read_in_complex_body cls (x @ y) m) = shift_read forget (length x) (read_in_complex_body cls y m')"
    and complex_complete: "keeps m \<Longrightarrow> message_state m = BODY_PENDING \<Longrightarrow> \<not> fst (expected_size m) \<Longrightarrow>
      read_in_complex_body cls x m = Inr (n, m') \<Longrightarrow> message_state m' = COMPLETE \<Longrightarrow>
      \<exists>m2. read_in_complex_body cls (x @ y) m = Inr (n, m2) \<and> message_state m2 = COMPLETE \<and> forget m2 = forget m'"
begin

lemma read_in_body_known:
  "message_state m = BODY_PENDING \<Longrightarrow> fst (expected_size m) \<Longrightarrow>
     read_in_body cls x m =
       asserting (length (body m) \<le> unat (snd (expected_size m)))
         (let k = min (unat (snd (expected_size m)) - length (body m)) (length x) in
          Inr (k, m\<lparr>body := body m @ take k x,
                   message_state := if length (body m) + k = unat (snd (expected_size m)) then COMPLETE else BODY_PENDING\<rparr>))"
  by (auto simp: read_in_body_def body_size_is_known_def expected_body_size_def Let_def asserting_def min_def)

lemma read_in_body_unknown:
  "message_state m = BODY_PENDING \<Longrightarrow> \<not> fst (expected_size m) \<Longrightarrow> read_in_body cls x m = read_in_complex_body cls x m"
  by (simp add: read_in_body_def body_size_is_known_def)

lemma read_outcome:
  assumes "keeps m" and "message_state m = BODY_PENDING" and "read_in_body cls x m = Inr (n, m')"
  shows "n \<le> length x \<and> message_state m' = COMPLETE \<or> n = length x \<and> message_state m' = BODY_PENDING \<and> keeps m'"
proof (cases "fst (expected_size m)")
  case True
  have "m\<lparr>body := b, message_state := BODY_PENDING\<rparr> = m\<lparr>body := b\<rparr>" for b using assms(2) by (cases m) simp
  then have "keeps (m\<lparr>body := b, message_state := BODY_PENDING\<rparr>)" for b using assms(1) by (simp add: keeps_body)
  then show ?thesis using assms(2,3) True by (auto simp: read_in_body_known Let_def split: if_splits)
next
  case False
  then show ?thesis using assms complex_outcome by (auto simp: read_in_body_unknown)
qed

lemma read_more:
  assumes "keeps m" and "message_state m = BODY_PENDING" and "read_in_body cls x m = Inr (n, m')" and "message_state m' = BODY_PENDING"
  shows "shift_read forget 0 (read_in_body cls (x @ y) m) = shift_read forget (length x) (read_in_body cls y m')"
proof (cases "fst (expected_size m)")
  case True
  define c where "c = unat (snd (expected_size m))"
  have l: "length (body m) \<le> c" "length (body m) + length x < c"
      and m': "m' = m\<lparr>body := body m @ x\<rparr>"
    using assms(2,3,4) True by (auto simp: read_in_body_known Let_def c_def min_def split: if_splits)
  define k where "k = min (c - length (body m) - length x) (length y)"
  have k: "min (c - length (body m)) (length (x @ y)) = length x + k" using l unfolding k_def by auto
  have "read_in_body cls (x @ y) m = Inr (length x + k, m\<lparr>body := body m @ x @ take k y,
           message_state := if length (body m) + length x + k = c then COMPLETE else BODY_PENDING\<rparr>)"
    using assms(2) True l(1) k by (simp add: read_in_body_known Let_def c_def [symmetric])
  moreover have "read_in_body cls y m' = Inr (k, m\<lparr>body := body m @ x @ take k y,
           message_state := if length (body m) + length x + k = c then COMPLETE else BODY_PENDING\<rparr>)"
    using assms(2) True l(2) by (simp add: m' read_in_body_known Let_def c_def [symmetric] k_def)
  ultimately show ?thesis by (simp add: shift_read_def)
next
  case False
  then have r: "read_in_complex_body cls x m = Inr (n, m')" using assms(2,3) by (simp add: read_in_body_unknown)
  have "\<not> fst (expected_size m')" using complex_outcome [OF assms(1,2) False r] assms(4) by simp
  then show ?thesis using complex_more [OF assms(1,2) False r assms(4)] assms(2,4) False by (simp add: read_in_body_unknown)
qed

lemma read_complete:
  assumes "keeps m" and "message_state m = BODY_PENDING" and "read_in_body cls x m = Inr (n, m')" and "message_state m' = COMPLETE"
  shows "\<exists>m2. read_in_body cls (x @ y) m = Inr (n, m2) \<and> message_state m2 = COMPLETE \<and> forget m2 = forget m'"
proof (cases "fst (expected_size m)")
  case True
  define c where "c = unat (snd (expected_size m))"
  have l: "length (body m) \<le> c" "c - length (body m) \<le> length x" "n = c - length (body m)"
      and m': "m' = m\<lparr>body := body m @ take n x, message_state := COMPLETE\<rparr>"
    using assms(2,3,4) True by (auto simp: read_in_body_known Let_def c_def min_def split: if_splits)
  then show ?thesis using assms(2) True by (auto simp: read_in_body_known Let_def c_def [symmetric] min_def)
next
  case False
  then show ?thesis using complex_complete [OF assms(1,2) False] assms(2,3,4) by (simp add: read_in_body_unknown)
qed

end

section \<open>Cutting the stream\<close>

definition seq_view :: "('a http_message_scheme \<Rightarrow> 'a http_message_scheme) \<Rightarrow> ('a, 'e) message_sequence \<Rightarrow> ('a, 'e) message_sequence" where
  "seq_view forget s =
     s\<lparr>complete_messages := map forget (complete_messages s), message_in_progress := settled forget (message_in_progress s)\<rparr>"

definition seq_feed :: "string \<Rightarrow> ('a, 'e) message_sequence \<Rightarrow> ('a, 'e) message_sequence" where
  "seq_feed y s = s\<lparr>seq_buffer := seq_buffer s @ y\<rparr>"

definition seq_ok :: "('a http_message_scheme \<Rightarrow> bool) \<Rightarrow> ('a, 'e) message_sequence \<Rightarrow> bool" where
  "seq_ok keeps s \<longleftrightarrow> (message_state (message_in_progress s) = BODY_PENDING \<longrightarrow> keeps (message_in_progress s))"

lemma seq_feed_simps [simp]:
  "seq_buffer (seq_feed y s) = seq_buffer s @ y" "message_in_progress (seq_feed y s) = message_in_progress s"
  "complete_messages (seq_feed y s) = complete_messages s" "subclass_members (seq_feed y s) = subclass_members s"
  by (simp_all add: seq_feed_def)

lemma get_and_pop_line_append:
  "get_and_pop_line buf = Inr (line, later) \<Longrightarrow> get_and_pop_line (buf @ y) = Inr (line, later @ y)"
proof -
  assume "get_and_pop_line buf = Inr (line, later)"
  then obtain i where i: "find_str CRLF buf = Some i" "line = take i buf" "later = drop (i + 2) buf" by (auto simp: get_and_pop_line_Inr)
  have "i + 2 \<le> length buf" using find_str_bound [OF i(1)] by (simp add: CRLF_def)
  then show ?thesis using i find_str_mono [OF i(1), of y] by (simp add: get_and_pop_line_Inr)
qed

lemma get_and_pop_line_have: "get_and_pop_line buf = Inr r \<Longrightarrow> have_complete_line buf"
  by (cases r) (auto simp: get_and_pop_line_Inr have_complete_line_def)

text \<open>The ways a step can go.\<close>

lemma parsing_step_cases:
  assumes "parsing_step cls init s = Inr (b, s1)"
  obtains (stop) "message_state (message_in_progress s) = FIRST_LINE_PENDING \<or> message_state (message_in_progress s) = HEADERS_PENDING"
      "\<not> have_complete_line (seq_buffer s)" "\<not> b" "s1 = s"
  | (line) e m' line later where "b" "get_and_pop_line (seq_buffer s) = Inr (line, later)"
      "message_state m' = BODY_PENDING \<longrightarrow> done_with_headers cls (message_in_progress s) = Inr m'"
      "message_state (message_in_progress s) = FIRST_LINE_PENDING \<or> message_state (message_in_progress s) = HEADERS_PENDING"
      "s1 = s\<lparr>seq_buffer := later, message_in_progress := m', subclass_members := e\<rparr>"
      "\<And>y. parsing_step cls init (seq_feed y s) = Inr (True, seq_feed y s1)"
  | (reads) n m' where "message_state (message_in_progress s) = BODY_PENDING" "read_in_body cls (seq_buffer s) (message_in_progress s) = Inr (n, m')"
      "n = length (seq_buffer s) \<or> message_state m' = COMPLETE" "n \<le> length (seq_buffer s)" "b \<longleftrightarrow> message_state m' = COMPLETE"
      "s1 = s\<lparr>seq_buffer := drop n (seq_buffer s), message_in_progress := m'\<rparr>"
  | (push) "message_state (message_in_progress s) = COMPLETE" "b"
      "s1 = s\<lparr>complete_messages := complete_messages s @ [message_in_progress s], message_in_progress := fresh_message cls\<rparr>"
proof (cases "message_state (message_in_progress s)")
  case FIRST_LINE_PENDING
  show thesis
  proof (cases "have_complete_line (seq_buffer s)")
    case True
    obtain m e line later where r: "init (message_in_progress s) (subclass_members s) = Inr (m, e)"
        "get_and_pop_line (seq_buffer s) = Inr (line, later)"
      and b: "b" and s1: "\<exists>m'. set_first_line line m = Inr m' \<and> s1 = s\<lparr>seq_buffer := later, message_in_progress := m', subclass_members := e\<rparr>"
      using assms FIRST_LINE_PENDING True by (auto simp: parsing_step_def)
    then obtain m' where m': "set_first_line line m = Inr m'" "s1 = s\<lparr>seq_buffer := later, message_in_progress := m', subclass_members := e\<rparr>" by blast
    have "message_state m' \<noteq> BODY_PENDING" using m'(1) by (auto simp: set_first_line_def)
    moreover have "parsing_step cls init (seq_feed y s) = Inr (True, seq_feed y s1)" for y
      using r m' FIRST_LINE_PENDING get_and_pop_line_append [OF r(2), of y] get_and_pop_line_have [OF get_and_pop_line_append [OF r(2), of y]]
      by (simp add: parsing_step_def seq_feed_def)
    ultimately show thesis using b r(2) m'(2) FIRST_LINE_PENDING by (intro line) auto
  next
    case False
    then have "\<not> b" "s1 = s" using assms FIRST_LINE_PENDING by (simp_all add: parsing_step_def)
    then show thesis using False FIRST_LINE_PENDING by (intro stop) simp_all
  qed
next
  case HEADERS_PENDING
  show thesis
  proof (cases "have_complete_line (seq_buffer s)")
    case True
    obtain line later m' where r: "get_and_pop_line (seq_buffer s) = Inr (line, later)"
        "(if line = [] then done_with_headers cls (message_in_progress s) else add_header line (message_in_progress s)) = Inr m'"
      and b: "b" and s1: "s1 = s\<lparr>seq_buffer := later, message_in_progress := m'\<rparr>"
      using assms HEADERS_PENDING True by (auto simp: parsing_step_def)
    have "message_state m' = BODY_PENDING \<longrightarrow> done_with_headers cls (message_in_progress s) = Inr m'"
      using r(2) by (auto simp: add_header_def split: if_splits)
    moreover have "parsing_step cls init (seq_feed y s) = Inr (True, seq_feed y s1)" for y
      using r(2) s1 HEADERS_PENDING get_and_pop_line_append [OF r(1), of y] get_and_pop_line_have [OF get_and_pop_line_append [OF r(1), of y]]
      by (cases "line = []") (simp_all add: parsing_step_def seq_feed_def)
    moreover have "s1 = s\<lparr>seq_buffer := later, message_in_progress := m', subclass_members := subclass_members s\<rparr>" using s1 by simp
    ultimately show thesis using b r(1) HEADERS_PENDING by (intro line [of line later m' "subclass_members s"]) auto
  next
    case False
    then have "\<not> b" "s1 = s" using assms HEADERS_PENDING by (simp_all add: parsing_step_def)
    then show thesis using False HEADERS_PENDING by (intro stop) simp_all
  qed
next
  case BODY_PENDING
  then obtain n m' where "read_in_body cls (seq_buffer s) (message_in_progress s) = Inr (n, m')"
      "n = length (seq_buffer s) \<or> message_state m' = COMPLETE" "n \<le> length (seq_buffer s)" "b \<longleftrightarrow> message_state m' = COMPLETE"
      "s1 = s\<lparr>seq_buffer := drop n (seq_buffer s), message_in_progress := m'\<rparr>"
    using assms by (fastforce simp: parsing_step_def pop_bytes_def)
  with BODY_PENDING show thesis by (rule reads)
next
  case COMPLETE
  then show thesis using assms by (intro push) (auto simp: parsing_step_def)
qed

lemma parsing_step_other_messages:
  "message_state (message_in_progress s) \<noteq> COMPLETE \<Longrightarrow>
     parsing_step cls init (s\<lparr>complete_messages := c\<rparr>) =
       map_sum id (\<lambda>(b, s'). (b, s'\<lparr>complete_messages := c\<rparr>)) (parsing_step cls init s)"
  by (cases "message_state (message_in_progress s)")
     (simp_all add: parsing_step_def res_bind_def asserting_def split: prod.split sum.split)

lemma parsing_step_keeps_messages:
  "parsing_step cls init s = Inr (b, s1) \<Longrightarrow> message_state (message_in_progress s) \<noteq> COMPLETE \<Longrightarrow> complete_messages s1 = complete_messages s"
  by (erule parsing_step_cases) simp_all

primrec parse_all ::
  "'a http_class \<Rightarrow> ('a, 'e) initializer \<Rightarrow> string list \<Rightarrow> ('a, 'e) message_sequence \<Rightarrow> ('a, 'e) message_sequence res" where
  "parse_all cls init [] s = Inr s"
| "parse_all cls init (x # xs) s = res_bind (parse cls init x s) (parse_all cls init xs)"

context body_reader
begin

lemma step_ok: "seq_ok keeps s \<Longrightarrow> parsing_step cls init s = Inr (b, s1) \<Longrightarrow> seq_ok keeps s1"
proof (erule parsing_step_cases, goal_cases)
  case (2 e m' line later)
  have "keeps m'" if "message_state m' = BODY_PENDING"
    using 2(4) that size_keeps [of "(message_in_progress s)\<lparr>message_state := BODY_PENDING\<rparr>" m'] by (simp add: done_with_headers_def)
  then show ?case using 2 by (simp add: seq_ok_def)
next
  case (3 n m')
  then show ?case using read_outcome [of "message_in_progress s" "seq_buffer s" n m'] by (auto simp: seq_ok_def)
qed (simp_all add: seq_ok_def)

lemma view_cases:
  assumes "seq_view forget s1 = seq_view forget s2"
  obtains (complete) "message_state (message_in_progress s1) = COMPLETE" "message_state (message_in_progress s2) = COMPLETE"
      "forget (message_in_progress s1) = forget (message_in_progress s2)"
  | (other) "message_state (message_in_progress s1) \<noteq> COMPLETE" "s2 = s1\<lparr>complete_messages := complete_messages s2\<rparr>"
proof -
  have v: "seq_buffer s1 = seq_buffer s2" "subclass_members s1 = subclass_members s2"
      "settled forget (message_in_progress s1) = settled forget (message_in_progress s2)"
    using assms by (cases s1; cases s2; simp add: seq_view_def)+
  have "message_state (settled forget m) = message_state m" for m by (simp add: settled_def forget_state)
  then have st: "message_state (message_in_progress s1) = message_state (message_in_progress s2)" using v(3) by metis
  show thesis
  proof (cases "message_state (message_in_progress s1) = COMPLETE")
    case True
    then show thesis using st v(3) by (intro complete) (simp_all add: settled_def)
  next
    case False
    then have "message_in_progress s1 = message_in_progress s2" using st v(3) by (simp add: settled_def)
    with False v(1,2) show thesis by (intro other) simp_all
  qed
qed

lemma view_messages: "seq_view forget s1 = seq_view forget s2 \<Longrightarrow> map forget (complete_messages s1) = map forget (complete_messages s2)"
  by (cases s1; cases s2) (simp add: seq_view_def)

lemma loop_view:
  "seq_view forget s1 = seq_view forget s2 \<Longrightarrow>
     map_sum (\<lambda>e. e) (seq_view forget) (parse_loop cls init s1) = map_sum (\<lambda>e. e) (seq_view forget) (parse_loop cls init s2)"
proof (induction s1 arbitrary: s2 rule: measure_induct_rule [of sequence_rank])
  case (less s1)
  from less.prems show ?case
  proof (cases rule: view_cases)
    case complete
    define t where "t s = s\<lparr>complete_messages := complete_messages s @ [message_in_progress s], message_in_progress := fresh_message cls\<rparr>" for s :: "('a, 'b) message_sequence"
    have p: "parsing_step cls init s1 = Inr (True, t s1)" "parsing_step cls init s2 = Inr (True, t s2)"
      using complete by (simp_all add: parsing_step_def t_def)
    have "seq_view forget (t s1) = seq_view forget (t s2)"
      using less.prems complete view_messages [OF less.prems] by (cases s1; cases s2) (simp add: seq_view_def t_def settled_def)
    from less.IH [OF parsing_step_rank [OF p(1)] this] show ?thesis
      by (simp add: parse_loop.simps [of cls init s1] parse_loop.simps [of cls init s2] p)
  next
    case other
    have p2: "parsing_step cls init s2 = map_sum id (\<lambda>(b, s'). (b, s'\<lparr>complete_messages := complete_messages s2\<rparr>)) (parsing_step cls init s1)"
      using parsing_step_other_messages [OF other(1)] other(2) by metis
    show ?thesis
    proof (cases "parsing_step cls init s1")
      case (Inl e)
      then show ?thesis using p2 by (simp add: parse_loop.simps [of cls init s1] parse_loop.simps [of cls init s2])
    next
      case (Inr r)
      obtain b t where r: "r = (b, t)" by (cases r)
      have "seq_view forget t = seq_view forget (t\<lparr>complete_messages := complete_messages s2\<rparr>)"
        using parsing_step_keeps_messages [OF Inr [unfolded r] other(1)] view_messages [OF less.prems] by (simp add: seq_view_def)
      then show ?thesis using Inr r p2 less.IH [of t "t\<lparr>complete_messages := complete_messages s2\<rparr>"] parsing_step_rank [of cls init s1 t]
        by (cases b) (simp_all add: parse_loop.simps [of cls init s1] parse_loop.simps [of cls init s2])
    qed
  qed
qed

text \<open>A step that waits for the body goes on with the new input as if it had seen all of it at once.\<close>

lemma wait_in_body:
  assumes "keeps m" and "message_state m = BODY_PENDING" and "message_in_progress s = m"
    and "read_in_body cls (seq_buffer s) m = Inr (n, m')" and "message_state m' = BODY_PENDING"
  shows "map_sum (\<lambda>e. e) (seq_view forget) (parse_loop cls init (seq_feed y s)) =
    map_sum (\<lambda>e. e) (seq_view forget) (parse_loop cls init (s\<lparr>seq_buffer := y, message_in_progress := m'\<rparr>))"
proof -
  define b where "b = seq_buffer s"
  have r: "shift_read forget 0 (read_in_body cls (b @ y) m) = shift_read forget (length b) (read_in_body cls y m')"
    using read_more [OF assms(1,2,4,5)] b_def by simp
  define s2 where "s2 = s\<lparr>seq_buffer := y, message_in_progress := m'\<rparr>"
  show ?thesis
  proof (cases "read_in_body cls y m'")
    case (Inl e)
    then have "read_in_body cls (b @ y) m = Inl e" using r by (cases "read_in_body cls (b @ y) m") (auto simp: shift_read_def)
    then show ?thesis using Inl assms b_def
      by (simp add: parse_loop.simps [of cls init "seq_feed y s"] parse_loop.simps [of cls init "s\<lparr>seq_buffer := y, message_in_progress := m'\<rparr>"] parsing_step_def)
  next
    case (Inr z)
    obtain k m2 where z: "read_in_body cls y m' = Inr (k, m2)" using Inr by (cases z) auto
    obtain m3 where m3: "read_in_body cls (b @ y) m = Inr (length b + k, m3)" "settled forget m3 = settled forget m2"
      using r z by (cases "read_in_body cls (b @ y) m") (auto simp: shift_read_def)
    have st: "message_state m3 = message_state m2" using m3(2) by (metis forget_state settled_def)
    define t where "t m = s\<lparr>seq_buffer := drop k y, message_in_progress := m\<rparr>" for m
    have v: "seq_view forget (t m3) = seq_view forget (t m2)" using m3(2) by (simp add: seq_view_def t_def)
    have f: "seq_buffer (seq_feed y s) = b @ y" "message_in_progress (seq_feed y s) = m" using assms(3) b_def by simp_all
    have p: "parsing_step cls init (seq_feed y s) = asserting ((k = length y \<or> message_state m2 = COMPLETE) \<and> k \<le> length y) (Inr (message_state m2 = COMPLETE, t m3))"
      using assms(2) f m3(1) st by (simp add: parsing_step_def pop_bytes_def asserting_def) (simp add: seq_feed_def t_def)
    have p2: "parsing_step cls init s2 = asserting ((k = length y \<or> message_state m2 = COMPLETE) \<and> k \<le> length y) (Inr (message_state m2 = COMPLETE, t m2))"
      using assms(5) z by (simp add: parsing_step_def pop_bytes_def asserting_def s2_def t_def)
    show ?thesis unfolding s2_def [symmetric] parse_loop.simps [of cls init "seq_feed y s"] parse_loop.simps [of cls init s2] p p2
      using v loop_view [OF v] by (simp add: asserting_def)
  qed
qed

lemma loop_feed:
  "seq_ok keeps s \<Longrightarrow> parse_loop cls init s = Inr s1 \<Longrightarrow>
     map_sum (\<lambda>e. e) (seq_view forget) (parse_loop cls init (seq_feed y s)) = map_sum (\<lambda>e. e) (seq_view forget) (parse_loop cls init (seq_feed y s1))"
proof (induction s rule: measure_induct_rule [of sequence_rank])
  case (less s)
  obtain b t where p: "parsing_step cls init s = Inr (b, t)" and t: "if b then parse_loop cls init t = Inr s1 else s1 = t"
    using less.prems(2) by (subst (asm) parse_loop.simps) (auto split: if_splits)
  have IH: "map_sum (\<lambda>e. e) (seq_view forget) (parse_loop cls init (seq_feed y t)) = map_sum (\<lambda>e. e) (seq_view forget) (parse_loop cls init (seq_feed y s1))" if b
    by (rule less.IH [OF _ step_ok [OF less.prems(1) p]]) (use that parsing_step_rank [of cls init s t] p t in simp_all)
  from p show ?case
  proof (cases rule: parsing_step_cases)
    case stop
    then show ?thesis using t by simp
  next
    case (line e m' l later)
    show ?thesis unfolding parse_loop_step [OF line(6)] by (rule IH [OF line(1)])
  next
    case (reads n m')
    have k: "keeps (message_in_progress s)" using less.prems(1) reads(1) by (simp add: seq_ok_def)
    show ?thesis
    proof (cases b)
      case True
      then obtain m2 where m2: "read_in_body cls (seq_buffer s @ y) (message_in_progress s) = Inr (n, m2)" "message_state m2 = COMPLETE" "forget m2 = forget m'"
        using read_complete [OF k reads(1,2)] reads(5) by auto
      define t2 where "t2 = s\<lparr>seq_buffer := drop n (seq_buffer s) @ y, message_in_progress := m2\<rparr>"
      have p2: "parsing_step cls init (seq_feed y s) = Inr (True, t2)"
        using reads(1,4) m2 by (simp add: parsing_step_def pop_bytes_def) (simp add: seq_feed_def t2_def)
      have v: "seq_view forget t2 = seq_view forget (seq_feed y t)"
        using m2 reads(5,6) True by (simp add: t2_def seq_view_def settled_def seq_feed_def)
      show ?thesis unfolding parse_loop_step [OF p2] loop_view [OF v] by (rule IH [OF True])
    next
      case False
      then have m': "message_state m' = BODY_PENDING" "n = length (seq_buffer s)" using reads(3,5) read_outcome [OF k reads(1,2)] by auto
      have "seq_feed y s1 = s\<lparr>seq_buffer := y, message_in_progress := m'\<rparr>" using m'(2) reads(6) t False by (simp add: seq_feed_def)
      then show ?thesis using wait_in_body [OF k reads(1) refl reads(2) m'(1)] by (simp only:)
    qed
  next
    case push
    then have "parsing_step cls init (seq_feed y s) = Inr (True, seq_feed y t)" by (simp add: parsing_step_def seq_feed_def)
    from parse_loop_step [OF this] show ?thesis using IH [OF push(2)] by (simp only:)
  qed
qed

lemma parse_append:
  assumes "seq_ok keeps s" and "x \<noteq> []" and "y \<noteq> []" and "parse cls init x s = Inr s1"
  shows "map_sum (\<lambda>e. e) (seq_view forget) (parse cls init (x @ y) s) = map_sum (\<lambda>e. e) (seq_view forget) (parse cls init y s1)"
proof -
  have p: "parse cls init z s = parse_loop cls init (seq_feed z s)" if "z \<noteq> []" for z s using that by (simp add: parse_def seq_feed_def)
  have ok: "seq_ok keeps (seq_feed x s)" using assms(1) by (simp add: seq_ok_def)
  have e: "seq_feed y (seq_feed x s) = seq_feed (x @ y) s" by (simp add: seq_feed_def)
  have "parse_loop cls init (seq_feed x s) = Inr s1" using assms(2,4) p by simp
  from loop_feed [OF ok this, of y] show ?thesis using assms(2,3) unfolding e by (simp add: p)
qed

lemma loop_ok: "seq_ok keeps s \<Longrightarrow> parse_loop cls init s = Inr s1 \<Longrightarrow> seq_ok keeps s1"
proof (induction s rule: measure_induct_rule [of sequence_rank])
  case (less s)
  obtain b t where p: "parsing_step cls init s = Inr (b, t)" and t: "if b then parse_loop cls init t = Inr s1 else s1 = t"
    using less.prems(2) by (subst (asm) parse_loop.simps) (auto split: if_splits)
  show ?case
    using step_ok [OF less.prems(1) p] t less.IH [of t] parsing_step_rank [of cls init s t] p by (cases b) auto
qed

lemma parse_all_pieces:
  assumes "seq_ok keeps s" and "list_all (\<lambda>x. x \<noteq> []) pieces" and "pieces \<noteq> []" and "parse_all cls init pieces s = Inr s1"
  shows "map_sum (\<lambda>e. e) (seq_view forget) (parse cls init (concat pieces) s) = Inr (seq_view forget s1)"
  using assms
proof (induction pieces arbitrary: s)
  case (Cons x pieces)
  obtain t where t: "parse cls init x s = Inr t" "parse_all cls init pieces t = Inr s1" using Cons.prems(4) by auto
  have x: "x \<noteq> []" "list_all (\<lambda>x. x \<noteq> []) pieces" using Cons.prems(2) by auto
  show ?case
  proof (cases "pieces = []")
    case True
    then show ?thesis using t by simp
  next
    case False
    then have ne: "concat pieces \<noteq> []" using x(2) by (cases pieces) auto
    have "seq_ok keeps (seq_feed x s)" using Cons.prems(1) by (simp add: seq_ok_def)
    moreover have "parse_loop cls init (seq_feed x s) = Inr t" using t(1) x(1) by (simp add: parse_def seq_feed_def)
    ultimately have "seq_ok keeps t" by (rule loop_ok)
    from Cons.IH [OF this x(2) False t(2)] show ?thesis using parse_append [OF Cons.prems(1) x(1) ne t(1)] by simp
  qed
qed simp

end

section \<open>The two classes of messages keep the contract\<close>

lemma set_expected_body_size_Inr [simp]:
  "set_expected_body_size k v m = Inr m' \<longleftrightarrow> message_state m = BODY_PENDING \<and> m' = m\<lparr>expected_size := (k, v)\<rparr>"
  by (auto simp: set_expected_body_size_def)

lemma request_body_size_state: "request_body_size m = Inr m' \<Longrightarrow> message_state m' = BODY_PENDING"
  by (auto simp: request_body_size_def split: if_splits)

interpretation request_reader: body_reader request_class "\<lambda>m. True" "\<lambda>m. m"
  by unfold_locales (auto simp: request_class_def dest: request_body_size_state)

definition response_keeps :: "http_response \<Rightarrow> bool" where
  "response_keeps m \<longleftrightarrow> fst (expected_size m) \<or> (case body_parser m of Some (ChunkedBodyParser q) \<Rightarrow> chunk_inv q | _ \<Rightarrow> True)"

definition forget_parser :: "http_response \<Rightarrow> http_response" where
  "forget_parser m = m\<lparr>body_parser := None\<rparr>"

lemma forget_parser_simps [simp]:
  "message_state (forget_parser m) = message_state m" "response_keeps (m\<lparr>body := b\<rparr>) = response_keeps m"
  by (simp_all add: forget_parser_def response_keeps_def)

lemma response_body_size_Inr:
  "response_body_size m = Inr m' \<Longrightarrow> message_state m' = BODY_PENDING \<and>
     (fst (expected_size m') \<or> body_parser m' = Some Rule5BodyParser \<or> (\<exists>t. body_parser m' = Some (ChunkedBodyParser (mk_chunked_parser t))))"
  by (auto simp: response_body_size_def split: if_splits)

lemma response_complex_rule5:
  "message_state m = BODY_PENDING \<Longrightarrow> body_parser m = Some Rule5BodyParser \<Longrightarrow>
     response_complex_body x m = Inr (length x, m\<lparr>body := body m @ x\<rparr>)"
  by (cases m) (simp add: response_complex_body_def body_read_def)

lemma response_complex_chunked:
  "message_state m = BODY_PENDING \<Longrightarrow> body_parser m = Some (ChunkedBodyParser q) \<Longrightarrow>
     response_complex_body x m =
       (case chunked_read x q of
          Inl e \<Rightarrow> Inl e
        | Inr (None, q1) \<Rightarrow> Inr (length x, m\<lparr>body_parser := Some (ChunkedBodyParser q1), body := body m @ x\<rparr>)
        | Inr (Some n, q1) \<Rightarrow> Inr (n, m\<lparr>body_parser := Some (ChunkedBodyParser q1), body := body m @ take n x, message_state := COMPLETE\<rparr>))"
  by (simp add: response_complex_body_def body_read_def res_bind_def split: sum.split prod.split option.split)

lemma response_complex_cases:
  assumes "response_keeps m" and "message_state m = BODY_PENDING" and "\<not> fst (expected_size m)"
    and "response_complex_body x m = Inr (n, m')"
  obtains (rule5) "body_parser m = Some Rule5BodyParser" "n = length x" "m' = m\<lparr>body := body m @ x\<rparr>"
  | (more_chunks) q q1 where "body_parser m = Some (ChunkedBodyParser q)" "chunk_inv q" "chunked_read x q = Inr (None, q1)" "n = length x"
      "m' = m\<lparr>body_parser := Some (ChunkedBodyParser q1), body := body m @ x\<rparr>"
  | (last_chunk) q q1 where "body_parser m = Some (ChunkedBodyParser q)" "chunk_inv q" "chunked_read x q = Inr (Some n, q1)"
      "m' = m\<lparr>body_parser := Some (ChunkedBodyParser q1), body := body m @ take n x, message_state := COMPLETE\<rparr>"
proof -
  have "body_parser m \<noteq> None" using assms(2,4) by (cases "body_parser m") (simp_all add: response_complex_body_def)
  then consider "body_parser m = Some Rule5BodyParser" | q where "body_parser m = Some (ChunkedBodyParser q)"
    by (metis body_parser.exhaust option.exhaust)
  then show thesis
  proof cases
    case 1
    then show thesis using assms(2,4) by (intro rule5) (simp_all add: response_complex_rule5)
  next
    case (2 q)
    then have "chunk_inv q" using assms(1,3) by (simp add: response_keeps_def)
    then show thesis using 2 assms(2,4) more_chunks last_chunk
      by (fastforce simp: response_complex_chunked split: sum.splits prod.splits option.splits)
  qed
qed

lemma response_complex_outcome:
  assumes "response_keeps m" and "message_state m = BODY_PENDING" and "\<not> fst (expected_size m)" and "response_complex_body x m = Inr (n, m')"
  shows "n \<le> length x \<and> message_state m' = COMPLETE \<or>
    n = length x \<and> message_state m' = BODY_PENDING \<and> \<not> fst (expected_size m') \<and> response_keeps m'"
  using assms
proof (cases rule: response_complex_cases)
  case (more_chunks q q1)
  then show ?thesis using assms(2,3) chunked_read_inv [OF more_chunks(2,3)] by (simp add: response_keeps_def)
next
  case (last_chunk q q1)
  then show ?thesis using chunked_read_end(1) [OF last_chunk(2,3)] by simp
qed (use assms in simp)

lemma response_complex_more:
  assumes "response_keeps m" and "message_state m = BODY_PENDING" and "\<not> fst (expected_size m)" and "response_complex_body x m = Inr (n, m')"
    and "message_state m' = BODY_PENDING"
  shows "shift_read forget_parser 0 (response_complex_body (x @ y) m) = shift_read forget_parser (length x) (response_complex_body y m')"
  using assms(1-4)
proof (cases rule: response_complex_cases)
  case rule5
  then show ?thesis using assms(2) by (simp add: response_complex_rule5 shift_read_def)
next
  case (more_chunks q q1)
  note inc = chunked_read_incremental [OF more_chunks(2,3), of y]
  have m': "message_state m' = BODY_PENDING" "body_parser m' = Some (ChunkedBodyParser q1)" using assms(5) more_chunks(5) by simp_all
  show ?thesis
    unfolding response_complex_chunked [OF assms(2) more_chunks(1)] response_complex_chunked [OF m']
    using inc assms(2)
    by (auto simp: more_chunks(5) shift_read_def settled_def forget_parser_def split: sum.splits prod.splits option.splits)
next
  case (last_chunk q q1)
  then show ?thesis using assms(5) by simp
qed

lemma response_complex_complete:
  assumes "response_keeps m" and "message_state m = BODY_PENDING" and "\<not> fst (expected_size m)" and "response_complex_body x m = Inr (n, m')"
    and "message_state m' = COMPLETE"
  shows "\<exists>m2. response_complex_body (x @ y) m = Inr (n, m2) \<and> message_state m2 = COMPLETE \<and> forget_parser m2 = forget_parser m'"
  using assms(1-4)
proof (cases rule: response_complex_cases)
  case (last_chunk q q1)
  obtain q2 where "chunked_read (x @ y) q = Inr (Some n, q2)" using chunked_read_end(2) [OF last_chunk(2,3)] by blast
  then show ?thesis using assms(2) last_chunk(1,4) chunked_read_end(1) [OF last_chunk(2,3)]
    by (simp add: response_complex_chunked forget_parser_def)
qed (use assms in simp_all)

lemmas response_complex_laws = response_complex_outcome response_complex_more response_complex_complete

interpretation response_reader: body_reader response_class response_keeps forget_parser
proof (unfold_locales, goal_cases)
  case (3 m m')
  then show ?case using response_body_size_Inr [of m m'] chunk_inv_fresh
    by (auto simp: response_class_def response_keeps_def)
qed (simp_all add: response_class_def response_complex_laws)

section \<open>Printing and parsing\<close>

definition line_ok :: "string \<Rightarrow> bool" where
  "line_ok l \<longleftrightarrow> find_str CRLF l = None"

definition header_ok :: "http_header \<Rightarrow> bool" where
  "header_ok h \<longleftrightarrow> CHR '':'' \<notin> set (header_key h) \<and> header_value h \<noteq> [] \<and> hd (header_value h) \<noteq> CHR '' '' \<and> line_ok (header_str h)"

lemma find_line_end:
  assumes "line_ok l"
  shows "find_str CRLF (l @ CRLF @ r) = Some (length l)"
proof (rule find_str_append)
  fix j
  assume j: "j < length l"
  have np: "\<not> prefix CRLF (drop j l)" using find_str_None assms by (simp add: line_ok_def)
  obtain c t where d: "drop j l = c # t" using j by (metis Cons_nth_drop_Suc)
  show "\<not> prefix CRLF (drop j l @ CRLF @ r)" using np unfolding d by (cases t) (auto simp: CRLF_def)
qed

lemma get_and_pop_line_print: "line_ok l \<Longrightarrow> get_and_pop_line (l @ CRLF @ r) = Inr (l, r)"
  using find_line_end [of l r] by (simp add: get_and_pop_line_Inr) (simp add: CRLF_def)

lemma mk_http_header_print: "header_ok h \<Longrightarrow> mk_http_header (header_str h) = Inr h"
proof -
  assume ok: "header_ok h"
  obtain c v where v: "header_value h = c # v" "c \<noteq> CHR '' ''" using ok by (cases "header_value h") (auto simp: header_ok_def)
  have "find_str '':'' (header_str h) = Some (length (header_key h))"
    using find_str_skip [of "'':''" "header_key h" "'' '' @ header_value h"] ok by (simp add: header_str_def header_ok_def)
  then show ?thesis using v by (cases h) (simp add: mk_http_header_def header_str_def Let_def)
qed

lemma header_str_nonempty [simp]: "header_str h \<noteq> []"
  by (simp add: header_str_def)

lemma loop_first_line:
  assumes "message_state (message_in_progress s) = FIRST_LINE_PENDING" and "seq_buffer s = l @ CRLF @ r" and "line_ok l"
    and "init (message_in_progress s) (subclass_members s) = Inr (m, e)" and "message_state m = FIRST_LINE_PENDING"
  shows "parse_loop cls init s =
    parse_loop cls init (s\<lparr>seq_buffer := r, message_in_progress := m\<lparr>first_line := l, message_state := HEADERS_PENDING\<rparr>, subclass_members := e\<rparr>)"
proof (rule parse_loop_step)
  have "get_and_pop_line (seq_buffer s) = Inr (l, r)" using get_and_pop_line_print [OF assms(3)] assms(2) by simp
  then show "parsing_step cls init s = Inr (True, s\<lparr>seq_buffer := r, message_in_progress := m\<lparr>first_line := l, message_state := HEADERS_PENDING\<rparr>, subclass_members := e\<rparr>)"
    using get_and_pop_line_have assms(1,4,5) by (simp add: parsing_step_def set_first_line_def)
qed

lemma loop_headers:
  "message_in_progress s = m \<Longrightarrow> message_state m = HEADERS_PENDING \<Longrightarrow> list_all header_ok hs \<Longrightarrow>
     seq_buffer s = concat (map (\<lambda>h. header_str h @ CRLF) hs) @ r \<Longrightarrow>
     parse_loop cls init s = parse_loop cls init (s\<lparr>seq_buffer := r, message_in_progress := m\<lparr>headers := headers m @ hs\<rparr>\<rparr>)"
proof (induction hs arbitrary: s m)
  case Nil
  then have "s\<lparr>seq_buffer := r, message_in_progress := m\<rparr> = s" by auto
  then show ?case by simp
next
  case (Cons h hs)
  define s' where "s' = s\<lparr>seq_buffer := concat (map (\<lambda>h. header_str h @ CRLF) hs) @ r, message_in_progress := m\<lparr>headers := headers m @ [h]\<rparr>\<rparr>"
  have ok: "header_ok h" "line_ok (header_str h)" using Cons.prems(3) by (auto simp: header_ok_def)
  have g: "get_and_pop_line (seq_buffer s) = Inr (header_str h, concat (map (\<lambda>h. header_str h @ CRLF) hs) @ r)"
    using get_and_pop_line_print [OF ok(2)] Cons.prems(4) by simp
  have "parsing_step cls init s = Inr (True, s')"
    using g get_and_pop_line_have [OF g] Cons.prems(1,2) mk_http_header_print [OF ok(1)] by (simp add: parsing_step_def add_header_def s'_def)
  from parse_loop_step [OF this] show ?case using Cons.IH [of s' "m\<lparr>headers := headers m @ [h]\<rparr>"] Cons.prems by (simp add: s'_def)
qed

lemma loop_blank_line:
  assumes "message_state (message_in_progress s) = HEADERS_PENDING" and "seq_buffer s = CRLF @ r"
    and "calculate_expected_body_size cls ((message_in_progress s)\<lparr>message_state := BODY_PENDING\<rparr>) = Inr m"
  shows "parse_loop cls init s = parse_loop cls init (s\<lparr>seq_buffer := r, message_in_progress := m\<rparr>)"
proof (rule parse_loop_step)
  have g: "get_and_pop_line (seq_buffer s) = Inr ([], r)" using get_and_pop_line_print [of "[]" r] assms(2) by (simp add: line_ok_def CRLF_def)
  then show "parsing_step cls init s = Inr (True, s\<lparr>seq_buffer := r, message_in_progress := m\<rparr>)"
    using get_and_pop_line_have [OF g] assms(1,3) by (simp add: parsing_step_def done_with_headers_def)
qed

text \<open>A body of known size is read to its end and the message completed.\<close>

lemma loop_known_body:
  assumes "message_in_progress s = m" and "message_state m = BODY_PENDING" and "body m = []" and "expected_size m = (True, of_nat (length b))"
    and "length b < 2 ^ 64" and "seq_buffer s = b @ r"
  shows "parse_loop cls init s =
    parse_loop cls init (s\<lparr>seq_buffer := r, complete_messages := complete_messages s @ [m\<lparr>body := b, message_state := COMPLETE\<rparr>],
      message_in_progress := fresh_message cls\<rparr>)"
proof -
  let ?t = "s\<lparr>seq_buffer := r, message_in_progress := m\<lparr>body := b, message_state := COMPLETE\<rparr>\<rparr>"
  have u: "unat (of_nat (length b) :: u64) = length b" using assms(5) by (simp add: unat_of_nat take_bit_nat_eq_self)
  have "read_in_body cls (b @ r) m = Inr (length b, m\<lparr>body := b, message_state := COMPLETE\<rparr>)"
    using assms(2,3,4) u by (simp add: read_in_body_def body_size_is_known_def expected_body_size_def)
  then have p1: "parsing_step cls init s = Inr (True, ?t)" using assms(1,2,6) by (simp add: parsing_step_def pop_bytes_def)
  have "parsing_step cls init ?t = Inr (True, s\<lparr>seq_buffer := r, complete_messages := complete_messages s @ [m\<lparr>body := b, message_state := COMPLETE\<rparr>],
      message_in_progress := fresh_message cls\<rparr>)" by (simp add: parsing_step_def)
  from parse_loop_step [OF p1] parse_loop_step [OF this] show ?thesis by simp
qed

text \<open>Requests that can be printed and read back.\<close>

definition request_ok :: "http_message \<Rightarrow> bool" where
  "request_ok m \<longleftrightarrow> message_state m = COMPLETE \<and> line_ok (first_line m) \<and> list_all header_ok (headers m) \<and> length (body m) < 2 ^ 64 \<and>
     request_body_size (m\<lparr>message_state := BODY_PENDING\<rparr>) = Inr (m\<lparr>message_state := BODY_PENDING\<rparr>) \<and>
     expected_size m = (True, of_nat (length (body m)))"

lemma request_body_size_other:
  "message_state m = BODY_PENDING \<Longrightarrow> request_body_size (m\<lparr>expected_size := e, body := b\<rparr>) = map_sum id (\<lambda>m'. m'\<lparr>body := b\<rparr>) (request_body_size m)"
  by (auto simp: request_body_size_def set_expected_body_size_def has_header_def get_header_value_def res_bind_def
        split: sum.split option.split)

lemma subclass_members_unit [simp]: "(s :: request_parser)\<lparr>subclass_members := ()\<rparr> = s"
  by simp

lemma request_loop_print:
  assumes "request_ok m" and "message_str m = Inr t" and "seq_buffer s = t @ r" and "message_in_progress s = fresh_message request_class"
  shows "parse_loop request_class request_initialize s =
    parse_loop request_class request_initialize (s\<lparr>seq_buffer := r, complete_messages := complete_messages s @ [m]\<rparr>)"
proof -
  let ?P = "parse_loop request_class request_initialize"
  let ?m0 = "mk_http_message\<lparr>first_line := first_line m, message_state := HEADERS_PENDING\<rparr>"
  let ?m2 = "m\<lparr>body := [], message_state := BODY_PENDING\<rparr>"
  note ok = assms(1) [unfolded request_ok_def]
  have t: "t = first_line m @ CRLF @ concat (map (\<lambda>h. header_str h @ CRLF) (headers m)) @ CRLF @ body m"
    using assms(2) by (simp add: message_str_def)
  have f: "fresh_message request_class = mk_http_message"
    by (simp add: fresh_message_def request_class_def mk_http_message_def http_message.defs)
  have "?P s = ?P (s\<lparr>seq_buffer := concat (map (\<lambda>h. header_str h @ CRLF) (headers m)) @ CRLF @ body m @ r, message_in_progress := ?m0\<rparr>)"
    using ok assms(3,4) f by (subst loop_first_line) (auto simp: t request_initialize_def mk_http_message_def)
  also have "\<dots> = ?P (s\<lparr>seq_buffer := CRLF @ body m @ r, message_in_progress := ?m0\<lparr>headers := headers m\<rparr>\<rparr>)"
    using ok by (subst loop_headers) (auto simp: mk_http_message_def)
  also have "\<dots> = ?P (s\<lparr>seq_buffer := body m @ r, message_in_progress := ?m2\<rparr>)"
  proof (subst loop_blank_line)
    have "?m0\<lparr>headers := headers m, message_state := BODY_PENDING\<rparr> = (m\<lparr>message_state := BODY_PENDING\<rparr>)\<lparr>expected_size := (False, - 1), body := []\<rparr>"
      by (cases m) (simp add: mk_http_message_def)
    then show "calculate_expected_body_size request_class ((message_in_progress (s\<lparr>seq_buffer := CRLF @ body m @ r, message_in_progress := ?m0\<lparr>headers := headers m\<rparr>\<rparr>))\<lparr>message_state := BODY_PENDING\<rparr>) = Inr ?m2"
      using ok request_body_size_other [of "m\<lparr>message_state := BODY_PENDING\<rparr>" "[]" "(False, - 1)"] by (simp add: request_class_def)
  qed (simp_all add: mk_http_message_def)
  also have "\<dots> = ?P (s\<lparr>seq_buffer := r, complete_messages := complete_messages s @ [?m2\<lparr>body := body m, message_state := COMPLETE\<rparr>], message_in_progress := fresh_message request_class\<rparr>)"
    using ok by (subst loop_known_body) auto
  also have "?m2\<lparr>body := body m, message_state := COMPLETE\<rparr> = m" using ok by (cases m) simp
  finally show ?thesis using assms(4) by (cases s) simp
qed

lemma request_loop_print_all:
  "list_all2 (\<lambda>m t. request_ok m \<and> message_str m = Inr t) ms ts \<Longrightarrow> seq_buffer s = concat ts @ r \<Longrightarrow>
   message_in_progress s = fresh_message request_class \<Longrightarrow>
   parse_loop request_class request_initialize s =
     parse_loop request_class request_initialize (s\<lparr>seq_buffer := r, complete_messages := complete_messages s @ ms\<rparr>)"
proof (induction ms ts arbitrary: s rule: list_all2_induct)
  case (Cons m ms t ts)
  let ?s = "s\<lparr>seq_buffer := concat ts @ r, complete_messages := complete_messages s @ [m]\<rparr>"
  have "parse_loop request_class request_initialize s = parse_loop request_class request_initialize ?s"
    using Cons by (intro request_loop_print) auto
  also have "\<dots> = parse_loop request_class request_initialize (s\<lparr>seq_buffer := r, complete_messages := complete_messages s @ m # ms\<rparr>)"
    using Cons.IH [of ?s] Cons.prems by simp
  finally show ?case .
next
  case Nil
  then have "s\<lparr>seq_buffer := r\<rparr> = s" by auto
  then show ?case by simp
qed

text \<open>
  C15: Requests survive printing and parsing: the parser turns the concatenated texts of any list of
  well-formed requests, sent one after the other on a connection, back into exactly those requests, and
  is left with an empty buffer, ready for the next one.
\<close>

theorem parse_requests_roundtrip:
  assumes "list_all2 (\<lambda>m t. request_ok m \<and> message_str m = Inr t) ms ts"
  shows "parse_requests (concat ts) mk_request_parser = Inr (mk_request_parser\<lparr>complete_messages := ms\<rparr>)"
proof -
  let ?s = "mk_request_parser\<lparr>seq_buffer := concat ts\<rparr>"
  have "parse_requests (concat ts) mk_request_parser = parse_loop request_class request_initialize ?s"
    by (simp add: parse_requests_def parse_def message_eof_def mk_request_parser_def mk_message_sequence_def)
  also have "\<dots> = parse_loop request_class request_initialize (mk_request_parser\<lparr>complete_messages := ms\<rparr>)"
    using request_loop_print_all [OF assms, of ?s "[]"] by (simp add: mk_request_parser_def mk_message_sequence_def)
  also have "\<dots> = Inr (mk_request_parser\<lparr>complete_messages := ms\<rparr>)"
    by (rule parse_loop_stop) (simp add: parsing_step_def have_complete_line_def mk_request_parser_def mk_message_sequence_def CRLF_def)
  finally show ?thesis .
qed

definition sample_request :: http_message where
  "sample_request =
     \<lparr>expected_size = (True, 3), first_line = ''POST / HTTP/1.1'', headers = [\<lparr>header_key = ''content-length'', header_value = ''3''\<rparr>],
      body = ''abc'', message_state = COMPLETE\<rparr>"

lemma sample_request_ok: "request_ok sample_request"
proof -
  have "line_ok (first_line sample_request)" "list_all header_ok (headers sample_request)" by code_simp+
  moreover have "request_body_size (sample_request\<lparr>message_state := BODY_PENDING\<rparr>) = Inr (sample_request\<lparr>message_state := BODY_PENDING\<rparr>)" by code_simp
  ultimately show ?thesis by (simp add: request_ok_def) (simp add: sample_request_def)
qed

theorem parse_requests_roundtrip_witness:
  "\<exists>t. message_str sample_request = Inr t \<and>
     parse_requests (t @ t) mk_request_parser = Inr (mk_request_parser\<lparr>complete_messages := [sample_request, sample_request]\<rparr>)"
proof -
  obtain t where t: "message_str sample_request = Inr t" by (simp add: message_str_def sample_request_def)
  with parse_requests_roundtrip [of "[sample_request, sample_request]" "[t, t]"] sample_request_ok show ?thesis by simp
qed

text \<open>
  C14: It does not matter how the network cuts a stream of responses: when a fresh response parser that
  waits for any list of requests takes a stream piece by piece without an exception, it takes the whole stream at
  once without one too, and ends with the same messages (up to the spent body parsers of complete
  ones), the same message in progress, the same unparsed bytes and the same requests left. Responses
  of all kinds are included: without a body, of known size, chunked, and ended by the end of the file.
\<close>

theorem parse_responses_incremental:
  assumes "list_all (\<lambda>x. x \<noteq> []) pieces" and "pieces \<noteq> []"
    and "parse_all response_class response_initialize pieces (mk_response_parser\<lparr>subclass_members := reqs\<rparr>) = Inr s1"
  shows "\<exists>s2. parse_responses (concat pieces) (mk_response_parser\<lparr>subclass_members := reqs\<rparr>) = Inr s2 \<and>
    seq_view forget_parser s2 = seq_view forget_parser s1"
proof -
  have "seq_ok response_keeps (mk_response_parser\<lparr>subclass_members := reqs\<rparr>)"
    by (simp add: seq_ok_def mk_response_parser_def mk_message_sequence_def)
  from response_reader.parse_all_pieces [OF this assms] show ?thesis
    by (cases "parse_responses (concat pieces) (mk_response_parser\<lparr>subclass_members := reqs\<rparr>)") (simp_all add: parse_responses_def)
qed

definition sample_pieces :: "string list" where
  "sample_pieces =
     [''HTTP/1.1 200 OK'' @ CRLF @ ''Transfer-Encoding: chun'', ''ked'' @ CRLF @ CRLF @ ''3'', CRLF @ ''abc'' @ CRLF @ ''0'' @ CRLF @ CRLF]"

definition sample_get :: http_message where
  "sample_get = mk_http_message\<lparr>first_line := ''GET / HTTP/1.1'', message_state := COMPLETE, expected_size := (True, 0)\<rparr>"

definition sample_parser :: response_parser where
  "sample_parser = mk_response_parser\<lparr>subclass_members := [sample_get]\<rparr>"

lemma sample_pieces_parse:
  "case parse_all response_class response_initialize sample_pieces sample_parser of
     Inl e \<Rightarrow> False | Inr s \<Rightarrow> map body (complete_messages s) = [''3'' @ CRLF @ ''abc'' @ CRLF @ ''0'' @ CRLF @ CRLF]"
  by code_simp

theorem parse_responses_incremental_witness:
  "\<exists>s1 s2. parse_all response_class response_initialize sample_pieces sample_parser = Inr s1 \<and> length (complete_messages s1) = 1 \<and>
     parse_responses (concat sample_pieces) sample_parser = Inr s2 \<and> seq_view forget_parser s2 = seq_view forget_parser s1"
proof -
  obtain s1 where s1: "parse_all response_class response_initialize sample_pieces sample_parser = Inr s1"
      "map body (complete_messages s1) = [''3'' @ CRLF @ ''abc'' @ CRLF @ ''0'' @ CRLF @ CRLF]"
    using sample_pieces_parse by (auto split: sum.splits)
  have "length (complete_messages s1) = 1" using arg_cong [where f = length, OF s1(2)] by simp
  with s1(1) parse_responses_incremental [of sample_pieces "[sample_get]" s1] show ?thesis
    by (simp add: sample_parser_def) (simp add: sample_pieces_def)
qed

end
