(* ===== verification/Record_Replay.thy ===== *)
theory Record_Replay
  imports Http_Message
begin

text \<open>
  Recording and replaying: \<open>HTTPDiskStore\<close> (src/src/http/backing_store.{hh,cc}) and the CGI program
  src/src/frontend/replayserver.cc. A \<open>request_response\<close> is the message of
  src/src/protobufs/http_record.proto. What the file system answers is an input: a record folder is the
  list of its files in the order of \<open>readdir\<close>, and the environment is a function.

  The lemmas show that the replay server serves the first of the records with the highest score, and
  that a request which was recorded gets the recorded response.
\<close>

section \<open>Model\<close>

datatype scheme = Scheme_HTTP | Scheme_HTTPS

record request_response =
  rr_ip :: string
  rr_port :: u32
  rr_scheme :: scheme
  rr_request :: proto_message
  rr_response :: proto_message

record address =
  address_ip :: string
  address_port :: u16

subsection \<open>The disk store\<close>

definition mk_record :: "address \<Rightarrow> proto_message \<Rightarrow> proto_message \<Rightarrow> request_response" where
  "mk_record server_address req resp =
     \<lparr>rr_ip = address_ip server_address, rr_port = ucast (address_port server_address),
      rr_scheme = (if address_port server_address = 443 then Scheme_HTTPS else Scheme_HTTP),
      rr_request = req, rr_response = resp\<rparr>"

text \<open>\<open>created\<close> and \<open>serialized\<close> are the outcomes of \<open>mkstemp\<close> and of \<open>SerializeToFileDescriptor\<close>.\<close>

definition disk_save :: "bool \<Rightarrow> bool \<Rightarrow> http_response \<Rightarrow> address \<Rightarrow> request_response list \<Rightarrow> request_response list res" where
  "disk_save created serialized response server_address folder =
     (if \<not> created then Inl (Unix_error ''mkstemp'')
      else
        res_bind (toprotobuf (request response)) (\<lambda>req.
        res_bind (toprotobuf response) (\<lambda>resp.
          if \<not> serialized then Inl (Runtime_error ''save_to_disk: failure to serialize HTTP request/response pair'')
          else Inr (folder @ [mk_record server_address req resp]))))"

subsection \<open>The replay server\<close>

type_synonym environment = "string \<Rightarrow> string option"

definition safe_getenv :: "environment \<Rightarrow> string \<Rightarrow> string res" where
  "safe_getenv env key =
     (case env key of None \<Rightarrow> Inl (Runtime_error (''missing environment variable: '' @ key)) | Some v \<Rightarrow> Inr v)"

definition header_match :: "environment \<Rightarrow> string \<Rightarrow> string \<Rightarrow> http_message \<Rightarrow> bool" where
  "header_match env env_var_name header_name saved_request =
     (case env env_var_name of
        None \<Rightarrow> \<not> has_header header_name saved_request
      | Some v \<Rightarrow> has_header header_name saved_request \<and> get_header_value header_name saved_request = Inr v)"

definition strip_query :: "string \<Rightarrow> string" where
  "strip_query request_line = (case find_str ''?'' request_line of None \<Rightarrow> request_line | Some index \<Rightarrow> take index request_line)"

text \<open>The loop over the common prefix, from index \<open>i\<close> on.\<close>

function match_loop :: "string \<Rightarrow> string \<Rightarrow> nat \<Rightarrow> nat" where
  "match_loop a b i =
     (if i < min (length a) (length b) then if a ! i \<noteq> b ! i then i else match_loop a b (i + 1)
      else min (length a) (length b))"
  by pat_completeness auto
termination
  by (relation "measure (\<lambda>(a, b, i). length a - i)") auto

declare match_loop.simps [simp del]

definition match_score :: "environment \<Rightarrow> request_response \<Rightarrow> string \<Rightarrow> bool \<Rightarrow> u32" where
  "match_score env saved_record request_line is_https =
     (let saved_request = from_protobuf (rr_request saved_record) in
      if is_https \<and> rr_scheme saved_record \<noteq> Scheme_HTTPS then 0
      else if \<not> is_https \<and> rr_scheme saved_record \<noteq> Scheme_HTTP then 0
      else if \<not> header_match env ''HTTP_HOST'' ''Host'' saved_request then 0
      else if \<not> header_match env ''HTTP_USER_AGENT'' ''User-Agent'' saved_request then 0
      else if strip_query request_line \<noteq> strip_query (first_line saved_request) then 0
      else of_nat (match_loop request_line (first_line saved_request) 0))"

text \<open>
  The file system: whether \<open>chdir\<close> succeeds, the names \<open>readdir\<close> finds (\<open>None\<close> when \<open>opendir\<close> fails), and
  a file: \<open>open\<close> fails, its contents do not parse, or it holds a record.
\<close>

datatype stored_file = Open_fails | Unparsable | Stored request_response

record filesystem =
  fs_chdir :: "string \<Rightarrow> bool"
  fs_readdir :: "string \<Rightarrow> string list option"
  fs_file :: "string \<Rightarrow> stored_file"

definition list_directory_contents :: "bool \<Rightarrow> filesystem \<Rightarrow> string \<Rightarrow> string list res" where
  "list_directory_contents is_root fs dir =
     assert_not_root is_root
       (case fs_readdir fs dir of
          None \<Rightarrow> Inl (Unix_error (''opendir ('' @ dir @ '')''))
        | Some names \<Rightarrow> Inr (map (\<lambda>d_name. dir @ d_name) (filter (\<lambda>d_name. d_name \<noteq> ''.'' \<and> d_name \<noteq> ''..'') names)))"

definition empty_record :: request_response where
  "empty_record =
     \<lparr>rr_ip = [], rr_port = 0, rr_scheme = Scheme_HTTP,
      rr_request = \<lparr>proto_first_line = [], proto_header = [], proto_body = []\<rparr>,
      rr_response = \<lparr>proto_first_line = [], proto_header = [], proto_body = []\<rparr>\<rparr>"

fun find_best :: "environment \<Rightarrow> filesystem \<Rightarrow> string \<Rightarrow> bool \<Rightarrow> string list \<Rightarrow> u32 \<Rightarrow> request_response \<Rightarrow> (u32 \<times> request_response) res" where
  "find_best env fs request_line is_https [] best_score best_match = Inr (best_score, best_match)"
| "find_best env fs request_line is_https (filename # files) best_score best_match =
     (case fs_file fs filename of
        Open_fails \<Rightarrow> Inl (Unix_error ''open'')
      | Unparsable \<Rightarrow> Inl (Runtime_error (filename @ '': invalid HTTP request/response''))
      | Stored current_record \<Rightarrow>
          let score = match_score env current_record request_line is_https in
          if best_score < score then find_best env fs request_line is_https files score current_record
          else find_best env fs request_line is_https files best_score best_match)"

definition env_request_line :: "environment \<Rightarrow> string res" where
  "env_request_line env =
     res_bind (safe_getenv env ''REQUEST_METHOD'') (\<lambda>m.
     res_bind (safe_getenv env ''REQUEST_URI'') (\<lambda>u.
     res_bind (safe_getenv env ''SERVER_PROTOCOL'') (\<lambda>p. Inr (m @ '' '' @ u @ '' '' @ p))))"

text \<open>
  The program: what it prints, and whether it exits successfully. A thrown exception becomes an error
  page, whose last line \<open>print_exception\<close> makes of the exception; that text is the argument \<open>describe\<close>.
\<close>

definition error_page :: "(error \<Rightarrow> string) \<Rightarrow> error \<Rightarrow> string" where
  "error_page describe e =
     ''HTTP/1.1 500 Internal Server Error'' @ CRLF @ ''Content-Type: text/plain'' @ CRLF @ CRLF @
     ''mahimahi mm-webreplay received an exception:'' @ CRLF @ CRLF @ describe e"

definition not_found_page :: "string \<Rightarrow> string" where
  "not_found_page request_line =
     ''HTTP/1.1 404 Not Found'' @ CRLF @ ''Content-Type: text/plain'' @ CRLF @ CRLF @
     ''replayserver: could not find a match for '' @ request_line @ CRLF"

definition replay_reply :: "environment \<Rightarrow> bool \<Rightarrow> filesystem \<Rightarrow> (string \<times> bool) res" where
  "replay_reply env is_root fs =
     assert_not_root is_root
       (res_bind (safe_getenv env ''MAHIMAHI_CHDIR'') (\<lambda>working_directory.
        res_bind (safe_getenv env ''MAHIMAHI_RECORD_PATH'') (\<lambda>recording_directory.
        res_bind (env_request_line env) (\<lambda>request_line.
          if \<not> fs_chdir fs working_directory then Inl (Unix_error ''chdir'')
          else
            res_bind (list_directory_contents is_root fs recording_directory) (\<lambda>files.
            res_bind (find_best env fs request_line (env ''HTTPS'' \<noteq> None) files 0 empty_record) (\<lambda>(best_score, best_match).
              if 0 < best_score
              then res_bind (message_str (from_protobuf (rr_response best_match))) (\<lambda>text. Inr (text, True))
              else Inr (not_found_page request_line, False)))))))"

definition replayserver :: "(error \<Rightarrow> string) \<Rightarrow> environment \<Rightarrow> bool \<Rightarrow> filesystem \<Rightarrow> string \<times> bool" where
  "replayserver describe env is_root fs =
     (case replay_reply env is_root fs of Inl e \<Rightarrow> (error_page describe e, False) | Inr r \<Rightarrow> r)"

section \<open>The score\<close>

lemma match_loop_common_prefix:
  "i \<le> length a \<Longrightarrow> i \<le> length b \<Longrightarrow> match_loop a b i = i + length (longest_common_prefix (drop i a) (drop i b))"
proof (induction a b i rule: match_loop.induct)
  case (1 a b i)
  show ?case
  proof (cases "i < min (length a) (length b)")
    case True
    then have d: "drop i a = a ! i # drop (i + 1) a" "drop i b = b ! i # drop (i + 1) b" by (auto simp: Cons_nth_drop_Suc)
    show ?thesis using True "1.IH" by (subst match_loop.simps) (simp add: d)
  next
    case False
    then have "drop i a = [] \<or> drop i b = []" by auto
    then show ?thesis using False 1 by (subst match_loop.simps) auto
  qed
qed

lemma match_loop_lcp: "match_loop a b 0 = length (longest_common_prefix a b)"
  using match_loop_common_prefix [of 0 a b] by simp

lemma match_loop_le: "match_loop a b 0 \<le> length a"
  unfolding match_loop_lcp by (simp add: longest_common_prefix_prefix1 prefix_length_le)

lemma match_loop_full: "match_loop a b 0 = length a \<longleftrightarrow> prefix a b"
proof -
  have "length (longest_common_prefix a b) = length a \<longleftrightarrow> longest_common_prefix a b = a"
    by (metis append_eq_conv_conj longest_common_prefix_prefix1 prefix_def take_all_iff order_refl)
  also have "\<dots> \<longleftrightarrow> prefix a b"
    by (metis longest_common_prefix_max_prefix longest_common_prefix_prefix1 longest_common_prefix_prefix2 prefix_order.antisym prefix_order.refl)
  finally show ?thesis by (simp add: match_loop_lcp)
qed

section \<open>The choice of a record\<close>

definition first_best :: "('a \<Rightarrow> u32) \<Rightarrow> 'a list \<Rightarrow> u32 \<Rightarrow> 'a \<Rightarrow> bool" where
  "first_best score recs s r \<longleftrightarrow>
     score r = s \<and> (\<forall>x \<in> set recs. score x \<le> s) \<and> (\<exists>pre post. recs = pre @ r # post \<and> (\<forall>x \<in> set pre. score x < s))"

lemma first_best_Cons:
  "first_best score recs s r \<Longrightarrow> score x < s \<Longrightarrow> first_best score (x # recs) s r"
  unfolding first_best_def by (metis append_Cons leD nle_le set_ConsD)

lemma find_best_spec:
  "map (fs_file fs) files = map Stored recs \<Longrightarrow>
     \<exists>s r. find_best env fs line https files b m = Inr (s, r) \<and>
       (s = b \<and> r = m \<and> (\<forall>x \<in> set recs. match_score env x line https \<le> b) \<or>
        b < s \<and> first_best (\<lambda>x. match_score env x line https) recs s r)"
proof (induction files arbitrary: recs b m)
  case (Cons f files)
  let ?sc = "\<lambda>x. match_score env x line https"
  obtain x rs where r: "recs = x # rs" "fs_file fs f = Stored x" "map (fs_file fs) files = map Stored rs" using Cons.prems by auto
  show ?case
  proof (cases "b < ?sc x")
    case True
    obtain s r' where sr: "find_best env fs line https files (?sc x) x = Inr (s, r')"
        "s = ?sc x \<and> r' = x \<and> (\<forall>y \<in> set rs. ?sc y \<le> ?sc x) \<or> ?sc x < s \<and> first_best ?sc rs s r'"
      using Cons.IH [OF r(3), of "?sc x" x] by blast
    from sr(2) show ?thesis
    proof
      assume a: "s = ?sc x \<and> r' = x \<and> (\<forall>y \<in> set rs. ?sc y \<le> ?sc x)"
      then have "first_best ?sc recs s r'" unfolding first_best_def r(1) by (auto intro: exI [of _ "[]"])
      then show ?thesis using sr(1) True r(2) a by (auto simp: Let_def)
    next
      assume a: "?sc x < s \<and> first_best ?sc rs s r'"
      then have "first_best ?sc recs s r'" unfolding r(1) by (intro first_best_Cons) auto
      then show ?thesis using sr(1) True r(2) a by (auto simp: Let_def)
    qed
  next
    case False
    obtain s r' where sr: "find_best env fs line https files b m = Inr (s, r')"
        "s = b \<and> r' = m \<and> (\<forall>y \<in> set rs. ?sc y \<le> b) \<or> b < s \<and> first_best ?sc rs s r'"
      using Cons.IH [OF r(3), of b m] by blast
    have "?sc x < s" if "b < s" using False that by (meson not_less order.strict_trans1)
    then show ?thesis using sr False r first_best_Cons [of ?sc rs s r' x] by (auto simp: Let_def not_less)
  qed
qed simp

lemma from_toprotobuf:
  "toprotobuf m = Inr p \<Longrightarrow> message_str (from_protobuf p) = message_str m \<and> first_line (from_protobuf p) = first_line m \<and>
     headers (from_protobuf p) = headers m"
proof -
  assume a: "toprotobuf m = Inr p"
  have "map (\<lambda>h. \<lparr>header_key = header_key h, header_value = header_value h\<rparr>) hs = hs" for hs :: "http_header list"
    by (induction hs) simp_all
  then have h: "headers (from_protobuf p) = headers m" using a by (auto simp: toprotobuf_def from_protobuf_def comp_def)
  have "message_state (from_protobuf p) = message_state m" "first_line (from_protobuf p) = first_line m" "body (from_protobuf p) = body m"
    using a by (auto simp: toprotobuf_def from_protobuf_def)
  then show ?thesis using h by (simp add: message_str_def)
qed

lemma message_str_from_protobuf: "\<exists>t. message_str (from_protobuf p) = Inr t"
  by (simp add: message_str_def from_protobuf_def)

text \<open>The inputs of a run in which nothing fails: the folder holds the records \<open>recs\<close>, in the order of the listing.\<close>

definition replay_ready :: "environment \<Rightarrow> filesystem \<Rightarrow> string \<Rightarrow> request_response list \<Rightarrow> bool" where
  "replay_ready env fs line recs \<longleftrightarrow>
     env_request_line env = Inr line \<and>
     (\<exists>cwd dir files. env ''MAHIMAHI_CHDIR'' = Some cwd \<and> env ''MAHIMAHI_RECORD_PATH'' = Some dir \<and> fs_chdir fs cwd \<and>
        list_directory_contents False fs dir = Inr files \<and> map (fs_file fs) files = map Stored recs)"

definition env_score :: "environment \<Rightarrow> string \<Rightarrow> request_response \<Rightarrow> u32" where
  "env_score env line r = match_score env r line (env ''HTTPS'' \<noteq> None)"

lemma replay_reply_best:
  assumes "replay_ready env fs line recs"
  shows "(\<forall>x \<in> set recs. env_score env line x = 0) \<and> replayserver describe env False fs = (not_found_page line, False) \<or>
    (\<exists>s r t. 0 < s \<and> first_best (env_score env line) recs s r \<and> message_str (from_protobuf (rr_response r)) = Inr t \<and>
       replayserver describe env False fs = (t, True))"
proof -
  obtain cwd dir files where r: "env_request_line env = Inr line" "env ''MAHIMAHI_CHDIR'' = Some cwd" "env ''MAHIMAHI_RECORD_PATH'' = Some dir"
      "fs_chdir fs cwd" "list_directory_contents False fs dir = Inr files" "map (fs_file fs) files = map Stored recs"
    using assms by (auto simp: replay_ready_def)
  have e: "env_score env line = (\<lambda>x. match_score env x line (env ''HTTPS'' \<noteq> None))" by (simp add: env_score_def fun_eq_iff)
  obtain s m where f: "find_best env fs line (env ''HTTPS'' \<noteq> None) files 0 empty_record = Inr (s, m)"
      "s = 0 \<and> m = empty_record \<and> (\<forall>x \<in> set recs. env_score env line x \<le> 0) \<or> 0 < s \<and> first_best (env_score env line) recs s m"
    using find_best_spec [OF r(6), of env line "env ''HTTPS'' \<noteq> None" 0 empty_record] unfolding e by blast
  obtain t where t: "message_str (from_protobuf (rr_response m)) = Inr t" using message_str_from_protobuf by blast
  have "replayserver describe env False fs = (if 0 < s then (t, True) else (not_found_page line, False))"
    using r f(1) t by (simp add: replayserver_def replay_reply_def assert_not_root_def safe_getenv_def)
  then show ?thesis using f(2) t by auto
qed

section \<open>Properties\<close>

text \<open>
  C17: The replay server serves the best match: when the folder can be read, it prints the response of
  the first record, in the order of the listing, whose score is the highest, and the page that says
  that there is none exactly when every record has score zero.
\<close>

theorem replay_serves_best:
  assumes "replay_ready env fs line recs"
  shows "(\<forall>x \<in> set recs. env_score env line x = 0) \<and> replayserver describe env False fs = (not_found_page line, False) \<or>
    (\<exists>s r t. 0 < s \<and> first_best (env_score env line) recs s r \<and> message_str (from_protobuf (rr_response r)) = Inr t \<and>
       replayserver describe env False fs = (t, True))"
  using assms by (rule replay_reply_best)

lemma env_score_le:
  assumes "length line < 2 ^ 32"
  shows "env_score env line r \<le> of_nat (length line)"
proof -
  have "(of_nat (match_loop line l 0) :: u32) \<le> of_nat (length line)" for l
    using match_loop_le [of line l] assms by (simp add: word_le_nat_alt unat_of_nat take_bit_nat_eq_self)
  then show ?thesis by (simp add: env_score_def match_score_def Let_def)
qed

lemma header_match_headers: "headers m = headers m' \<Longrightarrow> header_match env v n m = header_match env v n m'"
  by (simp add: header_match_def has_header_def get_header_value_def cong: option.case_cong)

lemma disk_save_Inr:
  assumes "disk_save created serialized resp addr folder = Inr folder'"
  obtains r where "folder' = folder @ [r]" and "toprotobuf (request resp) = Inr (rr_request r)" and "toprotobuf resp = Inr (rr_response r)"
    and "rr_scheme r = (if address_port addr = 443 then Scheme_HTTPS else Scheme_HTTP)"
proof -
  obtain q p where "toprotobuf (request resp) = Inr q" "toprotobuf resp = Inr p" "folder' = folder @ [mk_record addr q p]"
    using assms by (auto simp: disk_save_def split: if_splits)
  then show thesis by (intro that [of "mk_record addr q p"]) (simp_all add: mk_record_def)
qed

text \<open>The text of a message, and when \<open>str\<close> returns it.\<close>

definition printed :: "'a http_message_scheme \<Rightarrow> string" where
  "printed m = first_line m @ CRLF @ concat (map (\<lambda>h. header_str h @ CRLF) (headers m)) @ CRLF @ body m"

lemma message_str_Inr: "message_str m = Inr t \<longleftrightarrow> message_state m = COMPLETE \<and> t = printed m"
  by (auto simp: message_str_def printed_def)

lemma env_score_recorded:
  assumes "first_line (from_protobuf (rr_request r)) = line"
    and "rr_scheme r = (if env ''HTTPS'' \<noteq> None then Scheme_HTTPS else Scheme_HTTP)"
    and "header_match env ''HTTP_HOST'' ''Host'' (from_protobuf (rr_request r))"
    and "header_match env ''HTTP_USER_AGENT'' ''User-Agent'' (from_protobuf (rr_request r))"
  shows "env_score env line r = of_nat (length line)"
proof -
  have "match_loop line line 0 = length line" by (simp add: match_loop_full)
  then show ?thesis using assms by (simp add: env_score_def match_score_def Let_def)
qed

text \<open>
  The program prints the response of a record of the folder in an environment that repeats its request,
  provided no record with a different response matches the whole request line too.
\<close>

lemma record_replayed:
  assumes "replay_ready env fs line recs" and "r0 \<in> set recs" and "first_line (from_protobuf (rr_request r0)) = line"
    and "line \<noteq> []" and "length line < 2 ^ 32"
    and "rr_scheme r0 = (if env ''HTTPS'' \<noteq> None then Scheme_HTTPS else Scheme_HTTP)"
    and "header_match env ''HTTP_HOST'' ''Host'' (from_protobuf (rr_request r0))"
    and "header_match env ''HTTP_USER_AGENT'' ''User-Agent'' (from_protobuf (rr_request r0))"
    and "\<forall>r \<in> set recs. env_score env line r = of_nat (length line) \<longrightarrow> rr_response r = rr_response r0"
  shows "replayserver describe env False fs = (printed (from_protobuf (rr_response r0)), True)"
proof -
  have sc: "env_score env line r0 = of_nat (length line)" using assms(3,6,7,8) by (rule env_score_recorded)
  have "(0 :: u32) < of_nat (length line)" using assms(4,5) by (simp add: word_less_nat_alt unat_of_nat take_bit_nat_eq_self)
  then have "\<not> (\<forall>x \<in> set recs. env_score env line x = 0)" using sc assms(2) by force
  then obtain s r t where s: "first_best (env_score env line) recs s r" "message_str (from_protobuf (rr_response r)) = Inr t"
      "replayserver describe env False fs = (t, True)"
    using replay_reply_best [OF assms(1), of describe] by blast
  have r: "r \<in> set recs" "env_score env line r0 \<le> env_score env line r" using s(1) assms(2) by (auto simp: first_best_def)
  then have "env_score env line r = of_nat (length line)" using env_score_le [OF assms(5), of env r] sc by simp
  then have "rr_response r = rr_response r0" using assms(9) r(1) by blast
  then show ?thesis using s(2,3) by (simp add: message_str_Inr)
qed

text \<open>A recorded exchange, and a folder and an environment that repeat it.\<close>

definition sample_request_message :: http_message where
  "sample_request_message =
     mk_http_message\<lparr>first_line := ''GET /a HTTP/1.1'', headers := [\<lparr>header_key = ''host'', header_value = ''example.org''\<rparr>],
       expected_size := (True, 0), message_state := COMPLETE\<rparr>"

definition sample_response :: http_response where
  "sample_response =
     \<lparr>expected_size = (True, 2), first_line = ''HTTP/1.1 200 OK'', headers = [\<lparr>header_key = ''Content-Length'', header_value = ''2''\<rparr>],
      body = ''ok'', message_state = COMPLETE, request = sample_request_message, body_parser = None\<rparr>"

definition sample_address :: address where
  "sample_address = \<lparr>address_ip = ''10.0.0.1'', address_port = 80\<rparr>"

definition sample_folder :: "request_response list" where
  "sample_folder =
     (case disk_save True True sample_response sample_address [] of Inr folder \<Rightarrow> folder | Inl e \<Rightarrow> [])"

definition sample_env :: environment where
  "sample_env = map_of
     [(''MAHIMAHI_CHDIR'', ''/''), (''MAHIMAHI_RECORD_PATH'', ''/rec/''), (''REQUEST_METHOD'', ''GET''), (''REQUEST_URI'', ''/a''),
      (''SERVER_PROTOCOL'', ''HTTP/1.1''), (''HTTP_HOST'', ''example.org'')]"

definition sample_fs :: filesystem where
  "sample_fs = \<lparr>fs_chdir = (\<lambda>d. True), fs_readdir = (\<lambda>d. Some [''.'', ''save.1'', ''..'']), fs_file = (\<lambda>f. Stored (hd sample_folder))\<rparr>"

lemma sample_save: "disk_save True True sample_response sample_address [] = Inr sample_folder"
  by (simp add: sample_folder_def disk_save_def toprotobuf_def sample_response_def sample_request_message_def)

lemma sample_folder_one: "\<exists>r. sample_folder = [r]"
  by (rule disk_save_Inr [OF sample_save]) (unfold append_Nil, rule exI)

lemma sample_ready: "replay_ready sample_env sample_fs ''GET /a HTTP/1.1'' sample_folder"
proof -
  obtain r where r: "sample_folder = [r]" using sample_folder_one by blast
  have "[Stored (hd sample_folder)] = map Stored sample_folder" unfolding r by simp
  moreover have "env_request_line sample_env = Inr ''GET /a HTTP/1.1''" by code_simp
  ultimately show ?thesis
    by (simp add: replay_ready_def list_directory_contents_def assert_not_root_def sample_fs_def) (simp add: sample_env_def)
qed

theorem replay_serves_best_witness:
  "replay_ready sample_env sample_fs ''GET /a HTTP/1.1'' sample_folder \<and>
   ((\<forall>x \<in> set sample_folder. env_score sample_env ''GET /a HTTP/1.1'' x = 0) \<and>
      replayserver (\<lambda>e. []) sample_env False sample_fs = (not_found_page ''GET /a HTTP/1.1'', False) \<or>
    (\<exists>s r t. 0 < s \<and> first_best (env_score sample_env ''GET /a HTTP/1.1'') sample_folder s r \<and>
       message_str (from_protobuf (rr_response r)) = Inr t \<and> replayserver (\<lambda>e. []) sample_env False sample_fs = (t, True)))"
  using sample_ready replay_serves_best [OF sample_ready, of "\<lambda>e. []"] by (rule conjI)

end
