(* ===== verification/Net_Addresses.thy ===== *)
theory Net_Addresses
  imports Record_Replay File_Desc
begin

text \<open>
  The choice of addresses for a shell: \<open>Address::cgnat\<close> (src/src/util/address.cc) and \<open>Interfaces\<close>
  (src/src/util/interfaces.{hh,cc}). An \<open>address\<close> is what its accessors \<open>ip\<close> and \<open>port\<close> return, so the
  numeric conversions of \<open>getaddrinfo\<close> and \<open>getnameinfo\<close> are the identity on it. The answers of \<open>getifaddrs\<close> and
  the contents of /proc/net/route are inputs. An address read there is in network byte order: on the
  little-endian machines the program runs on, its first byte is the lowest of the number.

  The lemmas show that the search finds the first free addresses, and fails only when there are none.
\<close>

unbundle bit_operations_syntax

section \<open>Model\<close>

definition cgnat :: "u8 \<Rightarrow> address" where
  "cgnat last_octet = \<lparr>address_ip = ''100.64.0.'' @ show_nat (unat last_octet), address_port = 0\<rparr>"

definition ip_of_s_addr :: "u32 \<Rightarrow> string" where
  "ip_of_s_addr a =
     show_nat (unat (a AND 255)) @ ''.'' @ show_nat (unat (drop_bit 8 a AND 255)) @ ''.'' @
     show_nat (unat (drop_bit 16 a AND 255)) @ ''.'' @ show_nat (unat (drop_bit 24 a))"

text \<open>\<open>getifaddrs\<close> finds interfaces, some without an address, some with one of another family.\<close>

datatype ifaddr = No_address | Other_family | Inet address

fun inet_addresses :: "ifaddr list \<Rightarrow> address list" where
  "inet_addresses [] = []"
| "inet_addresses (i # is) = (case i of Inet a \<Rightarrow> a # inet_addresses is | _ \<Rightarrow> inet_addresses is)"

text \<open>The read loop over /proc/net/route, up to the first empty read.\<close>

fun read_routes :: "string res list \<Rightarrow> string \<Rightarrow> string res" where
  "read_routes [] all_routes = Inr all_routes"
| "read_routes (chunk # chunks) all_routes =
     res_bind chunk (\<lambda>new_chunk. if new_chunk = [] then Inr all_routes else read_routes chunks (all_routes @ new_chunk))"

text \<open>\<open>getline\<close> until it fails: a last line without a line end counts when it is not empty.\<close>

fun route_lines :: "string \<Rightarrow> string \<Rightarrow> string list" where
  "route_lines line [] = (if line = [] then [] else [line])"
| "route_lines line (c # cs) = (if c = CHR 0x0A then line # route_lines [] cs else route_lines (line @ [c]) cs)"

definition route_destination :: "string \<Rightarrow> address res" where
  "route_destination line =
     (case find_str [CHR 0x09] line of
        None \<Rightarrow> Inl (Runtime_error ''/proc/net/route line: unknown format'')
      | Some dest_start \<Rightarrow>
          (case find_str_from [CHR 0x09] line (dest_start + 1) of
             None \<Rightarrow> Inl (Runtime_error ''/proc/net/route line: unknown format'')
           | Some dest_end \<Rightarrow>
               if dest_end - (dest_start + 1) \<noteq> 8 then Inl (Runtime_error ''/proc/net/route destination address: unknown format'')
               else
                 res_bind (myatoi 16 (take 8 (drop (dest_start + 1) line))) (\<lambda>v.
                   Inr \<lparr>address_ip = ip_of_s_addr (of_int v), address_port = 0\<rparr>)))"

fun route_addresses :: "string list \<Rightarrow> address list res" where
  "route_addresses [] = Inr []"
| "route_addresses (line # lines) =
     res_bind (route_destination line) (\<lambda>a. res_bind (route_addresses lines) (\<lambda>as. Inr (a # as)))"

definition mk_interfaces :: "ifaddr list option \<Rightarrow> bool \<Rightarrow> string res list \<Rightarrow> address list res" where
  "mk_interfaces ifaddrs open_ok chunks =
     (case ifaddrs of
        None \<Rightarrow> Inl (Unix_error ''getifaddrs'')
      | Some is \<Rightarrow>
          if \<not> open_ok then Inl (Unix_error ''open /proc/net/route'')
          else
            res_bind (read_routes chunks []) (\<lambda>all_routes.
              if all_routes = [] then Inr (inet_addresses is)
              else
                case route_lines [] all_routes of
                  [] \<Rightarrow> Inl (Runtime_error ''/proc/net/route: unknown format'')
                | header_line # lines \<Rightarrow>
                    if find_str ''Iface'' header_line \<noteq> Some 0 then Inl (Runtime_error ''/proc/net/route: unknown format'')
                    else res_bind (route_addresses lines) (\<lambda>as. Inr (inet_addresses is @ as))))"

definition add_address :: "address \<Rightarrow> address list \<Rightarrow> address list" where
  "add_address addr addresses_in_use = addresses_in_use @ [addr]"

definition address_in_use :: "address list \<Rightarrow> address \<Rightarrow> bool" where
  "address_in_use addresses_in_use addr = list_ex (\<lambda>x. address_ip addr = address_ip x) addresses_in_use"

definition no_free_address :: error where
  "no_free_address = Runtime_error ''Interfaces: could not find free interface address''"

function first_unassigned_address :: "address list \<Rightarrow> u16 \<Rightarrow> (address \<times> u16) res" where
  "first_unassigned_address used last_octet =
     (if last_octet \<le> 255 then
        let candidate = cgnat (ucast last_octet) in
        if \<not> address_in_use used candidate then asserting (address_port candidate = 0) (Inr (candidate, last_octet))
        else first_unassigned_address used (last_octet + 1)
      else Inl no_free_address)"
  by pat_completeness auto
termination
proof (relation "measure (\<lambda>(used, i). 256 - unat i)", goal_cases)
  case (2 used i x)
  then have "unat i \<le> 255" by (simp add: word_le_nat_alt)
  moreover from this have "unat (i + 1) = unat i + 1" by (subst unat_add_small) simp_all
  ultimately show ?case by simp
qed simp

declare first_unassigned_address.simps [simp del]

definition two_unassigned_addresses :: "address list \<Rightarrow> address \<Rightarrow> (address \<times> address) res" where
  "two_unassigned_addresses interfaces avoid =
     (let used = add_address avoid interfaces in
      res_bind (first_unassigned_address used 1) (\<lambda>one.
      res_bind (first_unassigned_address used (snd one + 1)) (\<lambda>two.
        Inr (fst one, fst two))))"

section \<open>The search\<close>

text \<open>The reference: the free last octets from \<open>n\<close> on, in order.\<close>

definition free_octets :: "address list \<Rightarrow> nat \<Rightarrow> nat list" where
  "free_octets used n = filter (\<lambda>i. \<not> address_in_use used (cgnat (of_nat i))) [n..<256]"

lemma first_unassigned_search:
  "n \<le> 256 \<Longrightarrow>
     first_unassigned_address used (of_nat n) =
       (case free_octets used n of [] \<Rightarrow> Inl no_free_address | i # is \<Rightarrow> Inr (cgnat (of_nat i), of_nat i))"
proof (induction "256 - n" arbitrary: n)
  case 0
  then have "n = 256" by simp
  then show ?case by (subst first_unassigned_address.simps) (simp add: free_octets_def)
next
  case (Suc k)
  then have n: "n \<le> 255" by simp
  have u: "[n..<256] = n # [Suc n..<256]" using n by (simp add: upt_conv_Cons)
  have le: "(of_nat n :: u16) \<le> 255" using n by (simp add: word_le_nat_alt unat_of_nat take_bit_nat_eq_self)
  have c: "ucast (of_nat n :: u16) = (of_nat n :: u8)" using n by (simp add: unsigned_of_nat take_bit_nat_eq_self)
  show ?case
  proof (cases "address_in_use used (cgnat (of_nat n))")
    case True
    have "first_unassigned_address used (of_nat n) = first_unassigned_address used (of_nat (Suc n))"
      using True le c by (subst first_unassigned_address.simps) (simp add: add.commute)
    also have "\<dots> = (case free_octets used (Suc n) of [] \<Rightarrow> Inl no_free_address | i # is \<Rightarrow> Inr (cgnat (of_nat i), of_nat i))"
      using Suc by (intro Suc.hyps(1)) simp_all
    also have "free_octets used (Suc n) = free_octets used n" using True u by (simp add: free_octets_def)
    finally show ?thesis .
  next
    case False
    then show ?thesis using le c u by (subst first_unassigned_address.simps) (simp add: free_octets_def cgnat_def Let_def)
  qed
qed

lemma free_octets_after:
  assumes "free_octets used n = i # is"
  shows "free_octets used (Suc i) = is" and "n \<le> i" and "i < 256"
proof -
  let ?P = "\<lambda>i. \<not> address_in_use used (cgnat (of_nat i))"
  have i: "i \<in> set (filter ?P [n..<256])" using assms by (simp add: free_octets_def)
  then show n: "n \<le> i" and "i < 256" by auto
  then have u: "[n..<256] = [n..<i] @ i # [Suc i..<256]" using upt_add_eq_append [of n i "256 - i"] upt_conv_Cons [of i 256] by simp
  have "filter ?P [n..<i] = []"
  proof (rule ccontr)
    assume "filter ?P [n..<i] \<noteq> []"
    then obtain j js where j: "filter ?P [n..<i] = j # js" by (cases "filter ?P [n..<i]") auto
    then have "j \<in> set (filter ?P [n..<i])" by simp
    then have "j < i" by simp
    moreover have "filter ?P [n..<256] = j # js @ filter ?P (i # [Suc i..<256])" unfolding u filter_append j by simp
    ultimately show False using assms by (simp add: free_octets_def)
  qed
  moreover have "?P i" using i by simp
  ultimately show "free_octets used (Suc i) = is" using assms u by (simp add: free_octets_def)
qed

lemma two_unassigned_search:
  "two_unassigned_addresses interfaces avoid =
     (case free_octets (add_address avoid interfaces) 1 of
        i # j # is \<Rightarrow> Inr (cgnat (of_nat i), cgnat (of_nat j))
      | _ \<Rightarrow> Inl no_free_address)"
proof -
  let ?u = "add_address avoid interfaces"
  have one: "first_unassigned_address ?u 1 = (case free_octets ?u 1 of [] \<Rightarrow> Inl no_free_address | i # is \<Rightarrow> Inr (cgnat (of_nat i), of_nat i))"
    using first_unassigned_search [of 1 ?u] by simp
  show ?thesis
  proof (cases "free_octets ?u 1")
    case Nil
    then show ?thesis using one by (simp add: two_unassigned_addresses_def Let_def)
  next
    case (Cons i "is")
    note after = free_octets_after [OF Cons]
    have "first_unassigned_address ?u (of_nat (Suc i)) = (case is of [] \<Rightarrow> Inl no_free_address | j # js \<Rightarrow> Inr (cgnat (of_nat j), of_nat j))"
      using first_unassigned_search [of "Suc i" ?u] after by simp
    then show ?thesis using one Cons by (simp add: two_unassigned_addresses_def Let_def add.commute split: list.split)
  qed
qed

text \<open>The two addresses differ, because their last octets do.\<close>

lemma show_nat_inj: "show_nat m = show_nat n \<Longrightarrow> m = n"
proof -
  assume e: "show_nat m = show_nat n"
  have "(m, [] :: string) = scan_digits 10 0 (show_nat m)" by (simp add: scan_digits_show)
  also have "\<dots> = (n, [])" unfolding e by (simp add: scan_digits_show)
  finally show ?thesis by simp
qed

lemma cgnat_inj: "cgnat a = cgnat b \<Longrightarrow> a = b"
  by (auto simp: cgnat_def intro: unsigned_word_eqI dest: show_nat_inj)

lemma two_unassigned_distinct:
  assumes "two_unassigned_addresses interfaces avoid = Inr (a, b)"
  shows "a \<noteq> b" and "\<not> address_in_use (add_address avoid interfaces) a" and "\<not> address_in_use (add_address avoid interfaces) b"
proof -
  let ?u = "add_address avoid interfaces"
  obtain i j "is" where f: "free_octets ?u 1 = i # j # is" and ab: "a = cgnat (of_nat i)" "b = cgnat (of_nat j)"
    using assms by (auto simp: two_unassigned_search split: list.splits)
  have s: "set (free_octets ?u 1) = {k. 1 \<le> k \<and> k < 256 \<and> \<not> address_in_use ?u (cgnat (of_nat k))}" by (auto simp: free_octets_def)
  then have m: "i < 256" "j < 256" "\<not> address_in_use ?u a" "\<not> address_in_use ?u b" using f ab by auto
  then show "\<not> address_in_use ?u a" "\<not> address_in_use ?u b" by simp_all
  have "distinct (free_octets ?u 1)" by (simp add: free_octets_def)
  then have "i \<noteq> j" using f by simp
  moreover have "unat (of_nat k :: u8) = k" if "k < 256" for k using that by (simp add: unat_of_nat take_bit_nat_eq_self)
  ultimately show "a \<noteq> b" using m(1,2) ab cgnat_inj by metis
qed

text \<open>
  C37: A shell gets the first two free addresses of 100.64.0.1 to 100.64.0.255, that is, of those that no
  interface and no route uses and that are not the address to avoid, and an exception exactly when
  there are fewer than two: the search agrees with filtering the list of all last octets.
\<close>

theorem two_unassigned_spec:
  "two_unassigned_addresses interfaces avoid =
     (case free_octets (add_address avoid interfaces) 1 of
        i # j # is \<Rightarrow> Inr (cgnat (of_nat i), cgnat (of_nat j))
      | _ \<Rightarrow> Inl no_free_address)"
  by (rule two_unassigned_search)

end
