(* ===== verification/Sockets.thy ===== *)
theory Sockets
  imports Net_Addresses
begin

text \<open>
  Sockets over the answers of the system: \<open>Socket\<close>, \<open>UDPSocket\<close> and \<open>TCPSocket\<close> (src/src/util/socket.cc) with
  the parts of \<open>Address\<close> they rest on (src/src/util/address.cc), the sockets that pass descriptors
  between processes (src/src/util/socketpair.cc), and TLS sockets (src/src/httpserver/secure_socket.cc). The
  datagram operations \<open>sendto\<close> and \<open>recvfrom\<close> are in Dns_Proxy.thy.

  The lemmas show that a descriptor that is sent is the one that is received, what the TLS
  operations make of the answers of OpenSSL, and that the proxy speaks TLS on port 443 only.
\<close>

section \<open>Addresses\<close>

definition sys :: "string \<Rightarrow> int \<Rightarrow> int res" where
  "sys attempt return_value = (if 0 \<le> return_value then Inr return_value else Inl (Unix_error attempt))"

text \<open>\<open>Address::raw\<close> has room for 128 bytes.\<close>

definition address_of_raw :: "address \<Rightarrow> nat \<Rightarrow> address res" where
  "address_of_raw a sz = (if 128 < sz then Inl (Runtime_error ''invalid sockaddr size'') else Inr a)"

text \<open>
  The constructor that asks \<open>getaddrinfo\<close>: its return value and, on success, the first address with its
  size. The condition on the flags is a disjunction of bits and never 0.
\<close>

definition resolve :: "string \<Rightarrow> string \<Rightarrow> int \<Rightarrow> (address \<times> nat) option \<Rightarrow> address res" where
  "resolve node service gai_ret resolved =
     (if gai_ret \<noteq> 0 then Inl (Unix_error (''getaddrinfo('' @ node @ '':'' @ service @ '', numeric)''))
      else
        case resolved of
          None \<Rightarrow> Inl (Runtime_error ''getaddrinfo returned successfully but with no results'')
        | Some (a, sz) \<Rightarrow> address_of_raw a sz)"

definition ip_port :: "int \<Rightarrow> string \<Rightarrow> string \<Rightarrow> (string \<times> u16) res" where
  "ip_port gni_ret ip port =
     (if gni_ret \<noteq> 0 then Inl (Unix_error ''getnameinfo'')
      else res_bind (myatoi 10 port) (\<lambda>p. Inr (ip, of_int p)))"

section \<open>Sockets\<close>

definition mk_socket :: "int \<Rightarrow> (int \<Rightarrow> file_desc res) \<Rightarrow> file_desc res" where
  "mk_socket ret new_fd = res_bind (sys ''socket'' ret) new_fd"

text \<open>\<open>getsockopt\<close> returns a length and a value.\<close>

definition getsockopt :: "(nat \<times> 'v) option \<Rightarrow> (nat \<times> 'v) res" where
  "getsockopt ans = (case ans of None \<Rightarrow> Inl (Unix_error ''getsockopt'') | Some r \<Rightarrow> Inr r)"

definition setsockopt :: "int \<Rightarrow> unit res" where
  "setsockopt ret = res_bind (sys ''setsockopt'' ret) (\<lambda>_. Inr ())"

definition set_reuseaddr :: "int \<Rightarrow> unit res" where
  "set_reuseaddr ret = setsockopt ret"

definition set_timestamps :: "int \<Rightarrow> unit res" where
  "set_timestamps ret = setsockopt ret"

text \<open>Both are compared with what is expected.\<close>

definition verify_option :: "string \<Rightarrow> (nat \<times> int) option \<Rightarrow> int \<Rightarrow> unit res" where
  "verify_option what ans expected =
     res_bind (getsockopt ans) (\<lambda>(len, actual_value).
       if len \<noteq> 4 \<or> actual_value \<noteq> expected then Inl (Runtime_error (''socket '' @ what @ '' mismatch'')) else Inr ())"

definition socket_of_fd :: "int \<Rightarrow> int \<Rightarrow> (nat \<times> int) option \<Rightarrow> (nat \<times> int) option \<Rightarrow> file_desc \<Rightarrow> file_desc res" where
  "socket_of_fd domain type domain_ans type_ans fd =
     res_bind (verify_option ''domain'' domain_ans domain) (\<lambda>_.
     res_bind (verify_option ''type'' type_ans type) (\<lambda>_. Inr fd))"

definition get_address :: "string \<Rightarrow> (address \<times> nat) option \<Rightarrow> address res" where
  "get_address name_of_function ans =
     (case ans of None \<Rightarrow> Inl (Unix_error name_of_function) | Some (a, sz) \<Rightarrow> address_of_raw a sz)"

definition local_address :: "(address \<times> nat) option \<Rightarrow> address res" where
  "local_address = get_address ''getsockname''"

definition peer_address :: "(address \<times> nat) option \<Rightarrow> address res" where
  "peer_address = get_address ''getpeername''"

definition original_dest :: "(nat \<times> address) option \<Rightarrow> address res" where
  "original_dest ans = res_bind (getsockopt ans) (\<lambda>(len, dstaddr). address_of_raw dstaddr len)"

definition socket_bind :: "int \<Rightarrow> unit res" where
  "socket_bind ret = res_bind (sys ''bind'' ret) (\<lambda>_. Inr ())"

definition socket_connect :: "int \<Rightarrow> unit res" where
  "socket_connect ret = res_bind (sys ''connect'' ret) (\<lambda>_. Inr ())"

definition tcp_listen :: "int \<Rightarrow> unit res" where
  "tcp_listen ret = res_bind (sys ''listen'' ret) (\<lambda>_. Inr ())"

text \<open>A datagram that was cut short is counted as a write before its size is looked at.\<close>

definition udp_send :: "int \<Rightarrow> byte list \<Rightarrow> file_desc \<Rightarrow> unit res \<times> file_desc" where
  "udp_send ret payload fd =
     (case sys ''send'' ret of
        Inl e \<Rightarrow> (Inl e, fd)
      | Inr bytes_sent \<Rightarrow>
          (if bytes_sent \<noteq> int (length payload) then Inl (Runtime_error ''datagram payload too big for send()'') else Inr (),
           register_write (fd\<lparr>fd_sent := fd_sent fd @ [take (nat bytes_sent) payload]\<rparr>)))"

text \<open>
  \<open>accept\<close> registers a read on the listening socket first, whether the call succeeds or not, and the new
  descriptor has to be a TCP socket: family 2, type 1 on Linux.
\<close>

definition tcp_accept :: "int \<Rightarrow> (int \<Rightarrow> file_desc res) \<Rightarrow> (nat \<times> int) option \<Rightarrow> (nat \<times> int) option \<Rightarrow> file_desc \<Rightarrow>
    file_desc res \<times> file_desc" where
  "tcp_accept ret new_fd domain_ans type_ans fd =
     (res_bind (sys ''accept'' ret) (\<lambda>num. res_bind (new_fd num) (socket_of_fd 2 1 domain_ans type_ans)),
      register_read fd)"

section \<open>Passing descriptors\<close>

text \<open>A message with one control message. \<open>SOL_SOCKET\<close> and \<open>SCM_RIGHTS\<close> are both 1, the header has 16 bytes.\<close>

record control_message =
  cmsg_level :: nat
  cmsg_type :: nat
  cmsg_len :: nat
  cmsg_fd :: int

definition CMSG_LEN :: nat where
  "CMSG_LEN = 16 + 4"

definition rights_message :: "file_desc \<Rightarrow> control_message" where
  "rights_message fd = \<lparr>cmsg_level = 1, cmsg_type = 1, cmsg_len = CMSG_LEN, cmsg_fd = fd_num fd\<rparr>"

definition send_fd :: "int \<Rightarrow> file_desc \<Rightarrow> file_desc \<Rightarrow> (control_message \<times> file_desc) res" where
  "send_fd ret fd sock =
     res_bind (sys ''sendmsg'' ret) (\<lambda>n.
       if n \<noteq> 0 then Inl (Runtime_error ''send_fd: sendmsg unexpectedly sent data'')
       else Inr (rights_message fd, register_write sock))"

definition recv_fd :: "int \<Rightarrow> bool \<Rightarrow> control_message option \<Rightarrow> file_desc \<Rightarrow> (int \<times> file_desc) res" where
  "recv_fd ret truncated message sock =
     res_bind (sys ''recvmsg'' ret) (\<lambda>n.
       if n \<noteq> 0 then Inl (Runtime_error ''recv_fd: recvmsg unexpectedly received data'')
       else if truncated then Inl (Runtime_error ''recvmsg: control data was truncated'')
       else
         case message of
           None \<Rightarrow> Inl (Runtime_error ''recvmsg: unexpected control message'')
         | Some m \<Rightarrow>
             if cmsg_level m \<noteq> 1 \<or> cmsg_type m \<noteq> 1 then Inl (Runtime_error ''recvmsg: unexpected control message'')
             else if cmsg_len m \<noteq> CMSG_LEN then Inl (Runtime_error ''recvmsg: unexpected control message length'')
             else Inr (cmsg_fd m, register_read sock))"

lemma fd_passing:
  assumes "send_fd s fd sock = Inr (m, sock')"
  shows "recv_fd 0 False (Some m) other = Inr (fd_num fd, register_read other)"
  using assms by (auto simp: send_fd_def recv_fd_def rights_message_def sys_def split: if_splits)

lemma recv_fd_only_rights:
  assumes "recv_fd ret truncated message sock = Inr (n, sock')"
  shows "\<exists>m. message = Some m \<and> \<not> truncated \<and> cmsg_level m = 1 \<and> cmsg_type m = 1 \<and> cmsg_len m = CMSG_LEN \<and> n = cmsg_fd m"
  using assms by (auto simp: recv_fd_def split: option.splits if_splits)

definition make_pair :: "int \<Rightarrow> (int \<times> int) \<Rightarrow> (int \<Rightarrow> file_desc res) \<Rightarrow> (file_desc \<times> file_desc) res" where
  "make_pair ret pipe new_fd =
     res_bind (sys ''socketpair'' ret) (\<lambda>_.
     res_bind (new_fd (fst pipe)) (\<lambda>a. res_bind (new_fd (snd pipe)) (\<lambda>b. Inr (a, b))))"

section \<open>TLS\<close>

text \<open>
  The locks of OpenSSL: which are held. Taking one that is held waits, the value \<open>None\<close>; giving back one
  that is not is undefined.
\<close>

definition mk_locks :: "nat \<Rightarrow> bool list" where
  "mk_locks num_locks = replicate num_locks False"

definition locking_function :: "bool \<Rightarrow> nat \<Rightarrow> bool list \<Rightarrow> bool list option res" where
  "locking_function lock n locks =
     (if length locks \<le> n then Inl Out_of_range
      else if lock then Inr (if locks ! n then None else Some (locks[n := True]))
      else if \<not> locks ! n then Inl Undefined_behaviour
      else Inr (Some (locks[n := False])))"

lemma lock_excludes:
  assumes "locking_function True n locks = Inr (Some held)"
  shows "locking_function True n held = Inr None" and "locking_function False n held = Inr (Some locks)"
    and "m \<noteq> n \<Longrightarrow> m < length locks \<Longrightarrow> held ! m = locks ! m"
  using assms by (auto simp: locking_function_def list_update_same_conv split: if_splits)

definition ssl_error :: "string \<Rightarrow> error" where
  "ssl_error attempt = Unix_error attempt"

datatype ssl_mode = CLIENT | SERVER

definition mk_ssl_context :: "ssl_mode \<Rightarrow> bool \<Rightarrow> bool \<Rightarrow> bool \<Rightarrow> bool \<Rightarrow> unit res" where
  "mk_ssl_context type ctx_ok certificate_ok key_ok consistent =
     (if \<not> ctx_ok then Inl (ssl_error ''SSL_CTL_new'')
      else if type = SERVER then
        if \<not> certificate_ok then Inl (ssl_error ''SSL_CTX_use_certificate_ASN1'')
        else if \<not> key_ok then Inl (ssl_error ''SSL_CTX_use_RSAPrivateKey_ASN1'')
        else if \<not> consistent then Inl (ssl_error ''SSL_CTX_check_private_key'')
        else Inr ()
      else Inr ())"

definition mk_secure_socket :: "bool \<Rightarrow> bool \<Rightarrow> file_desc \<Rightarrow> file_desc res" where
  "mk_secure_socket ssl_valid set_fd_ok sock =
     (if \<not> ssl_valid then Inl (Runtime_error ''SecureSocket: constructor must be passed valid SSL structure'')
      else if \<not> set_fd_ok then Inl (ssl_error ''SSL_set_fd'')
      else Inr sock)"

text \<open>\<open>connect\<close> fails for 0 only; \<open>accept\<close> succeeds for 1 only, and returns before it registers a read.\<close>

definition secure_connect :: "int \<Rightarrow> file_desc \<Rightarrow> file_desc res" where
  "secure_connect ret sock = (if ret = 0 then Inl (ssl_error ''SSL_connect'') else Inr sock)"

definition secure_accept :: "int \<Rightarrow> file_desc \<Rightarrow> file_desc res" where
  "secure_accept ret sock = (if ret = 1 then Inr sock else Inl (ssl_error ''SSL_accept''))"

datatype ssl_reason = Zero_return | Syscall | Other_reason

text \<open>
  What a call of \<open>SSL_read\<close> gives: its return value, the bytes, how many are left pending, the reason for
  0, and whether the queue of errors is empty.
\<close>

record ssl_answer =
  ssl_ret :: int
  ssl_bytes :: "byte list"
  ssl_pending :: nat
  ssl_get_error :: ssl_reason
  ssl_queue_empty :: bool

definition secure_read :: "ssl_answer \<Rightarrow> file_desc \<Rightarrow> (byte list \<times> file_desc) res" where
  "secure_read ans sock =
     (let buf = take (nat (ssl_ret ans)) (ssl_bytes ans);
          sock1 = sock\<lparr>fd_got := fd_got sock @ [buf]\<rparr>
      in asserting (ssl_pending ans = 0)
           (if ssl_ret ans = 0 then
              case ssl_get_error ans of
                Zero_return \<Rightarrow> Inr ([], register_read (set_eof sock1))
              | Syscall \<Rightarrow> asserting (ssl_queue_empty ans) (Inr ([], register_read (set_eof sock1)))
              | Other_reason \<Rightarrow> Inr ([], register_read sock1)
            else if ssl_ret ans < 0 then Inl (ssl_error ''SSL_read'')
            else Inr (buf, register_read sock1)))"

text \<open>
  \<open>SSL_write\<close> sends all of the message when it returns a positive number, and nothing for 0 or less; the
  code takes 0 for a success.
\<close>

definition secure_write :: "int \<Rightarrow> byte list \<Rightarrow> file_desc \<Rightarrow> file_desc res" where
  "secure_write bytes_written message sock =
     (if bytes_written < 0 then Inl (ssl_error ''SSL_write'')
      else Inr (register_write (sock\<lparr>fd_sent := fd_sent sock @ [if bytes_written = 0 then [] else message]\<rparr>)))"

text \<open>End of file is set by a read of nothing that was a close of the connection, and by nothing else.\<close>

lemma secure_read_eof:
  assumes "secure_read ans sock = Inr (bytes, sock')" and "\<not> fd_eof sock"
  shows "fd_eof sock' \<longleftrightarrow> ssl_ret ans = 0 \<and> ssl_get_error ans \<noteq> Other_reason" and "fd_eof sock' \<Longrightarrow> bytes = []"
  using assms
  by (auto simp: secure_read_def asserting_def register_read_def set_eof_def Let_def split: if_splits ssl_reason.splits)

lemma secure_read_Inr:
  assumes "secure_read ans sock = Inr (bytes, sock')"
  shows "fd_got sock' = fd_got sock @ [bytes]" and "fd_sent sock' = fd_sent sock" and "fd_num sock' = fd_num sock"
    and "read_count sock' = read_count sock + 1"
  using assms
  by (auto simp: secure_read_def asserting_def register_read_def set_eof_def Let_def split: if_splits ssl_reason.splits)

section \<open>Byte streams\<close>

text \<open>
  The operations of the template parameter \<open>SocketType\<close>. Those of a TLS socket depend on the answers of
  OpenSSL, which are indexed by the descriptor and the number of calls before.
\<close>

record socket_type =
  sock_read :: "file_desc \<Rightarrow> (byte list \<times> file_desc) res"
  sock_write :: "byte list \<Rightarrow> file_desc \<Rightarrow> file_desc res"

definition tcp_socket :: socket_type where
  "tcp_socket = \<lparr>sock_read = fd_read BUFFER_SIZE, sock_write = write_all\<rparr>"

definition secure_socket :: "(int \<Rightarrow> nat \<Rightarrow> ssl_answer) \<Rightarrow> (int \<Rightarrow> nat \<Rightarrow> int) \<Rightarrow> socket_type" where
  "secure_socket reads writes =
     \<lparr>sock_read = (\<lambda>fd. secure_read (reads (fd_num fd) (length (fd_got fd))) fd),
      sock_write = (\<lambda>s fd. secure_write (writes (fd_num fd) (length (fd_sent fd))) s fd)\<rparr>"

text \<open>What the proxy needs of either: bytes are delivered and taken, in order, on the one descriptor.\<close>

locale byte_stream =
  fixes sock :: socket_type
  assumes reads: "sock_read sock fd = Inr (buf, fd') \<Longrightarrow>
      fd_got fd' = fd_got fd @ [buf] \<and> fd_sent fd' = fd_sent fd \<and> fd_num fd' = fd_num fd"
    and writes: "sock_write sock s fd = Inr fd' \<Longrightarrow>
      \<exists>xs. fd_sent fd' = fd_sent fd @ xs \<and> concat xs = s \<and> fd_got fd' = fd_got fd \<and> fd_num fd' = fd_num fd"

interpretation tcp: byte_stream tcp_socket
  using fd_read_Inr(2,4,6) write_all_sent by unfold_locales (simp_all add: tcp_socket_def)

lemma secure_socket_stream:
  assumes "\<forall>fd i. writes fd i \<noteq> 0"
  shows "byte_stream (secure_socket reads writes)"
  using assms secure_read_Inr by unfold_locales (auto simp: secure_socket_def secure_write_def register_write_def split: if_splits)

end
