(* ===== verification/Http_Proxy.thy ===== *)
theory Http_Proxy
  imports Http_Parser Record_Replay Poller Sockets
begin

text \<open>
  \<open>HTTPProxy::loop\<close>, src/src/httpserver/http_proxy.cc, the man in the middle of the recording shell:
  four actions of a \<open>Poller\<close> pass requests from the client to the server and responses back, and save
  every response with its request. \<open>proxy_world\<close> holds what the lambdas capture; the backing store is
  its virtual function \<open>save\<close>, and the template parameter \<open>SocketType\<close> is an argument. \<open>proxy_thread\<close> is the
  thread that \<open>handle_tcp\<close> starts for a connection, which speaks TLS to both sides on port 443.

  The lemmas carry an invariant through the poller's loop: the bytes sent to the server are the texts
  of the requests the client sent, and every saved response is paired with its request.
\<close>

unbundle bit_operations_syntax

section \<open>Model\<close>

text \<open>Bytes on a socket and characters of a string.\<close>

definition chars_of :: "byte list \<Rightarrow> string" where
  "chars_of bs = map (\<lambda>b. char_of (unat b)) bs"

definition bytes_of :: "string \<Rightarrow> byte list" where
  "bytes_of cs = map (\<lambda>c. of_nat (of_char c)) cs"

record 'b proxy_world =
  proxy_server :: file_desc
  proxy_client :: file_desc
  request_parser :: request_parser
  response_parser :: response_parser
  backing_store :: 'b

definition proxy_actions :: "socket_type \<Rightarrow> (http_response \<Rightarrow> address \<Rightarrow> 'b \<Rightarrow> 'b res) \<Rightarrow> address \<Rightarrow> 'b proxy_world action list" where
  "proxy_actions sock save server_addr =
     [mk_action proxy_server In
        (\<lambda>s. res_bind (sock_read sock (proxy_server s)) (\<lambda>(buffer, fd).
             res_bind (parse_responses (chars_of buffer) (response_parser s)) (\<lambda>p.
               Inr (Continue, s\<lparr>proxy_server := fd, response_parser := p\<rparr>))))
        (\<lambda>s. \<not> fd_eof (proxy_client s)),
      mk_action proxy_client In
        (\<lambda>s. res_bind (sock_read sock (proxy_client s)) (\<lambda>(buffer, fd).
             res_bind (parse_requests (chars_of buffer) (request_parser s)) (\<lambda>p.
               Inr (Continue, s\<lparr>proxy_client := fd, request_parser := p\<rparr>))))
        (\<lambda>s. \<not> fd_eof (proxy_server s)),
      mk_action proxy_server Out
        (\<lambda>s. res_bind (sequence_front (request_parser s)) (\<lambda>m.
             res_bind (message_str m) (\<lambda>text.
             res_bind (sock_write sock (bytes_of text) (proxy_server s)) (\<lambda>fd.
             res_bind (sequence_pop (request_parser s)) (\<lambda>p.
               Inr (Continue, s\<lparr>proxy_server := fd, response_parser := new_request_arrived m (response_parser s), request_parser := p\<rparr>))))))
        (\<lambda>s. \<not> sequence_empty (request_parser s)),
      mk_action proxy_client Out
        (\<lambda>s. res_bind (sequence_front (response_parser s)) (\<lambda>m.
             res_bind (message_str m) (\<lambda>text.
             res_bind (sock_write sock (bytes_of text) (proxy_client s)) (\<lambda>fd.
             res_bind (save m server_addr (backing_store s)) (\<lambda>st.
             res_bind (sequence_pop (response_parser s)) (\<lambda>p.
               Inr (Continue, s\<lparr>proxy_client := fd, backing_store := st, response_parser := p\<rparr>)))))))
        (\<lambda>s. \<not> sequence_empty (response_parser s))]"

definition proxy_loop :: "socket_type \<Rightarrow> (http_response \<Rightarrow> address \<Rightarrow> 'b \<Rightarrow> 'b res) \<Rightarrow>
    (pollfd list \<Rightarrow> int \<Rightarrow> int \<times> u16 list) list \<Rightarrow> (nat \<times> address) option \<Rightarrow> file_desc \<Rightarrow> file_desc \<Rightarrow> 'b \<Rightarrow>
    (u32 option \<times> 'b proxy_world poller \<times> 'b proxy_world) res" where
  "proxy_loop sock save ks dest server client st =
     res_bind (original_dest dest) (\<lambda>server_addr.
       let s = \<lparr>proxy_server = server, proxy_client = client, request_parser = mk_request_parser,
                response_parser = mk_response_parser, backing_store = st\<rparr>
       in poll_loop (\<lambda>s. Inr (- 1, s)) ks (fold (add_action s) (proxy_actions sock save server_addr) mk_poller) s)"

text \<open>
  The thread asks for the original destination, as the loop does once more, connects a socket to it and,
  on port 443, makes both sockets secure before the loop. An exception ends the thread.
\<close>

record thread_answers =
  dest_answer :: "(nat \<times> address) option"
  server_socket :: "file_desc res"
  connect_answer :: int
  ssl_new_ok :: "bool \<times> bool"
  ssl_set_fd_ok :: "bool \<times> bool"
  ssl_connect_answer :: int
  ssl_accept_answer :: int
  ssl_read_answers :: "int \<Rightarrow> nat \<Rightarrow> ssl_answer"
  ssl_write_answers :: "int \<Rightarrow> nat \<Rightarrow> int"
  dest_answer_in_loop :: "(nat \<times> address) option"

definition proxy_thread :: "(http_response \<Rightarrow> address \<Rightarrow> 'b \<Rightarrow> 'b res) \<Rightarrow> (pollfd list \<Rightarrow> int \<Rightarrow> int \<times> u16 list) list \<Rightarrow>
    thread_answers \<Rightarrow> file_desc \<Rightarrow> 'b \<Rightarrow> (u32 option \<times> 'b proxy_world poller \<times> 'b proxy_world) res" where
  "proxy_thread save ks ans client st =
     res_bind (original_dest (dest_answer ans)) (\<lambda>server_addr.
     res_bind (server_socket ans) (\<lambda>server.
     res_bind (socket_connect (connect_answer ans)) (\<lambda>_.
       if address_port server_addr \<noteq> 443 then proxy_loop tcp_socket save ks (dest_answer_in_loop ans) server client st
       else
         res_bind (mk_secure_socket (fst (ssl_new_ok ans)) (fst (ssl_set_fd_ok ans)) server) (\<lambda>tls_server.
         res_bind (secure_connect (ssl_connect_answer ans) tls_server) (\<lambda>tls_server.
         res_bind (mk_secure_socket (snd (ssl_new_ok ans)) (snd (ssl_set_fd_ok ans)) client) (\<lambda>tls_client.
         res_bind (secure_accept (ssl_accept_answer ans) tls_client) (\<lambda>tls_client.
           proxy_loop (secure_socket (ssl_read_answers ans) (ssl_write_answers ans)) save ks (dest_answer_in_loop ans)
             tls_server tls_client st)))))))"

section \<open>Messages that were parsed before\<close>

lemma chars_bytes [simp]: "chars_of (bytes_of cs) = cs"
proof -
  have "unat (of_nat (of_char c) :: byte) = of_char c" for c :: char
    by (simp add: unat_of_nat take_bit_nat_eq_self)
  then show ?thesis by (simp add: chars_of_def bytes_of_def comp_def)
qed

lemma chars_of_append [simp]: "chars_of (a @ b) = chars_of a @ chars_of b" "chars_of [] = []" "chars_of a = [] \<longleftrightarrow> a = []"
  by (simp_all add: chars_of_def)

definition prepend :: "'a http_message_scheme list \<Rightarrow> ('a, 'e) message_sequence \<Rightarrow> ('a, 'e) message_sequence" where
  "prepend ms s = s\<lparr>complete_messages := ms @ complete_messages s\<rparr>"

lemma prepend_simps [simp]:
  "message_in_progress (prepend ms s) = message_in_progress s" "seq_buffer (prepend ms s) = seq_buffer s"
  "complete_messages (prepend ms s) = ms @ complete_messages s" "subclass_members (prepend ms s) = subclass_members s"
  "prepend [] s = s"
  by (simp_all add: prepend_def)

lemma parsing_step_prepend:
  "parsing_step cls init (prepend ms s) = map_sum (\<lambda>e. e) (\<lambda>(b, s'). (b, prepend ms s')) (parsing_step cls init s)"
proof (cases "message_state (message_in_progress s) = COMPLETE")
  case True
  then show ?thesis by (simp add: parsing_step_def prepend_def)
next
  case False
  show ?thesis
  proof (cases "parsing_step cls init s")
    case (Inl e)
    then show ?thesis using parsing_step_other_messages [OF False, of cls init "ms @ complete_messages s"] by (simp add: prepend_def)
  next
    case (Inr r)
    obtain b s' where r: "r = (b, s')" by (cases r)
    have "complete_messages s' = complete_messages s" using parsing_step_keeps_messages [OF Inr [unfolded r] False] .
    then show ?thesis using Inr r parsing_step_other_messages [OF False, of cls init "ms @ complete_messages s"] by (simp add: prepend_def)
  qed
qed

lemma parse_loop_prepend:
  "parse_loop cls init (prepend ms s) = map_sum (\<lambda>e. e) (prepend ms) (parse_loop cls init s)"
proof (induction s rule: measure_induct_rule [of sequence_rank])
  case (less s)
  show ?case
  proof (cases "parsing_step cls init s")
    case (Inl e)
    then show ?thesis by (simp add: parse_loop.simps [of cls init s] parse_loop.simps [of cls init "prepend ms s"] parsing_step_prepend)
  next
    case (Inr r)
    obtain b s' where r: "r = (b, s')" by (cases r)
    show ?thesis using less.IH [of s'] parsing_step_rank [of cls init s s'] Inr r
      by (cases b) (simp_all add: parse_loop.simps [of cls init s] parse_loop.simps [of cls init "prepend ms s"] parsing_step_prepend)
  qed
qed

section \<open>Requests\<close>

definition request_history :: "byte list \<Rightarrow> http_message list \<Rightarrow> request_parser \<Rightarrow> bool" where
  "request_history bytes ms p \<longleftrightarrow>
     parse_loop request_class request_initialize (seq_feed (chars_of bytes) mk_request_parser) = Inr (prepend ms p)"

lemma request_loop_stopped:
  "parse_loop request_class request_initialize s = Inr s1 \<Longrightarrow> message_state (message_in_progress s1) = FIRST_LINE_PENDING \<Longrightarrow>
     \<not> have_complete_line (seq_buffer s1)"
proof (induction s rule: measure_induct_rule [of sequence_rank])
  case (less s)
  obtain b t where p: "parsing_step request_class request_initialize s = Inr (b, t)"
      and t: "if b then parse_loop request_class request_initialize t = Inr s1 else s1 = t"
    using less.prems(1) by (subst (asm) parse_loop.simps) (auto split: if_splits)
  show ?case
  proof (cases b)
    case True
    then show ?thesis using less.IH [of t] less.prems(2) t p parsing_step_rank [of _ _ s t] by auto
  next
    case False
    from p show ?thesis
    proof (cases rule: parsing_step_cases)
      case (reads n m')
      then show ?thesis using request_reader.read_outcome [OF TrueI reads(1,2)] less.prems(2) t False by auto
    qed (use False t in simp_all)
  qed
qed

lemma history_fresh: "request_history [] [] mk_request_parser"
  unfolding request_history_def
  by (simp add: parse_loop_stop parsing_step_def have_complete_line_def mk_request_parser_def mk_message_sequence_def CRLF_def seq_feed_def)

lemma seq_view_ident: "seq_view (\<lambda>m. m) s = s"
  by (simp add: seq_view_def settled_def)

lemma request_eof:
  assumes "message_eof request_class m = Inr m'"
  shows "message_state m = FIRST_LINE_PENDING \<and> m' = m"
  using assms by (cases "message_state m") (simp_all add: message_eof_def request_class_def)

lemma history_read:
  assumes "request_history bs ms p" and "parse_requests (chars_of buf) p = Inr p'"
  shows "request_history (bs @ buf) ms p'"
proof (cases "buf = []")
  case True
  have f: "message_state (message_in_progress p) = FIRST_LINE_PENDING" and l: "parse_loop request_class request_initialize p = Inr p'"
    using assms(2) True by (auto simp: parse_requests_def parse_def dest!: request_eof)
  have "\<not> have_complete_line (seq_buffer p)"
    using request_loop_stopped [OF assms(1) [unfolded request_history_def]] f by simp
  then have "parsing_step request_class request_initialize p = Inr (False, p)" using f by (simp add: parsing_step_def)
  then have "p' = p" using l parse_loop_stop by fastforce
  then show ?thesis using assms(1) True by simp
next
  case False
  let ?P = "parse_loop request_class request_initialize"
  have l: "?P (seq_feed (chars_of buf) p) = Inr p'" using assms(2) False by (simp add: parse_requests_def parse_def seq_feed_def)
  have "map_sum (\<lambda>e. e) (seq_view (\<lambda>m. m)) (?P (seq_feed (chars_of buf) (seq_feed (chars_of bs) mk_request_parser))) =
      map_sum (\<lambda>e. e) (seq_view (\<lambda>m. m)) (?P (seq_feed (chars_of buf) (prepend ms p)))"
    by (rule request_reader.loop_feed [OF _ assms(1) [unfolded request_history_def]]) (simp add: seq_ok_def)
  moreover have "seq_feed (chars_of buf) (prepend ms p) = prepend ms (seq_feed (chars_of buf) p)" by (simp add: seq_feed_def prepend_def)
  moreover have "seq_feed (chars_of buf) (seq_feed (chars_of bs) mk_request_parser) = seq_feed (chars_of (bs @ buf)) mk_request_parser"
    by (simp add: seq_feed_def)
  ultimately show ?thesis
    by (cases "?P (seq_feed (chars_of (bs @ buf)) mk_request_parser)") (simp_all add: parse_loop_prepend l seq_view_ident request_history_def)
qed

lemma history_pop:
  "request_history bs ms p \<Longrightarrow> complete_messages p = m # rest \<Longrightarrow> request_history bs (ms @ [m]) (p\<lparr>complete_messages := rest\<rparr>)"
  by (simp add: request_history_def prepend_def)

section \<open>Responses\<close>

text \<open>The requests whose responses are still to be sent to the client, in order.\<close>

definition expected_requests :: "response_parser \<Rightarrow> http_message list" where
  "expected_requests p =
     map request (complete_messages p) @
     (if message_state (message_in_progress p) = FIRST_LINE_PENDING then [] else [request (message_in_progress p)]) @
     subclass_members p"

lemma response_body_size_request: "response_body_size m = Inr m' \<Longrightarrow> request m' = request m"
  by (auto simp: response_body_size_def res_bind_def asserting_def set_expected_body_size_def
        simp del: res_bind_Inr_iff asserting_simps split: if_split_asm sum.splits)

lemma response_complex_request: "response_complex_body x m = Inr (n, m') \<Longrightarrow> request m' = request m"
  by (auto simp: response_complex_body_def Let_def res_bind_def asserting_def simp del: res_bind_Inr_iff asserting_simps
        split: if_split_asm option.splits sum.splits prod.splits)

lemma response_read_request:
  assumes "message_state m = BODY_PENDING" and "read_in_body response_class x m = Inr (n, m')"
  shows "request m' = request m"
proof (cases "fst (expected_size m)")
  case True
  then show ?thesis using assms by (auto simp: response_reader.read_in_body_known Let_def)
next
  case False
  then have "response_complex_body x m = Inr (n, m')" using assms by (simp add: response_reader.read_in_body_unknown) (simp add: response_class_def)
  then show ?thesis by (rule response_complex_request)
qed

lemma response_line_request:
  assumes "message_state m = HEADERS_PENDING"
    and "(if line = [] then done_with_headers response_class m else add_header line m) = Inr m'"
  shows "request m' = request m" and "message_state m' \<noteq> FIRST_LINE_PENDING"
proof -
  note size = response_body_size_request [of "m\<lparr>message_state := BODY_PENDING\<rparr>" m'] response_body_size_Inr [of "m\<lparr>message_state := BODY_PENDING\<rparr>" m']
  show "request m' = request m" "message_state m' \<noteq> FIRST_LINE_PENDING"
    using assms size by (auto simp: done_with_headers_def add_header_def response_class_def split: if_splits)
qed

lemma response_step_expected:
  assumes "parsing_step response_class response_initialize p = Inr (b, p')" and "seq_ok response_keeps p"
  shows "expected_requests p' = expected_requests p"
proof (cases "message_state (message_in_progress p)")
  case FIRST_LINE_PENDING
  then show ?thesis using assms(1)
    by (auto simp: parsing_step_def expected_requests_def response_initialize_def set_request_def set_first_line_def split: if_splits list.splits)
next
  case HEADERS_PENDING
  show ?thesis
  proof (cases "have_complete_line (seq_buffer p)")
    case True
    obtain line later m' where r: "(if line = [] then done_with_headers response_class (message_in_progress p) else add_header line (message_in_progress p)) = Inr m'"
        "p' = p\<lparr>seq_buffer := later, message_in_progress := m'\<rparr>"
      using assms(1) HEADERS_PENDING True by (auto simp: parsing_step_def)
    then show ?thesis using response_line_request [OF HEADERS_PENDING r(1)] HEADERS_PENDING by (simp add: expected_requests_def)
  qed (use assms(1) HEADERS_PENDING in \<open>simp add: parsing_step_def\<close>)
next
  case BODY_PENDING
  then obtain n m' where r: "read_in_body response_class (seq_buffer p) (message_in_progress p) = Inr (n, m')"
      "p' = p\<lparr>seq_buffer := drop n (seq_buffer p), message_in_progress := m'\<rparr>"
    using assms(1) by (auto simp: parsing_step_def pop_bytes_def)
  have "message_state m' \<noteq> FIRST_LINE_PENDING"
    using response_reader.read_outcome [OF _ BODY_PENDING r(1)] assms(2) BODY_PENDING by (auto simp: seq_ok_def)
  then show ?thesis using r response_read_request [OF BODY_PENDING r(1)] BODY_PENDING by (simp add: expected_requests_def)
next
  case COMPLETE
  then show ?thesis using assms(1) by (auto simp: parsing_step_def expected_requests_def)
qed

lemma response_loop_expected:
  "parse_loop response_class response_initialize p = Inr p' \<Longrightarrow> seq_ok response_keeps p \<Longrightarrow>
     expected_requests p' = expected_requests p \<and> seq_ok response_keeps p'"
proof (induction p rule: measure_induct_rule [of sequence_rank])
  case (less p)
  obtain b t where s: "parsing_step response_class response_initialize p = Inr (b, t)"
      and t: "if b then parse_loop response_class response_initialize t = Inr p' else p' = t"
    using less.prems(1) by (subst (asm) parse_loop.simps) (auto split: if_splits)
  show ?case
    using response_step_expected [OF s less.prems(2)] response_reader.step_ok [OF less.prems(2) s] t less.IH [of t] parsing_step_rank [of _ _ p t] s
    by (cases b) auto
qed

lemma response_eof:
  assumes "message_eof response_class m = Inr m'"
  shows "request m' = request m" and "(message_state m' = FIRST_LINE_PENDING) = (message_state m = FIRST_LINE_PENDING)"
    and "message_state m' = BODY_PENDING \<Longrightarrow> m' = m"
  using assms by (cases "message_state m"; auto simp: message_eof_def split: if_splits)+

lemma parse_responses_expected:
  assumes "parse_responses x p = Inr p'" and "seq_ok response_keeps p"
  shows "expected_requests p' = expected_requests p \<and> seq_ok response_keeps p'"
proof -
  obtain m where m: "if x = [] then message_eof response_class (message_in_progress p) = Inr m else m = message_in_progress p"
      and l: "parse_loop response_class response_initialize (p\<lparr>message_in_progress := m, seq_buffer := seq_buffer p @ x\<rparr>) = Inr p'"
    using assms(1) by (auto simp: parse_responses_def parse_def split: if_splits)
  have "seq_ok response_keeps (p\<lparr>message_in_progress := m, seq_buffer := seq_buffer p @ x\<rparr>)"
    using m assms(2) response_eof(3) [of "message_in_progress p" m] by (auto simp: seq_ok_def split: if_splits)
  moreover have "expected_requests (p\<lparr>message_in_progress := m, seq_buffer := seq_buffer p @ x\<rparr>) = expected_requests p"
    using m response_eof(1,2) [of "message_in_progress p" m] by (auto simp: expected_requests_def split: if_splits)
  ultimately show ?thesis using response_loop_expected [OF l] by simp
qed

section \<open>The invariant of the loop\<close>

declare message_str_Inr [simp]

lemma printed_from_protobuf: "toprotobuf m = Inr p \<Longrightarrow> printed (from_protobuf p) = printed m"
  using from_toprotobuf [of m p] by (auto simp: toprotobuf_def from_protobuf_def printed_def)

definition stored_requests :: "request_response list \<Rightarrow> string list" where
  "stored_requests st = map (\<lambda>r. printed (from_protobuf (rr_request r))) st"

definition stored_responses :: "request_response list \<Rightarrow> string list" where
  "stored_responses st = map (\<lambda>r. printed (from_protobuf (rr_response r))) st"

definition proxy_inv :: "request_response list proxy_world \<Rightarrow> bool" where
  "proxy_inv s \<longleftrightarrow> seq_ok response_keeps (response_parser s) \<and>
     (\<exists>ms. request_history (concat (fd_got (proxy_client s))) ms (request_parser s) \<and>
        chars_of (concat (fd_sent (proxy_server s))) = concat (map printed ms) \<and>
        map printed ms = stored_requests (backing_store s) @ map printed (expected_requests (response_parser s))) \<and>
     chars_of (concat (fd_sent (proxy_client s))) = concat (stored_responses (backing_store s))"

lemma expected_new_request: "expected_requests (new_request_arrived m p) = expected_requests p @ [m]"
  by (simp add: expected_requests_def new_request_arrived_def)

lemma sequence_front_Inr: "sequence_front p = Inr m \<Longrightarrow> \<exists>rest. complete_messages p = m # rest \<and> sequence_pop p = Inr (p\<lparr>complete_messages := rest\<rparr>)"
  by (auto simp: sequence_front_def sequence_pop_def split: list.splits)

lemmas proxy_simps = proxy_actions_def mk_action_def numeral_2_eq_2 numeral_3_eq_3

context byte_stream
begin

text \<open>The four callbacks, one by one.\<close>

lemma proxy_read_server:
  assumes "proxy_inv s" and "sock_read sock (proxy_server s) = Inr (buf, fd)" and "parse_responses (chars_of buf) (response_parser s) = Inr p"
  shows "proxy_inv (s\<lparr>proxy_server := fd, response_parser := p\<rparr>)"
  using assms(1) parse_responses_expected [OF assms(3)] reads [OF assms(2)] by (simp add: proxy_inv_def)

lemma proxy_read_client:
  assumes "proxy_inv s" and "sock_read sock (proxy_client s) = Inr (buf, fd)" and "parse_requests (chars_of buf) (request_parser s) = Inr p"
  shows "proxy_inv (s\<lparr>proxy_client := fd, request_parser := p\<rparr>)"
  using assms(1) history_read [OF _ assms(3)] reads [OF assms(2)] by (auto simp: proxy_inv_def)

lemma proxy_write_server:
  assumes "proxy_inv s" and "complete_messages (request_parser s) = m # rest" and "sock_write sock (bytes_of (printed m)) (proxy_server s) = Inr fd"
  shows "proxy_inv (s\<lparr>proxy_server := fd, response_parser := new_request_arrived m (response_parser s),
    request_parser := (request_parser s)\<lparr>complete_messages := rest\<rparr>\<rparr>)"
proof -
  obtain ms where ms: "request_history (concat (fd_got (proxy_client s))) ms (request_parser s)"
      "chars_of (concat (fd_sent (proxy_server s))) = concat (map printed ms)"
      "map printed ms = stored_requests (backing_store s) @ map printed (expected_requests (response_parser s))"
    using assms(1) by (auto simp: proxy_inv_def)
  obtain xs where "fd_sent fd = fd_sent (proxy_server s) @ xs" "concat xs = bytes_of (printed m)"
    using writes [OF assms(3)] by blast
  then have "chars_of (concat (fd_sent fd)) = concat (map printed (ms @ [m]))" using ms(2) by simp
  moreover have "seq_ok response_keeps (new_request_arrived m (response_parser s))"
    using assms(1) by (simp add: proxy_inv_def seq_ok_def new_request_arrived_def)
  ultimately show ?thesis using assms(1) ms(3) history_pop [OF ms(1) assms(2)]
    unfolding proxy_inv_def by (simp add: expected_new_request del: map_append) (intro exI [of _ "ms @ [m]"], simp)
qed

lemma proxy_write_client:
  assumes "proxy_inv s" and "complete_messages (response_parser s) = m # rest" and "sock_write sock (bytes_of (printed m)) (proxy_client s) = Inr fd"
    and "disk_save c z m addr (backing_store s) = Inr st"
  shows "proxy_inv (s\<lparr>proxy_client := fd, backing_store := st, response_parser := (response_parser s)\<lparr>complete_messages := rest\<rparr>\<rparr>)"
proof -
  obtain r where r: "st = backing_store s @ [r]" "toprotobuf (request m) = Inr (rr_request r)" "toprotobuf m = Inr (rr_response r)"
    using disk_save_Inr [OF assms(4)] .
  have sr: "stored_requests st = stored_requests (backing_store s) @ [printed (request m)]" "stored_responses st = stored_responses (backing_store s) @ [printed m]"
    using printed_from_protobuf [OF r(2)] printed_from_protobuf [OF r(3)] by (simp_all add: r(1) stored_requests_def stored_responses_def)
  obtain xs where xs: "fd_sent fd = fd_sent (proxy_client s) @ xs" "concat xs = bytes_of (printed m)" "fd_got fd = fd_got (proxy_client s)"
    using writes [OF assms(3)] by blast
  have "expected_requests (response_parser s) = request m # expected_requests ((response_parser s)\<lparr>complete_messages := rest\<rparr>)"
    using assms(2) by (simp add: expected_requests_def)
  then show ?thesis using assms(1) sr xs by (simp add: proxy_inv_def seq_ok_def)
qed

lemma proxy_callback_keeps:
  assumes "i < length (proxy_actions sock (disk_save c z) addr)" and "proxy_inv s" and "callback (proxy_actions sock (disk_save c z) addr ! i) s = Inr (r, s')"
  shows "proxy_inv s' \<and> fd_num (proxy_server s') = fd_num (proxy_server s) \<and> fd_num (proxy_client s') = fd_num (proxy_client s)"
proof -
  have "i = 0 \<or> i = 1 \<or> i = 2 \<or> i = 3" using assms(1) by (auto simp: proxy_actions_def)
  then consider "i = 0" | "i = 1" | "i = 2" | "i = 3" by blast
  then show ?thesis
  proof cases
    case 1
    then obtain buf fd p where x: "sock_read sock (proxy_server s) = Inr (buf, fd)" "parse_responses (chars_of buf) (response_parser s) = Inr p"
        "s' = s\<lparr>proxy_server := fd, response_parser := p\<rparr>"
      using assms(3) by (auto simp: proxy_simps)
    then show ?thesis using proxy_read_server [OF assms(2) x(1,2)] reads [OF x(1)] by simp
  next
    case 2
    then obtain buf fd p where x: "sock_read sock (proxy_client s) = Inr (buf, fd)" "parse_requests (chars_of buf) (request_parser s) = Inr p"
        "s' = s\<lparr>proxy_client := fd, request_parser := p\<rparr>"
      using assms(3) by (auto simp: proxy_simps)
    then show ?thesis using proxy_read_client [OF assms(2) x(1,2)] reads [OF x(1)] by simp
  next
    case 3
    then obtain m fd p where x: "sequence_front (request_parser s) = Inr m" "sock_write sock (bytes_of (printed m)) (proxy_server s) = Inr fd"
        "sequence_pop (request_parser s) = Inr p"
        "s' = s\<lparr>proxy_server := fd, response_parser := new_request_arrived m (response_parser s), request_parser := p\<rparr>"
      using assms(3) by (auto simp: proxy_simps)
    obtain rest where "complete_messages (request_parser s) = m # rest" "p = (request_parser s)\<lparr>complete_messages := rest\<rparr>"
      using sequence_front_Inr [OF x(1)] x(3) by auto
    then show ?thesis using proxy_write_server [OF assms(2) _ x(2)] writes [OF x(2)] x(4) by auto
  next
    case 4
    then obtain m fd st p where x: "sequence_front (response_parser s) = Inr m" "sock_write sock (bytes_of (printed m)) (proxy_client s) = Inr fd"
        "disk_save c z m addr (backing_store s) = Inr st" "sequence_pop (response_parser s) = Inr p"
        "s' = s\<lparr>proxy_client := fd, backing_store := st, response_parser := p\<rparr>"
      using assms(3) by (auto simp: proxy_simps)
    obtain rest where "complete_messages (response_parser s) = m # rest" "p = (response_parser s)\<lparr>complete_messages := rest\<rparr>"
      using sequence_front_Inr [OF x(1)] x(4) by auto
    then show ?thesis using proxy_write_client [OF assms(2) _ x(2,3)] writes [OF x(2)] x(5) by auto
  qed
qed

end

sublocale byte_stream < proxy: handlers "proxy_actions sock (disk_save c z) addr" proxy_inv "\<lambda>i s. True" "\<lambda>err. True" for c z addr
proof (unfold_locales, goal_cases)
  case (2 i s r s')
  from proxy_callback_keeps [OF 2(1,2,4)] show ?case by (auto simp: proxy_actions_def mk_action_def)
qed simp_all

lemma parse_requests_fresh: "parse_requests x mk_request_parser = parse_loop request_class request_initialize (seq_feed x mk_request_parser)"
  by (simp add: parse_requests_def parse_def seq_feed_def message_eof_def mk_request_parser_def mk_message_sequence_def)

text \<open>What the recorded world says about the two connections.\<close>

definition recorded_faithfully :: "request_response list proxy_world \<Rightarrow> http_message list \<Rightarrow> bool" where
  "recorded_faithfully s ms \<longleftrightarrow>
     parse_requests (chars_of (concat (fd_got (proxy_client s)))) mk_request_parser = Inr (prepend ms (request_parser s)) \<and>
     chars_of (concat (fd_sent (proxy_server s))) = concat (map printed ms) \<and>
     map printed ms = stored_requests (backing_store s) @ map printed (expected_requests (response_parser s)) \<and>
     chars_of (concat (fd_sent (proxy_client s))) = concat (stored_responses (backing_store s))"

context byte_stream
begin

lemma loop_records:
  assumes "proxy_loop sock (disk_save c z) ks dest server client [] = Inr (x, po, s)" and "list_all honest ks"
    and "fd_got client = []" and "fd_sent client = []" and "fd_sent server = []"
  shows "\<exists>ms. recorded_faithfully s ms"
proof -
  let ?s = "\<lparr>proxy_server = server, proxy_client = client, request_parser = mk_request_parser,
      response_parser = mk_response_parser, backing_store = []\<rparr> :: request_response list proxy_world"
  obtain addr where d: "original_dest dest = Inr addr" using assms(1) by (auto simp: proxy_loop_def)
  let ?po = "fold (add_action ?s) (proxy_actions sock (disk_save c z) addr) mk_poller"
  have po: "poller_ok ?po ?s" "actions ?po = proxy_actions sock (disk_save c z) addr"
    using poller_ok_fold [OF poller_ok_empty, of ?s "proxy_actions sock (disk_save c z) addr"] by (simp_all add: mk_poller_def)
  have "proxy_inv ?s"
    using assms(3,4,5) history_fresh
    by (auto simp: proxy_inv_def seq_ok_def mk_response_parser_def mk_message_sequence_def stored_requests_def stored_responses_def
        expected_requests_def)
  moreover have w: "proxy.waits c z addr (\<lambda>s. Inr (- 1, s))" by (simp add: proxy.waits_def)
  ultimately have "proxy_inv s"
    using proxy.loop_keeps [OF w, of ks ?po ?s] assms(1,2) po d by (simp add: list_all2_refl proxy_loop_def Let_def)
  then show ?thesis unfolding proxy_inv_def request_history_def parse_requests_fresh recorded_faithfully_def by blast
qed

end

section \<open>Properties\<close>

lemmas secure_thread_defs = mk_secure_socket_def secure_connect_def secure_accept_def

lemma thread_records:
  assumes "proxy_thread (disk_save c z) ks ans client [] = Inr (x, po, s)" and "list_all honest ks"
    and "fd_got client = []" and "fd_sent client = []" and "\<And>server. server_socket ans = Inr server \<Longrightarrow> fd_sent server = []"
    and "\<forall>fd i. ssl_write_answers ans fd i \<noteq> 0"
  shows "\<exists>ms. recorded_faithfully s ms"
proof -
  obtain addr server where a: "original_dest (dest_answer ans) = Inr addr" "server_socket ans = Inr server"
    using assms(1) by (auto simp: proxy_thread_def)
  let ?tls = "secure_socket (ssl_read_answers ans) (ssl_write_answers ans)"
  have "\<exists>sock. byte_stream sock \<and> proxy_loop sock (disk_save c z) ks (dest_answer_in_loop ans) server client [] = Inr (x, po, s)"
  proof (cases "address_port addr = 443")
    case True
    then have "proxy_loop ?tls (disk_save c z) ks (dest_answer_in_loop ans) server client [] = Inr (x, po, s)"
      using assms(1) a by (auto simp: proxy_thread_def secure_thread_defs split: if_splits)
    then show ?thesis using secure_socket_stream [OF assms(6)] by blast
  next
    case False
    then show ?thesis using assms(1) a tcp.byte_stream_axioms by (auto simp: proxy_thread_def)
  qed
  then show ?thesis using byte_stream.loop_records assms(2,3,4) assms(5) [OF a(2)] by blast
qed

text \<open>
  C7: The recording proxy is transparent and records faithfully, over plain and over secure sockets.
  However the bytes arrive and however the polls are answered, after any number of them: the requests
  \<open>ms\<close> that the byte stream of the client parses to, in one piece, are those forwarded so far followed
  by those that wait in the parser; the server has received exactly the texts of the forwarded ones, in
  order; these are the requests of the saved records followed by the requests whose responses are
  still expected, so every response is saved with the request it answers; and the client has received
  exactly the texts of the saved responses. The hypothesis on \<open>SSL_write\<close> is needed: the code takes its
  answer 0, a connection that was closed, for a success.
\<close>

theorem proxy_records_faithfully:
  assumes "proxy_thread (disk_save c z) ks ans client [] = Inr (x, po, s)" and "list_all honest ks"
    and "fd_got client = []" and "fd_sent client = []" and "\<And>server. server_socket ans = Inr server \<Longrightarrow> fd_sent server = []"
    and "\<forall>fd i. ssl_write_answers ans fd i \<noteq> 0"
  shows "\<exists>ms. parse_requests (chars_of (concat (fd_got (proxy_client s)))) mk_request_parser = Inr (prepend ms (request_parser s)) \<and>
    chars_of (concat (fd_sent (proxy_server s))) = concat (map printed ms) \<and>
    map printed ms = stored_requests (backing_store s) @ map printed (expected_requests (response_parser s)) \<and>
    chars_of (concat (fd_sent (proxy_client s))) = concat (stored_responses (backing_store s))"
  using thread_records [OF assms] unfolding recorded_faithfully_def .

text \<open>A client that sends a request; the first poll finds it readable, the second one the server writable.\<close>

definition sample_text :: string where
  "sample_text = ''GET / HTTP/1.1'' @ CRLF @ CRLF"

definition sample_client :: file_desc where
  "sample_client = sample_fd\<lparr>offers := (\<lambda>i n. Some (if i = 0 then bytes_of sample_text else [])), accepts := (\<lambda>i n. int n)\<rparr>"

definition sample_server :: file_desc where
  "sample_server = sample_fd\<lparr>fd_num := 6, accepts := (\<lambda>i n. int n)\<rparr>"

definition answering :: "u16 list \<Rightarrow> pollfd list \<Rightarrow> int \<Rightarrow> int \<times> u16 list" where
  "answering rs ps t = (1, take (length ps) (rs @ replicate (length ps) 0))"

lemma answering_honest: "honest (answering rs)"
  by (simp add: honest_def answering_def min_def)

definition sample_thread :: thread_answers where
  "sample_thread =
     \<lparr>dest_answer = Some (16, sample_address), server_socket = Inr sample_server, connect_answer = 0, ssl_new_ok = (True, True),
      ssl_set_fd_ok = (True, True), ssl_connect_answer = 1, ssl_accept_answer = 1,
      ssl_read_answers = (\<lambda>fd i. \<lparr>ssl_ret = 0, ssl_bytes = [], ssl_pending = 0, ssl_get_error = Zero_return, ssl_queue_empty = True\<rparr>),
      ssl_write_answers = (\<lambda>fd i. 1), dest_answer_in_loop = Some (16, sample_address)\<rparr>"

definition sample_proxy_run :: "(u32 option \<times> request_response list proxy_world poller \<times> request_response list proxy_world) res" where
  "sample_proxy_run = proxy_thread (disk_save True True) [answering [0, 1, 0, 0], answering [0, 0, 4, 0]] sample_thread sample_client []"

lemma sample_text_parses:
  "parse_requests sample_text mk_request_parser =
     Inr (mk_request_parser\<lparr>complete_messages :=
       [mk_http_message\<lparr>first_line := ''GET / HTTP/1.1'', expected_size := (True, 0), message_state := COMPLETE\<rparr>]\<rparr>)"
  by code_simp

lemma sample_text_write: "\<exists>fd'. write_all (bytes_of sample_text) sample_server = Inr fd' \<and> fd_sent fd' = [bytes_of sample_text] \<and> write_count fd' = 1 \<and> fd_num fd' = 6"
  by (subst write_all.simps) (simp add: write_some_def Let_def sample_server_def sample_fd_def sample_text_def bytes_of_def register_write_def)

lemma sample_proxy_forwards: "\<exists>x po s. sample_proxy_run = Inr (x, po, s) \<and> chars_of (concat (fd_sent (proxy_server s))) = sample_text"
proof -
  obtain fd' where fd': "write_all (bytes_of sample_text) sample_server = Inr fd'" "fd_sent fd' = [bytes_of sample_text]" "write_count fd' = 1" "fd_num fd' = 6"
    using sample_text_write by blast
  have p: "printed (mk_http_message\<lparr>first_line := ''GET / HTTP/1.1'', expected_size := (True, 0), message_state := COMPLETE\<rparr>) = sample_text"
    by (simp add: printed_def sample_text_def mk_http_message_def)
  have l: "length (bytes_of sample_text) = 18" "bytes_of sample_text \<noteq> []" by (simp_all add: bytes_of_def sample_text_def CRLF_def)
  have n: "fd_num sample_client = 5" "fd_num sample_server = 6" "\<not> fd_eof sample_client" "\<not> fd_eof sample_server" "read_count sample_client = 0" "write_count sample_server = 0"
    "offers sample_client 0 k = Some (bytes_of sample_text)" for k
    by (simp_all add: sample_client_def sample_server_def sample_fd_def)
  show ?thesis
    using fd' l
    by (simp add: sample_proxy_run_def proxy_thread_def proxy_loop_def sample_thread_def sample_address_def original_dest_def getsockopt_def
        address_of_raw_def socket_connect_def sys_def tcp_socket_def Let_def poll_def asserting_def add_action_def mk_poller_def proxy_actions_def mk_action_def
        wanted_def poll_bits_def store_revents_def answering_def fd_read_def BUFFER_SIZE_def register_read_def n sample_text_parses p
        sequence_front_def sequence_pop_def sequence_empty_def service_count_def poll_error_bits_def)
qed

theorem proxy_records_faithfully_witness:
  "\<exists>x po s ms. sample_proxy_run = Inr (x, po, s) \<and>
    parse_requests (chars_of (concat (fd_got (proxy_client s)))) mk_request_parser = Inr (prepend ms (request_parser s)) \<and>
    concat (map printed ms) = sample_text"
proof -
  obtain x po s where r: "sample_proxy_run = Inr (x, po, s)" and t: "chars_of (concat (fd_sent (proxy_server s))) = sample_text"
    using sample_proxy_forwards by blast
  have fds: "fd_got sample_client = []" "fd_sent sample_client = []" "fd_sent sample_server = []"
    by (simp_all add: sample_client_def sample_server_def sample_fd_def)
  have server: "fd_sent server = []" if "server_socket sample_thread = Inr server" for server
    using that fds(3) by (simp add: sample_thread_def)
  have ssl: "\<forall>fd i. ssl_write_answers sample_thread fd i \<noteq> 0" by (simp add: sample_thread_def)
  have ks: "list_all honest [answering [0, 1, 0, 0], answering [0, 0, 4, 0]]" by (simp add: answering_honest)
  obtain ms where "parse_requests (chars_of (concat (fd_got (proxy_client s)))) mk_request_parser = Inr (prepend ms (request_parser s))"
      "chars_of (concat (fd_sent (proxy_server s))) = concat (map printed ms)"
    using proxy_records_faithfully [OF r [unfolded sample_proxy_run_def] ks fds(1,2) server ssl] by blast
  with r t show ?thesis by metis
qed

end
