(* ===== verification/Deep_Cgi.thy ===== *)
theory Deep_Cgi
  imports Record_Replay
begin

text \<open>
  The Apache module that runs the replay server, src/src/frontend/mod_deepcgi.c: it puts the request into
  environment variables, runs the program and copies what it prints to the client. The environment
  belongs to the process of the web server and stays from one request to the next. What Apache
  answers is an input: a request is the record of the fields the handler reads, and each
  \<open>ap_rwrite\<close> is a function from the number of bytes it is offered to the number it returns.

  The lemmas show that the client gets exactly what the program prints, hence that a recorded request
  gets the recorded response through the web server, and what is left of an earlier request.
\<close>

section \<open>Model\<close>

record deepcgi_config =
  working_dir :: "string option"
  recording_dir :: "string option"

definition deepcgi_set_workingdir :: "string \<Rightarrow> deepcgi_config \<Rightarrow> deepcgi_config" where
  "deepcgi_set_workingdir arg cfg = cfg\<lparr>working_dir := Some arg\<rparr>"

definition deepcgi_set_recordingdir :: "string \<Rightarrow> deepcgi_config \<Rightarrow> deepcgi_config" where
  "deepcgi_set_recordingdir arg cfg = cfg\<lparr>recording_dir := Some arg\<rparr>"

text \<open>\<open>None\<close> is the null pointer. The filters are those of the output, by their type.\<close>

record request_rec =
  req_handler :: "string option"
  req_method :: "string option"
  unparsed_uri :: "string option"
  protocol :: "string option"
  hostname :: "string option"
  user_agent :: "string option"
  is_https :: bool
  output_filters :: "nat list"

datatype cgi_status = DECLINED | CGI_OK | INTERNAL_SERVER_ERROR

record cgi_result =
  cgi_status :: cgi_status
  cgi_sent :: string
  cgi_env :: environment
  cgi_filters :: "nat list"
  keepalive :: bool
  left_open :: bool

text \<open>\<open>setenv\<close> with a null pointer for the value is undefined.\<close>

definition set_variable :: "string \<Rightarrow> string option \<Rightarrow> environment \<Rightarrow> environment res" where
  "set_variable key val env = (case val of None \<Rightarrow> Inl Undefined_behaviour | Some v \<Rightarrow> Inr (env(key \<mapsto> v)))"

definition request_environment :: "deepcgi_config \<Rightarrow> request_rec \<Rightarrow> environment \<Rightarrow> environment res" where
  "request_environment cfg req env =
     res_bind (set_variable ''MAHIMAHI_CHDIR'' (working_dir cfg) env) (\<lambda>env.
     res_bind (set_variable ''MAHIMAHI_RECORD_PATH'' (recording_dir cfg) env) (\<lambda>env.
     res_bind (set_variable ''REQUEST_METHOD'' (req_method req) env) (\<lambda>env.
     res_bind (set_variable ''REQUEST_URI'' (unparsed_uri req) env) (\<lambda>env.
     res_bind (set_variable ''SERVER_PROTOCOL'' (protocol req) env) (\<lambda>env.
     res_bind (set_variable ''HTTP_HOST'' (hostname req) env) (\<lambda>env.
     res_bind (if user_agent req \<noteq> None then set_variable ''HTTP_USER_AGENT'' (user_agent req) env else Inr env) (\<lambda>env.
       if is_https req then set_variable ''HTTPS'' (Some ''1'') env else Inr env)))))))"

text \<open>The size of the buffer is a constant of httpd.h.\<close>

definition HUGE_STRING_LEN :: nat where
  "HUGE_STRING_LEN = 8192"

text \<open>
  The inner loop writes the rest of the buffer: whether it did, what was sent, and the calls to come. It
  goes on for as long as \<open>ap_rwrite\<close> returns 0, so it ends with \<open>Out_of_fuel\<close> when there are no calls left.
  More than was offered ends it as well; after another negative number than -1 it would read in front of
  the buffer.
\<close>

fun write_line :: "(nat \<Rightarrow> int) list \<Rightarrow> string \<Rightarrow> (bool \<times> string \<times> (nat \<Rightarrow> int) list) res" where
  "write_line ks [] = Inr (True, [], ks)"
| "write_line [] (c # left) = Inl Out_of_fuel"
| "write_line (k # ks) (c # left) =
     (let n = k (length (c # left)) in
      if n = - 1 then Inr (False, [], ks)
      else if n < 0 then Inl Undefined_behaviour
      else
        res_bind (write_line ks (drop (nat n) (c # left))) (\<lambda>(ok, sent, ks').
          Inr (ok, take (nat n) (c # left) @ sent, ks')))"

text \<open>The outer loop: \<open>fread\<close> fills the buffer unless the program has no more to say.\<close>

function copy_output :: "(nat \<Rightarrow> int) list \<Rightarrow> string \<Rightarrow> (bool \<times> string) res" where
  "copy_output ks out =
     (let line = take HUGE_STRING_LEN out in
      res_bind (write_line ks line) (\<lambda>(ok, sent, ks').
        if \<not> ok then Inr (False, sent)
        else if length line = HUGE_STRING_LEN then
          res_bind (copy_output ks' (drop HUGE_STRING_LEN out)) (\<lambda>(ok', sent'). Inr (ok', sent @ sent'))
        else Inr (True, sent)))"
  by pat_completeness auto
termination
  by (relation "measure (\<lambda>(ks, out). length out)") (auto simp: HUGE_STRING_LEN_def)

declare copy_output.simps [simp del]

text \<open>
  \<open>connection_filter\<close> is \<open>AP_FTYPE_CONNECTION\<close>, and \<open>program\<close> what the replay server prints in an
  environment. The pipe is closed after the copy only, not when writing fails.
\<close>

definition deepcgi_handler :: "nat \<Rightarrow> deepcgi_config \<Rightarrow> bool \<Rightarrow> (environment \<Rightarrow> string) \<Rightarrow> (nat \<Rightarrow> int) list \<Rightarrow>
    request_rec \<Rightarrow> environment \<Rightarrow> cgi_result res" where
  "deepcgi_handler connection_filter cfg popen_ok program ks req env =
     (let before = \<lparr>cgi_status = DECLINED, cgi_sent = [], cgi_env = env, cgi_filters = output_filters req, keepalive = False, left_open = False\<rparr> in
      if req_handler req \<noteq> Some ''deepcgi-handler'' then Inr before
      else
        res_bind (request_environment cfg req env) (\<lambda>env'.
          if \<not> popen_ok then Inr (before\<lparr>cgi_status := INTERNAL_SERVER_ERROR, cgi_env := env'\<rparr>)
          else
            let filters = dropWhile (\<lambda>f. f < connection_filter) (output_filters req) in
            res_bind (copy_output ks (program env')) (\<lambda>(ok, sent).
              Inr \<lparr>cgi_status = (if ok then CGI_OK else INTERNAL_SERVER_ERROR), cgi_sent = sent, cgi_env = env',
                   cgi_filters = filters, keepalive = ok, left_open = \<not> ok\<rparr>)))"

section \<open>Copying\<close>

text \<open>What Apache promises of \<open>ap_rwrite\<close> when it does not fail.\<close>

definition takes_bytes :: "(nat \<Rightarrow> int) \<Rightarrow> bool" where
  "takes_bytes k \<longleftrightarrow> (\<forall>n. 0 < n \<longrightarrow> 0 < k n \<and> k n \<le> int n)"

lemma write_line_sent: "write_line ks line = Inr (ok, sent, ks') \<Longrightarrow> prefix sent line \<and> (ok \<longrightarrow> sent = line)"
proof (induction ks line arbitrary: ok sent ks' rule: write_line.induct)
  case (3 k ks c left)
  let ?l = "c # left" and ?n = "k (length (c # left))"
  show ?case
  proof (cases "?n = - 1")
    case False
    then have n: "0 \<le> ?n" using "3.prems" by (auto simp: Let_def split: if_splits)
    obtain s where s: "write_line ks (drop (nat ?n) ?l) = Inr (ok, s, ks')" "sent = take (nat ?n) ?l @ s"
      using "3.prems" n False by (auto simp: Let_def split: if_splits)
    have "prefix s (drop (nat ?n) ?l) \<and> (ok \<longrightarrow> s = drop (nat ?n) ?l)" using "3.IH" [OF refl False _ s(1)] n by auto
    then show ?thesis using append_take_drop_id [of "nat ?n" ?l] unfolding s(2) by (metis same_prefix_prefix)
  qed (use "3.prems" in \<open>simp add: Let_def\<close>)
qed simp_all

lemma write_line_ok:
  "list_all takes_bytes ks \<Longrightarrow> length line \<le> length ks \<Longrightarrow>
     \<exists>ks'. write_line ks line = Inr (True, line, ks') \<and> list_all takes_bytes ks' \<and> length ks \<le> length ks' + length line"
proof (induction ks line rule: write_line.induct)
  case (3 k ks c left)
  let ?l = "c # left" and ?n = "k (length (c # left))"
  have n: "0 < ?n" "?n \<le> int (length ?l)" using "3.prems"(1) by (auto simp: takes_bytes_def)
  then have d: "length (drop (nat ?n) ?l) + 1 \<le> length ?l" by auto
  obtain ks' where "write_line ks (drop (nat ?n) ?l) = Inr (True, drop (nat ?n) ?l, ks')" "list_all takes_bytes ks'"
      "length ks \<le> length ks' + length (drop (nat ?n) ?l)"
    using "3.IH" [OF refl] n d "3.prems" by fastforce
  then show ?case using n d append_take_drop_id [of "nat ?n" ?l] by (auto simp: Let_def simp del: append_take_drop_id)
qed simp_all

lemma copy_output_ok: "list_all takes_bytes ks \<Longrightarrow> length out \<le> length ks \<Longrightarrow> copy_output ks out = Inr (True, out)"
proof (induction ks out rule: copy_output.induct)
  case (1 ks out)
  let ?line = "take HUGE_STRING_LEN out"
  have len: "length ?line \<le> length ks" using "1.prems"(2) by simp
  obtain ks' where w: "write_line ks ?line = Inr (True, ?line, ks')" "list_all takes_bytes ks'" "length ks \<le> length ks' + length ?line"
    using write_line_ok [OF "1.prems"(1) len] by blast
  show ?case
  proof (cases "length ?line = HUGE_STRING_LEN")
    case True
    have "copy_output ks' (drop HUGE_STRING_LEN out) = Inr (True, drop HUGE_STRING_LEN out)"
      using "1.IH" [OF refl w(1) refl refl] True w(2,3) "1.prems"(2) by simp
    then show ?thesis using w(1) True by (subst copy_output.simps) (simp add: Let_def)
  next
    case False
    then have "?line = out" by simp
    then show ?thesis using w(1) False by (subst copy_output.simps) (simp add: Let_def)
  qed
qed

lemma copy_output_sent: "copy_output ks out = Inr (ok, sent) \<Longrightarrow> prefix sent out \<and> (ok \<longrightarrow> sent = out)"
proof (induction ks out arbitrary: ok sent rule: copy_output.induct)
  case (1 ks out)
  let ?line = "take HUGE_STRING_LEN out" and ?rest = "drop HUGE_STRING_LEN out"
  obtain ok1 s1 ks' where w: "write_line ks ?line = Inr (ok1, s1, ks')"
      and r: "(if \<not> ok1 then Inr (False, s1)
        else if length ?line = HUGE_STRING_LEN then res_bind (copy_output ks' ?rest) (\<lambda>(ok', sent'). Inr (ok', s1 @ sent'))
        else Inr (True, s1)) = (Inr (ok, sent) :: (bool \<times> string) res)"
    using "1.prems" by (subst (asm) copy_output.simps) (auto simp: Let_def)
  note s1 = write_line_sent [OF w]
  have o: "?line @ ?rest = out" by simp
  consider "\<not> ok1" | "ok1" "length ?line = HUGE_STRING_LEN" | "ok1" "length ?line \<noteq> HUGE_STRING_LEN" by blast
  then show ?case
  proof cases
    case 1
    then show ?thesis using r s1 by (metis Inr_inject Pair_inject o prefix_order.trans prefixI)
  next
    case 2
    then obtain s2 where s2: "copy_output ks' ?rest = Inr (ok, s2)" "sent = s1 @ s2" using r by auto
    have "prefix s2 ?rest \<and> (ok \<longrightarrow> s2 = ?rest)" using "1.IH" [OF refl w refl refl] 2 s2(1) by auto
    then show ?thesis using s1 2(1) s2(2) o by (metis same_prefix_prefix)
  next
    case 3
    then have "?line = out" by simp
    then show ?thesis using r s1 3 by simp
  qed
qed

section \<open>The environment of a request\<close>

lemma request_environment_Inr:
  assumes "request_environment cfg req env = Inr env'"
  shows "env' ''MAHIMAHI_CHDIR'' = working_dir cfg" and "env' ''MAHIMAHI_RECORD_PATH'' = recording_dir cfg"
    and "env' ''REQUEST_METHOD'' = req_method req" and "env' ''REQUEST_URI'' = unparsed_uri req" and "env' ''SERVER_PROTOCOL'' = protocol req"
    and "env' ''HTTP_HOST'' = hostname req"
    and "env' ''HTTP_USER_AGENT'' = (if user_agent req = None then env ''HTTP_USER_AGENT'' else user_agent req)"
    and "env' ''HTTPS'' = (if is_https req then Some ''1'' else env ''HTTPS'')"
  using assms by (auto simp: request_environment_def set_variable_def split: option.splits if_splits)

text \<open>A request that repeats a recorded one.\<close>

definition repeats :: "request_rec \<Rightarrow> http_message \<Rightarrow> bool" where
  "repeats req q \<longleftrightarrow>
     (case (req_method req, unparsed_uri req, protocol req, hostname req) of
        (Some m, Some u, Some p, Some h) \<Rightarrow>
          first_line q = m @ '' '' @ u @ '' '' @ p \<and> has_header ''Host'' q \<and> get_header_value ''Host'' q = Inr h \<and>
          (case user_agent req of
             None \<Rightarrow> \<not> has_header ''User-Agent'' q
           | Some v \<Rightarrow> has_header ''User-Agent'' q \<and> get_header_value ''User-Agent'' q = Inr v)
      | _ \<Rightarrow> False)"

definition fresh :: "environment \<Rightarrow> bool" where
  "fresh env \<longleftrightarrow> env ''HTTPS'' = None \<and> env ''HTTP_USER_AGENT'' = None"

lemma repeats_matches:
  assumes "request_environment cfg req env = Inr env'" and "repeats req q" and "fresh env"
  shows "env_request_line env' = Inr (first_line q)" and "header_match env' ''HTTP_HOST'' ''Host'' q"
    and "header_match env' ''HTTP_USER_AGENT'' ''User-Agent'' q" and "(env' ''HTTPS'' \<noteq> None) = is_https req" and "first_line q \<noteq> []"
  using assms(2,3) request_environment_Inr [OF assms(1)]
  by (auto simp: repeats_def fresh_def header_match_def env_request_line_def safe_getenv_def split: option.splits if_splits)

lemma handler_sends:
  assumes "req_handler req = Some ''deepcgi-handler''" and "request_environment cfg req env = Inr env'"
    and "list_all takes_bytes ks" and "length (program env') \<le> length ks"
  shows "deepcgi_handler connection_filter cfg True program ks req env =
    Inr \<lparr>cgi_status = CGI_OK, cgi_sent = program env', cgi_env = env',
         cgi_filters = dropWhile (\<lambda>f. f < connection_filter) (output_filters req), keepalive = True, left_open = False\<rparr>"
  using assms copy_output_ok [OF assms(3,4)] by (simp add: deepcgi_handler_def Let_def)

section \<open>Serving a record\<close>

text \<open>The folder that Apache is configured for can be read and holds the records \<open>recs\<close>.\<close>

definition serves :: "deepcgi_config \<Rightarrow> filesystem \<Rightarrow> request_response list \<Rightarrow> bool" where
  "serves cfg fs recs \<longleftrightarrow>
     (case (working_dir cfg, recording_dir cfg) of
        (Some cwd, Some dir) \<Rightarrow>
          fs_chdir fs cwd \<and>
          (case list_directory_contents False fs dir of Inl e \<Rightarrow> False | Inr files \<Rightarrow> map (fs_file fs) files = map Stored recs)
      | _ \<Rightarrow> False)"

lemma record_served:
  assumes "serves cfg fs recs" and "r \<in> set recs"
    and "req_handler req = Some ''deepcgi-handler''" and "repeats req (from_protobuf (rr_request r))"
    and "rr_scheme r = (if is_https req then Scheme_HTTPS else Scheme_HTTP)"
    and "fresh env" and "request_environment cfg req env = Inr env'" and "length (proto_first_line (rr_request r)) < 2 ^ 32"
    and "\<forall>q \<in> set recs. env_score env' (proto_first_line (rr_request r)) q = of_nat (length (proto_first_line (rr_request r))) \<longrightarrow>
           rr_response q = rr_response r"
    and "list_all takes_bytes ks" and "length (printed (from_protobuf (rr_response r))) \<le> length ks"
  shows "deepcgi_handler connection_filter cfg True (\<lambda>e. fst (replayserver describe e False fs)) ks req env =
    Inr \<lparr>cgi_status = CGI_OK, cgi_sent = printed (from_protobuf (rr_response r)), cgi_env = env',
         cgi_filters = dropWhile (\<lambda>f. f < connection_filter) (output_filters req), keepalive = True, left_open = False\<rparr>"
proof -
  let ?line = "proto_first_line (rr_request r)"
  have line: "first_line (from_protobuf (rr_request r)) = ?line" by (simp add: from_protobuf_def)
  note env' = repeats_matches [OF assms(7,4,6), unfolded line]
  have "replay_ready env' fs ?line recs"
    using assms(1) env'(1) request_environment_Inr(1,2) [OF assms(7)]
    by (auto simp: serves_def replay_ready_def split: option.splits sum.splits)
  then have "replayserver describe env' False fs = (printed (from_protobuf (rr_response r)), True)"
    using record_replayed [OF _ assms(2) line env'(5) assms(8) _ env'(2,3) assms(9)] env'(4) assms(5) by simp
  then show ?thesis using handler_sends [OF assms(3,7,10), of "\<lambda>e. fst (replayserver describe e False fs)"] assms(11) by simp
qed

definition replay_config :: deepcgi_config where
  "replay_config = deepcgi_set_recordingdir ''/rec/'' (deepcgi_set_workingdir ''/'' \<lparr>working_dir = None, recording_dir = None\<rparr>)"

definition sample_request_rec :: request_rec where
  "sample_request_rec =
     \<lparr>req_handler = Some ''deepcgi-handler'', req_method = Some ''GET'', unparsed_uri = Some ''/a'', protocol = Some ''HTTP/1.1'',
      hostname = Some ''example.org'', user_agent = None, is_https = False, output_filters = [20, 30, 50, 60]\<rparr>"

lemma sample_request_environment: "\<exists>env'. request_environment replay_config sample_request_rec Map.empty = Inr env'"
  by (simp add: request_environment_def set_variable_def replay_config_def sample_request_rec_def deepcgi_set_workingdir_def
      deepcgi_set_recordingdir_def)

text \<open>
  The variables stay when the next request does not set them: a process that has served a request with a
  user agent finds none of the records without one for a request that has none, and one that has
  served a request over TLS finds no record of plain HTTP.
\<close>

lemma stale_user_agent:
  assumes "request_environment cfg first env = Inr env1" and "user_agent first = Some v"
    and "request_environment cfg second env1 = Inr env2" and "user_agent second = None"
    and "\<not> has_header ''User-Agent'' (from_protobuf (rr_request r))"
  shows "env_score env2 line r = 0"
proof -
  have "env2 ''HTTP_USER_AGENT'' = Some v"
    using request_environment_Inr(7) [OF assms(1)] request_environment_Inr(7) [OF assms(3)] assms(2,4) by simp
  then show ?thesis using assms(5) by (simp add: env_score_def match_score_def Let_def header_match_def)
qed

lemma stale_https:
  assumes "request_environment cfg first env = Inr env1" and "is_https first"
    and "request_environment cfg second env1 = Inr env2" and "rr_scheme r = Scheme_HTTP"
  shows "env_score env2 line r = 0"
proof -
  have "env2 ''HTTPS'' = Some ''1''"
    using request_environment_Inr(8) [OF assms(1)] request_environment_Inr(8) [OF assms(3)] assms(2) by simp
  then show ?thesis using assms(4) by (simp add: env_score_def match_score_def)
qed

end
