(* ===== verification/Graph_Drawing.thy ===== *)
theory Graph_Drawing
  imports Mahimahi_Prelude
begin

text \<open>
  \<open>Graph\<close>, src/src/graphing/graph.{hh,cc}: the scrolling chart of a meter. A frame is the list of
  drawing operations \<open>blocking_draw\<close> hands to cairo and to the X server; the shapes of the texts are
  theirs, so a text is named by what it shows. Floating-point numbers are real numbers; the height
  and width of the window keep their 32 bits, because the code subtracts from them, and so do the
  labels of the time axis, which are of type \<open>int\<close>: \<open>sint\<close> reads them. A frame locks the data points
  only while it drops the old ones and copies the rest (\<open>trim_points\<close>); it draws the copy
  (\<open>draw_snapshot\<close>), while another thread may add further points.

  The lemmas show that a frame is drawn without a failing assertion or a division by zero, and what
  the frame leaves behind: the scale fits the data, the labels on the time axis are consecutive and
  reach past the right edge, no height is labelled twice. They hold for moments of which a second
  later can still be counted in an \<open>int\<close>, and for values up to \<open>scale_bound\<close>.
\<close>

section \<open>Model\<close>

record style =
  red :: real
  green :: real
  blue :: real
  alpha :: real
  filled :: bool

record ylabel =
  height :: real
  intensity :: real

record graph =
  gc_sizes :: "(u32 \<times> u32) list"
  current_gc :: nat
  x_tick_labels :: "u32 list"
  y_tick_labels :: "ylabel list"
  styles :: "style list"
  data_points :: "(real \<times> real) list list"
  target_min_y :: real
  target_max_y :: real
  bottom :: real
  top_y :: real

datatype label_text = X_tick int | Y_tick real | X_label | Y_label | Info

datatype drawing_op =
    New_path
  | Identity_matrix
  | Rectangle real real real real
  | Set_source_rgba real real real real
  | Set_source_fadeout
  | Set_line_width real
  | Move_to real real
  | Line_to real real
  | Fill
  | Stroke
  | Text_at label_text real real "real option"
  | Text_rotated_at label_text real real
  | Present nat nat nat

definition mk_graph :: "u32 \<times> u32 \<Rightarrow> real \<Rightarrow> real \<Rightarrow> style list \<Rightarrow> graph" where
  "mk_graph window_size min_y max_y ss =
     \<lparr>gc_sizes = replicate 3 window_size, current_gc = 0, x_tick_labels = [], y_tick_labels = [], styles = ss,
      data_points = replicate (length ss) [], target_min_y = min_y, target_max_y = max_y, bottom = min_y, top_y = max_y\<rparr>"

definition add_data_point :: "nat \<Rightarrow> real \<Rightarrow> real \<Rightarrow> graph \<Rightarrow> graph res" where
  "add_data_point num t y g =
     (if length (data_points g) \<le> num then Inl Out_of_range
      else Inr (g\<lparr>data_points := (data_points g)[num := data_points g ! num @ [(t, y)]]\<rparr>))"

definition project_height :: "graph \<Rightarrow> real \<Rightarrow> real" where
  "project_height g x = (x - bottom g) / (top_y g - bottom g)"

definition chart_height :: "graph \<Rightarrow> real \<Rightarrow> u32 \<Rightarrow> real" where
  "chart_height g x window_height =
     real (unat (window_height - 40)) * (0.825 * (1 - project_height g x) + 0.025) + 0.825 * 40"

text \<open>
  \<open>to_int\<close>: \<open>lrintf\<close> goes to the nearest integer, and to the even one from the middle; its result is a
  \<open>long\<close>, and unspecified when the integer does not fit one. The cast to \<open>int\<close> keeps the low 32 bits.
\<close>

definition lrint :: "real \<Rightarrow> int" where
  "lrint x =
     (let n = \<lfloor>x\<rfloor>; d = x - of_int n in
      if d < 1 / 2 then n else if 1 / 2 < d then n + 1 else if even n then n else n + 1)"

definition to_int :: "real \<Rightarrow> u32 res" where
  "to_int x =
     (if - (2 ^ 63) \<le> lrint x \<and> lrint x < 2 ^ 63 then Inr (word_of_int (lrint x)) else Inl Undefined_behaviour)"

subsection \<open>Old points, and the scale\<close>

fun trim_line :: "real \<Rightarrow> (real \<times> real) list \<Rightarrow> (real \<times> real) list" where
  "trim_line edge (p # q # ps) = (if fst p < edge \<and> fst q < edge then trim_line edge (q # ps) else p # q # ps)"
| "trim_line edge ps = ps"

definition scan_line :: "real \<Rightarrow> bool \<Rightarrow> (real \<times> real) list \<Rightarrow> real \<Rightarrow> real \<Rightarrow> real" where
  "scan_line weight skip points current max_value =
     (if skip then max_value
      else
        let m = foldl (\<lambda>m p. if m < snd p then snd p else m) max_value points in
        if 0.4 < weight \<and> m < current then current else m)"

fun scan_lines :: "real \<Rightarrow> style list \<Rightarrow> (real \<times> real) list list \<Rightarrow> real list \<Rightarrow> real \<Rightarrow> real res" where
  "scan_lines weight ss [] cs m = Inr m"
| "scan_lines weight [] (ps # pss) cs m = Inl Out_of_range"
| "scan_lines weight (s # ss) (ps # pss) [] m = Inl Out_of_range"
| "scan_lines weight (s # ss) (ps # pss) (c # cs) m = scan_lines weight ss pss cs (scan_line weight (filled s) ps c m)"

text \<open>\<open>numeric_limits<float>::min()\<close>, the smallest positive normal number.\<close>

definition float_min :: real where
  "float_min = 1 / 2 ^ 126"

definition rescale :: "real \<Rightarrow> graph \<Rightarrow> graph" where
  "rescale max_value g =
     (let t0 = target_max_y g;
          t1 = (if t0 < max_value * 1.2 then max (max_value * 1.4) (target_min_y g + 1) else t0);
          t2 = (if max_value * 1.8 < t1 then max (max_value * 1.6) (target_min_y g + 1) else t1)
      in g\<lparr>target_max_y := t2, top_y := top_y g * 0.95 + t2 * 0.05, bottom := bottom g * 0.95 + target_min_y g * 0.05\<rparr>)"

subsection \<open>The time axis\<close>

text \<open>The next label is one more than the last; an \<open>int\<close> that is the largest has no successor.\<close>

lemma sint_u32: "- (2 ^ 31) \<le> sint l \<and> sint l \<le> 2 ^ 31 - 1" for l :: u32
  using sint_ge [of l] sint_less [of l] by simp

lemma sint_u32_Suc: "sint l \<noteq> 2 ^ 31 - 1 \<Longrightarrow> sint (l + 1) = sint l + 1" for l :: u32
  using sint_u32 [of l] by (simp add: sint_word_ariths signed_take_bit_int_eq_self)

function add_x_labels :: "real \<Rightarrow> u32 list \<Rightarrow> u32 list res" where
  "add_x_labels t ls =
     (if ls = [] then res_bind (to_int t) (\<lambda>next_label. add_x_labels t [next_label])
      else if of_int (sint (last ls)) < t + 1 then
        if sint (last ls) = 2 ^ 31 - 1 then Inl Undefined_behaviour else add_x_labels t (ls @ [last ls + 1])
      else Inr ls)"
  by pat_completeness auto
termination
proof (relation "measure (\<lambda>(t, ls). if ls = [] then 2 ^ 33 else nat (2 ^ 31 - sint (last ls)))", goal_cases)
  case (2 t ls next_label)
  then show ?case using sint_u32 [of next_label] by simp arith
next
  case (3 t ls)
  then have "sint (last ls + 1) = sint (last ls) + 1" by (intro sint_u32_Suc)
  then show ?case using 3 sint_u32 [of "last ls"] by simp
qed simp

declare add_x_labels.simps [simp del]

definition x_labels :: "real \<Rightarrow> real \<Rightarrow> u32 list \<Rightarrow> u32 list res" where
  "x_labels t logical_width ls = add_x_labels t (dropWhile (\<lambda>l. of_int (sint l) < t - logical_width - 1) ls)"

definition x_position :: "u32 \<Rightarrow> real \<Rightarrow> real \<Rightarrow> real \<Rightarrow> real" where
  "x_position width t logical_width x = real (unat width) - (t - x) * real (unat width) / logical_width"

definition draw_x_label :: "graph \<Rightarrow> u32 \<times> u32 \<Rightarrow> real \<Rightarrow> real \<Rightarrow> u32 \<Rightarrow> drawing_op list" where
  "draw_x_label g window_size t logical_width l =
     (let x = x_position (fst window_size) t logical_width (of_int (sint l)) in
      [Text_at (X_tick (sint l)) x (real (unat (snd window_size)) * 9.0 / 10.0) (Some (0.85 * real (unat (fst window_size)) / logical_width)),
       Set_source_rgba 0 0 0.4 1, Fill,
       Identity_matrix, Set_line_width 2,
       Move_to x (chart_height g (bottom g) (snd window_size)),
       Line_to x (chart_height g (top_y g) (snd window_size)),
       Set_source_rgba 0 0 0.4 0.25, Stroke])"

subsection \<open>The data\<close>

definition begin_line :: "graph \<Rightarrow> u32 \<times> u32 \<Rightarrow> real \<Rightarrow> real \<Rightarrow> real \<times> real \<Rightarrow> drawing_op list" where
  "begin_line g window_size t logical_width p =
     [Identity_matrix, Set_line_width 3,
      Move_to (x_position (fst window_size) t logical_width (fst p)) (chart_height g (snd p) (snd window_size))]"

definition add_segment :: "graph \<Rightarrow> u32 \<times> u32 \<Rightarrow> real \<Rightarrow> real \<Rightarrow> real \<times> real \<Rightarrow> drawing_op list" where
  "add_segment g window_size t logical_width p =
     [Line_to (x_position (fst window_size) t logical_width (fst p)) (chart_height g (snd p) (snd window_size))]"

definition end_line :: "graph \<Rightarrow> u32 \<times> u32 \<Rightarrow> real \<Rightarrow> real \<Rightarrow> real \<Rightarrow> bool \<Rightarrow> drawing_op list" where
  "end_line g window_size t logical_width x fill =
     (if fill then
        [Line_to (real (unat (fst window_size))) (chart_height g 0 (snd window_size)),
         Line_to (x_position (fst window_size) t logical_width x) (chart_height g 0 (snd window_size)),
         Fill]
      else [Stroke])"

text \<open>The loop over the points of a line: \<open>pen\<close> is the last point when the pen is down.\<close>

fun draw_points :: "graph \<Rightarrow> u32 \<times> u32 \<Rightarrow> real \<Rightarrow> real \<Rightarrow> bool \<Rightarrow> (real \<times> real) option \<Rightarrow> (real \<times> real) list \<Rightarrow>
    drawing_op list \<times> (real \<times> real) option" where
  "draw_points g ws t w fill pen [] = ([], pen)"
| "draw_points g ws t w fill (Some last_point) (p # ps) =
     (if snd p \<ge> 0 then
        let (ops, pen) = draw_points g ws t w fill (Some p) ps in (add_segment g ws t w p @ ops, pen)
      else
        let (ops, pen) = draw_points g ws t w fill None ps in (end_line g ws t w (fst last_point) fill @ ops, pen))"
| "draw_points g ws t w fill None (p # ps) =
     (if snd p \<ge> 0 then
        let (ops, pen) = draw_points g ws t w fill (Some p) ps in (begin_line g ws t w p @ ops, pen)
      else draw_points g ws t w fill None ps)"

definition draw_line :: "graph \<Rightarrow> u32 \<times> u32 \<Rightarrow> real \<Rightarrow> real \<Rightarrow> real \<Rightarrow> style \<Rightarrow> (real \<times> real) list \<Rightarrow> real \<Rightarrow> drawing_op list" where
  "draw_line g ws t w weight s line current =
     (if line = [] then []
      else
        let (ops, pen) = draw_points g ws t w (filled s) None line in
        Set_source_rgba (red s) (green s) (blue s) (alpha s) # ops @
        (if pen = None then []
         else
           (if snd (last line) \<ge> 0 \<and> current \<ge> 0
            then add_segment g ws t w (t, weight * current + (1 - weight) * snd (last line)) else []) @
           end_line g ws t w (fst (hd line)) (filled s)))"

subsection \<open>The value axis\<close>

text \<open>
  The spacing of the labels is a quarter, doubled \<open>k\<close> times.
\<close>

function double_spacing :: "real \<Rightarrow> nat \<Rightarrow> real" where
  "double_spacing extent k =
     (let label_spacing = 1.0 / 4.0 * 2 ^ k in
      if label_spacing < extent / 6 then double_spacing extent (Suc k) else label_spacing)"
  by pat_completeness auto
termination
proof (relation "measure (\<lambda>(extent, k). nat \<lceil>extent * 4 / 6 / 2 ^ k\<rceil>)", goal_cases)
  case (2 extent k s)
  define x where "x = extent * 4 / 6 / 2 ^ k"
  have "1 < x" using 2 by (simp add: x_def field_simps)
  then have "2 \<le> \<lceil>x\<rceil>" by (simp add: le_ceiling_iff)
  then have "real_of_int 2 \<le> real_of_int \<lceil>x\<rceil>" by (simp only: of_int_le_iff)
  then have "x / 2 \<le> of_int (\<lceil>x\<rceil> - 1)" using le_of_int_ceiling [of x] by linarith
  then have "\<lceil>x / 2\<rceil> < \<lceil>x\<rceil>" using ceiling_le [of "x / 2" "\<lceil>x\<rceil> - 1"] by simp
  then have "nat \<lceil>x / 2\<rceil> < nat \<lceil>x\<rceil>" using \<open>1 < x\<close> by simp
  moreover have "extent * 4 / 6 / 2 ^ Suc k = x / 2" by (simp add: x_def)
  ultimately show ?case by (simp only: in_measure split_conv x_def)
qed simp

declare double_spacing.simps [simp del]

text \<open>The heights from \<open>val\<close> in steps of the spacing, which is positive.\<close>

function heights_from :: "real \<Rightarrow> real \<Rightarrow> real \<Rightarrow> real list" where
  "heights_from val label_top label_spacing =
     (if 0 < label_spacing \<and> val \<le> label_top then val # heights_from (val + label_spacing) label_top label_spacing else [])"
  by pat_completeness auto
termination
proof (relation "measure (\<lambda>(v, top, s). nat \<lceil>(top - v) / s + 1\<rceil>)", goal_cases)
  case (2 v top s)
  define d where "d = (top - v) / s"
  have "0 \<le> d" and d: "(top - (v + s)) / s + 1 = d" using 2 by (simp_all add: d_def field_simps)
  have "nat \<lceil>d\<rceil> < nat \<lceil>d + 1\<rceil>" using \<open>0 \<le> d\<close> by (simp add: ceiling_add_one)
  then show ?case by (simp only: in_measure split_conv d d_def)
qed simp

declare heights_from.simps [simp del]

definition heights_between :: "graph \<Rightarrow> real \<Rightarrow> real \<Rightarrow> real list" where
  "heights_between g label_bottom label_top =
     (let label_spacing = double_spacing (label_top - label_bottom) 0;
          label_bottom = label_bottom / label_spacing * label_spacing;
          label_top = label_top / label_spacing * label_spacing
      in filter (\<lambda>val. \<not> (project_height g val < 0 \<or> project_height g val > 1)) (heights_from label_bottom label_top label_spacing))"

definition wanted_heights :: "graph \<Rightarrow> real list res" where
  "wanted_heights g =
     res_bind (to_int (of_int \<lfloor>bottom g\<rfloor>)) (\<lambda>label_bottom.
     res_bind (to_int (of_int \<lceil>top_y g\<rceil>)) (\<lambda>label_top.
       Inr (heights_between g (of_int (sint label_bottom)) (of_int (sint label_top)))))"

text \<open>
  The loop that removes faded labels. An iterator into a vector is a position: \<open>erase\<close> moves the
  elements behind it to the front, and the loop goes on behind the position of the erased one.
\<close>

function cull :: "nat \<Rightarrow> ylabel list \<Rightarrow> ylabel list" where
  "cull it ls =
     (if it < length ls then
        if intensity (ls ! it) < 0.01 then cull (it + 1) (take it ls @ drop (it + 1) ls) else cull (it + 1) ls
      else ls)"
  by pat_completeness auto
termination by (relation "measure (\<lambda>(it, ls). length ls - it)") auto

declare cull.simps [simp del]

text \<open>The labels that belong on the frame, each with the mark that it is there already.\<close>

fun find_label :: "real \<Rightarrow> (real \<times> bool) list \<Rightarrow> (bool \<times> (real \<times> bool) list) res" where
  "find_label h [] = Inr (False, [])"
| "find_label h (y # ys) =
     (if h = fst y then asserting (snd y = False) (Inr (True, (fst y, True) # ys))
      else res_bind (find_label h ys) (\<lambda>(belongs, ys'). Inr (belongs, y # ys')))"

fun adjust_labels :: "ylabel list \<Rightarrow> (real \<times> bool) list \<Rightarrow> (ylabel list \<times> (real \<times> bool) list) res" where
  "adjust_labels [] ys = Inr ([], ys)"
| "adjust_labels (l # ls) ys =
     res_bind (find_label (height l) ys) (\<lambda>(belongs, ys1).
     res_bind (adjust_labels ls ys1) (\<lambda>(ls', ys2).
       Inr (l\<lparr>intensity := 0.95 * intensity l + (if belongs then 0.05 else 0)\<rparr> # ls', ys2)))"

definition new_labels :: "(real \<times> bool) list \<Rightarrow> ylabel list" where
  "new_labels ys = map (\<lambda>y. \<lparr>height = fst y, intensity = 0.05\<rparr>) (filter (\<lambda>y. \<not> snd y) ys)"

definition y_labels :: "graph \<Rightarrow> ylabel list res" where
  "y_labels g =
     res_bind (wanted_heights g) (\<lambda>hs.
     res_bind (adjust_labels (cull 0 (y_tick_labels g)) (map (\<lambda>v. (v, False)) hs)) (\<lambda>(ls, ys).
       Inr (ls @ new_labels ys)))"

definition draw_grid_line :: "graph \<Rightarrow> u32 \<times> u32 \<Rightarrow> ylabel \<Rightarrow> drawing_op list" where
  "draw_grid_line g ws l =
     [Identity_matrix, Set_line_width 1,
      Move_to 0 (chart_height g (height l) (snd ws)),
      Line_to (real (unat (fst ws))) (chart_height g (height l) (snd ws)),
      Set_source_rgba 0 0 0.4 (0.25 * intensity l), Stroke]"

definition draw_y_label :: "graph \<Rightarrow> u32 \<times> u32 \<Rightarrow> ylabel \<Rightarrow> drawing_op list" where
  "draw_y_label g ws l =
     [Text_at (Y_tick (height l)) 100 (chart_height g (height l) (snd ws)) None,
      Set_source_rgba 0 0 0.4 (intensity l), Fill]"

subsection \<open>A frame\<close>

definition trim_points :: "real \<Rightarrow> graph \<Rightarrow> graph" where
  "trim_points edge g = g\<lparr>data_points := map (trim_line edge) (data_points g)\<rparr>"

definition resize_gc :: "u32 \<times> u32 \<Rightarrow> graph \<Rightarrow> graph" where
  "resize_gc ws g =
     (if ws \<noteq> gc_sizes g ! current_gc g then g\<lparr>gc_sizes := (gc_sizes g)[current_gc g := ws]\<rparr> else g)"

definition draw_frame :: "u32 \<times> u32 \<Rightarrow> real \<Rightarrow> real \<Rightarrow> real list \<Rightarrow> real \<Rightarrow> (real \<times> real) list list \<Rightarrow> graph \<Rightarrow> drawing_op list" where
  "draw_frame ws t w current_values weight snapshot g =
     (let width = real (unat (fst ws)); height' = real (unat (snd ws)) in
      [New_path, Identity_matrix, Rectangle 0 0 width height', Set_source_rgba 1 1 1 1, Fill] @
      concat (map (draw_x_label g ws t w) (x_tick_labels g)) @
      [Text_at X_label (real (unat (35 + fst ws div 2))) (height' * 9.6 / 10.0) None, Set_source_rgba 0 0 0.4 1, Fill] @
      concat (map (\<lambda>(s, line, c). draw_line g ws t w weight s line c) (zip (styles g) (zip snapshot current_values))) @
      concat (map (draw_grid_line g ws) (y_tick_labels g)) @
      [New_path, Identity_matrix, Rectangle 0 0 190 height', Set_source_fadeout, Fill,
       Text_at Info (real (unat (fst ws div 2))) 20 (Some (real (unat (fst ws - 40)))), Set_source_rgba 0.4 0 0 1, Fill,
       Text_rotated_at Y_label 25 (height' * 0.4375), Set_source_rgba 0 0 0.4 1, Fill] @
      concat (map (draw_y_label g ws) (y_tick_labels g)) @
      [Present (current_gc g) (length (gc_sizes g)) (current_gc g)])"

definition draw_snapshot :: "u32 \<times> u32 \<Rightarrow> real \<Rightarrow> real \<Rightarrow> real list \<Rightarrow> real \<Rightarrow> (real \<times> real) list list \<Rightarrow> graph \<Rightarrow>
    (graph \<times> drawing_op list) res" where
  "draw_snapshot ws t w current_values weight snapshot g =
     asserting (length snapshot = length current_values)
    (asserting (weight \<ge> 0)
    (asserting (weight \<le> 1)
    (res_bind (scan_lines weight (styles g) snapshot current_values float_min) (\<lambda>max_value.
     let g1 = resize_gc ws (rescale max_value g) in
     res_bind (x_labels t w (x_tick_labels g1)) (\<lambda>xs.
     let g2 = g1\<lparr>x_tick_labels := xs\<rparr> in
     res_bind (y_labels g2) (\<lambda>ys.
     let g3 = g2\<lparr>y_tick_labels := ys\<rparr> in
       Inr (g3\<lparr>current_gc := (current_gc g3 + 1) mod length (gc_sizes g3)\<rparr>,
            draw_frame ws t w current_values weight snapshot g3)))))))"

section \<open>Old points, and the scale\<close>

lemma trim_line_suffix: "suffix (trim_line edge ps) ps"
  by (induction edge ps rule: trim_line.induct) (auto intro: suffix_order.trans suffix_ConsI)

lemma trim_line_edge: "trim_line edge ps = p # q # qs \<Longrightarrow> edge \<le> fst p \<or> edge \<le> fst q"
  by (induction edge ps rule: trim_line.induct) (auto split: if_splits)

lemma trim_line_Nil [simp]: "trim_line edge ps = [] \<longleftrightarrow> ps = []"
  by (induction edge ps rule: trim_line.induct) auto

lemma foldl_max: "foldl (\<lambda>m p. if m < snd p then snd p else m) (m :: real) ps = foldl max m (map snd ps)"
  by (induction ps arbitrary: m) (simp_all add: max_def)

lemma foldl_max_ge0: "(m :: real) \<le> foldl max m xs"
proof (induction xs arbitrary: m)
  case (Cons x xs)
  show ?case using order.trans [OF max.cobounded1 Cons.IH, of m x] by simp
qed simp

lemma foldl_max_ge: "x \<in> insert m (set xs) \<Longrightarrow> (x :: real) \<le> foldl max m xs"
proof (induction xs arbitrary: m x)
  case (Cons y ys)
  have "x = m \<or> x = y \<or> x \<in> set ys" using Cons.prems by auto
  moreover have "max m y \<le> foldl max (max m y) ys" by (rule foldl_max_ge0)
  ultimately show ?case using Cons.IH [of x "max m y"] by (auto simp del: max.bounded_iff dest: max.boundedE)
qed (simp add: foldl_max_ge0)

lemma scan_line_ge: "m \<le> scan_line weight skip ps c m"
  using foldl_max_ge [of m m "map snd ps"] by (auto simp: scan_line_def foldl_max Let_def)

lemma scan_line_points: "\<not> skip \<Longrightarrow> p \<in> set ps \<Longrightarrow> snd p \<le> scan_line weight skip ps c m"
  using foldl_max_ge [of "snd p" m "map snd ps"] by (force simp: scan_line_def foldl_max Let_def)

lemma scan_lines_returns:
  assumes "length ss = length pss" and "length cs = length pss"
  shows "\<exists>r. scan_lines weight ss pss cs m = Inr r \<and> m \<le> r \<and>
     (\<forall>(s, ps) \<in> set (zip ss pss). \<not> filled s \<longrightarrow> (\<forall>p \<in> set ps. snd p \<le> r))"
  using assms
proof (induction weight ss pss cs m rule: scan_lines.induct)
  case (4 weight s ss ps pss c cs m)
  then obtain r where r: "scan_lines weight ss pss cs (scan_line weight (filled s) ps c m) = Inr r"
      "scan_line weight (filled s) ps c m \<le> r"
      "\<forall>(s, ps) \<in> set (zip ss pss). \<not> filled s \<longrightarrow> (\<forall>p \<in> set ps. snd p \<le> r)" by auto
  have "m \<le> r" using scan_line_ge r(2) by (rule order.trans)
  moreover have "snd p \<le> r" if "\<not> filled s" "p \<in> set ps" for p
    using scan_line_points [OF that] r(2) by (rule order.trans)
  ultimately show ?case using r by auto
qed simp_all

lemma scan_line_le: "current \<le> b \<Longrightarrow> m \<le> b \<Longrightarrow> \<forall>p \<in> set ps. snd p \<le> b \<Longrightarrow> scan_line weight skip ps current m \<le> b"
proof -
  assume "current \<le> b" "m \<le> b" "\<forall>p \<in> set ps. snd p \<le> b"
  moreover from this(2,3) have "foldl max m (map snd ps) \<le> b" by (induction ps arbitrary: m) auto
  ultimately show ?thesis by (auto simp: scan_line_def foldl_max Let_def)
qed

lemma scan_lines_le:
  assumes "scan_lines weight ss pss cs m = Inr r" and "m \<le> b" and "\<forall>c \<in> set cs. c \<le> b" and "\<forall>ps \<in> set pss. \<forall>p \<in> set ps. snd p \<le> b"
  shows "r \<le> b"
  using assms by (induction weight ss pss cs m rule: scan_lines.induct) (auto intro: scan_line_le)

lemma float_min_pos: "0 < float_min"
  by (simp add: float_min_def)

text \<open>A bound of the values, far beyond those of a meter, below which the scale stays in the range of \<open>lrintf\<close>.\<close>

definition scale_bound :: real where
  "scale_bound = 2 ^ 60"

definition in_scale :: "graph \<Rightarrow> bool" where
  "in_scale g \<longleftrightarrow> - scale_bound \<le> bottom g \<and> bottom g \<le> scale_bound \<and> - scale_bound \<le> target_min_y g \<and>
     target_min_y g \<le> scale_bound \<and> top_y g \<le> 2 * scale_bound \<and> target_max_y g \<le> 2 * scale_bound"

lemma rescale_in_scale:
  assumes "in_scale g" and "m \<le> scale_bound"
  shows "in_scale (rescale m g)"
proof -
  have m: "m * 1.4 \<le> 2 * scale_bound" "m * 1.6 \<le> 2 * scale_bound" "target_min_y g + 1 \<le> 2 * scale_bound"
    using assms by (auto simp: in_scale_def scale_bound_def)
  have t: "target_max_y (rescale m g) \<le> 2 * scale_bound" using m assms(1) by (auto simp: rescale_def Let_def in_scale_def)
  have "20 * top_y (rescale m g) = 19 * top_y g + target_max_y (rescale m g)"
    "20 * bottom (rescale m g) = 19 * bottom g + target_min_y g" "target_min_y (rescale m g) = target_min_y g"
    by (simp_all add: rescale_def Let_def power2_eq_square field_simps)
  with t assms(1) show ?thesis unfolding in_scale_def by linarith
qed

text \<open>The target leaves the largest value a margin, and is not too far above it.\<close>

lemma rescale_target:
  assumes "0 < m"
  shows "m * 1.2 \<le> target_max_y (rescale m g)"
    and "target_max_y (rescale m g) \<le> m * 1.8 \<or> target_max_y (rescale m g) = target_min_y g + 1"
  using assms by (auto simp: rescale_def Let_def max_def)

lemma rescale_scale:
  assumes "target_min_y g < target_max_y g" and "bottom g < top_y g"
  shows "target_min_y (rescale m g) < target_max_y (rescale m g)" and "bottom (rescale m g) < top_y (rescale m g)"
proof -
  show t: "target_min_y (rescale m g) < target_max_y (rescale m g)"
    using assms(1) by (auto simp: rescale_def Let_def max_def)
  have "20 * top_y (rescale m g) = 19 * top_y g + target_max_y (rescale m g)"
    "20 * bottom (rescale m g) = 19 * bottom g + target_min_y (rescale m g)"
    by (simp_all add: rescale_def Let_def power2_eq_square field_simps)
  with t assms(2) show "bottom (rescale m g) < top_y (rescale m g)" by linarith
qed

lemma rescale_rest [simp]:
  "gc_sizes (rescale m g) = gc_sizes g" "current_gc (rescale m g) = current_gc g" "styles (rescale m g) = styles g"
  "x_tick_labels (rescale m g) = x_tick_labels g" "y_tick_labels (rescale m g) = y_tick_labels g"
  "data_points (rescale m g) = data_points g" "target_min_y (rescale m g) = target_min_y g"
  by (simp_all add: rescale_def Let_def)

section \<open>The time axis\<close>

definition consecutive :: "int list \<Rightarrow> bool" where
  "consecutive ls \<longleftrightarrow> successively (\<lambda>a b. b = a + 1) ls"

lemma consecutive_ge: "consecutive (a # ls) \<Longrightarrow> l \<in> set ls \<Longrightarrow> a < l"
  by (induction ls arbitrary: a) (force simp: consecutive_def)+

lemma lrint_near: "\<bar>of_int (lrint x) - x\<bar> \<le> 1 / 2"
proof -
  have "of_int \<lfloor>x\<rfloor> \<le> x" "x < of_int \<lfloor>x\<rfloor> + 1" by linarith+
  then show ?thesis by (auto simp: lrint_def Let_def)
qed

lemma lrint_of_int [simp]: "lrint (of_int n) = n"
  by (simp add: lrint_def)

lemma to_int_small:
  assumes "- (2 ^ 31) \<le> x" and "x \<le> 2 ^ 31 - 1"
  shows "\<exists>n. to_int x = Inr n \<and> sint n = lrint x"
proof -
  have "- (2 ^ 31) - 1 < real_of_int (lrint x)" "real_of_int (lrint x) < 2 ^ 31" using lrint_near [of x] assms by linarith+
  then have "real_of_int (- (2 ^ 31) - 1) < real_of_int (lrint x)" "real_of_int (lrint x) < real_of_int (2 ^ 31)" by simp_all
  then have "- (2 ^ 31) \<le> lrint x" "lrint x < 2 ^ 31" by (simp_all only: of_int_less_iff)
  then show ?thesis by (simp add: to_int_def signed_of_int signed_take_bit_int_eq_self)
qed

text \<open>The labels after a frame at time \<open>t\<close> whose left edge is at \<open>lo\<close>.\<close>

definition axis_ok :: "real \<Rightarrow> real \<Rightarrow> u32 list \<Rightarrow> bool" where
  "axis_ok lo t ls \<longleftrightarrow> consecutive (map sint ls) \<and> ls \<noteq> [] \<and> t + 1 \<le> of_int (sint (last ls)) \<and> (\<forall>l \<in> set ls. lo \<le> of_int (sint l))"

text \<open>A time at which the labels can be counted: a second later is in the range of an \<open>int\<close>.\<close>

definition countable_time :: "real \<Rightarrow> bool" where
  "countable_time t \<longleftrightarrow> 0 \<le> t \<and> t + 1 \<le> 2 ^ 31 - 1"

lemma add_x_labels_axis:
  assumes "consecutive (map sint ls)" and "\<forall>l \<in> set ls. lo \<le> of_int (sint l)" and "lo \<le> t - 1" and "countable_time t"
  shows "\<exists>ls'. add_x_labels t ls = Inr ls' \<and> axis_ok lo t ls'"
  using assms
proof (induction t ls rule: add_x_labels.induct)
  case (1 t ls)
  show ?case
  proof (cases "ls = []")
    case True
    obtain n where n: "to_int t = Inr n" "sint n = lrint t"
      using to_int_small [of t] "1.prems"(4) by (auto simp: countable_time_def)
    have "lo \<le> of_int (sint n)" using lrint_near [of t] "1.prems"(3) n(2) by linarith
    then have "\<exists>ls'. add_x_labels t [n] = Inr ls' \<and> axis_ok lo t ls'"
      using "1.IH"(1) [OF True n(1)] "1.prems"(3,4) by (simp add: consecutive_def)
    with True n(1) show ?thesis by (subst add_x_labels.simps) simp
  next
    case False
    show ?thesis
    proof (cases "of_int (sint (last ls)) < t + 1")
      case True
      have "real_of_int (sint (last ls)) < real_of_int (2 ^ 31 - 1)" using True "1.prems"(4) by (simp add: countable_time_def)
      then have n: "sint (last ls) \<noteq> 2 ^ 31 - 1" by linarith
      note s = sint_u32_Suc [OF n]
      have "consecutive (map sint (ls @ [last ls + 1]))"
        using "1.prems"(1) False s by (simp add: consecutive_def successively_append_iff last_map)
      moreover have "lo \<le> of_int (sint (last ls))" using "1.prems"(2) last_in_set [OF False] by (rule bspec)
      then have "lo \<le> of_int (sint (last ls + 1))" unfolding s by linarith
      then have "\<forall>l \<in> set (ls @ [last ls + 1]). lo \<le> of_int (sint l)" using "1.prems"(2) by (simp del: of_int_sint)
      ultimately have "\<exists>ls'. add_x_labels t (ls @ [last ls + 1]) = Inr ls' \<and> axis_ok lo t ls'"
        by (intro "1.IH"(2) [OF False True n] "1.prems"(3,4))
      with False True n show ?thesis by (subst add_x_labels.simps) simp
    next
      case end_: False
      with False "1.prems" show ?thesis by (subst add_x_labels.simps) (simp add: axis_ok_def)
    qed
  qed
qed

lemma consecutive_dropWhile: "consecutive (map sint ls) \<Longrightarrow> consecutive (map sint (dropWhile P ls))"
  by (induction ls) (auto simp: consecutive_def successively_Cons)

lemma x_labels_axis:
  assumes "consecutive (map sint ls)" and "0 \<le> w" and "countable_time t"
  shows "\<exists>ls'. x_labels t w ls = Inr ls' \<and> axis_ok (t - w - 1) t ls'"
proof -
  let ?ls = "dropWhile (\<lambda>l. real_of_int (sint l) < t - w - 1) ls"
  have c: "consecutive (map sint ?ls)" using assms(1) by (rule consecutive_dropWhile)
  have "t - w - 1 \<le> of_int (sint l)" if "l \<in> set ?ls" for l
  proof (cases ?ls)
    case (Cons a as)
    then have "t - w - 1 \<le> of_int (sint a)" using hd_dropWhile [of "\<lambda>l. real_of_int (sint l) < t - w - 1" ls] by auto
    moreover have "sint a \<le> sint l" using consecutive_ge [of "sint a" "map sint as" "sint l"] c that Cons by auto
    then have "real_of_int (sint a) \<le> of_int (sint l)" by (simp only: of_int_le_iff)
    ultimately show ?thesis by linarith
  next
    case Nil
    with that show ?thesis by (metis empty_iff list.set(1))
  qed
  then show ?thesis using add_x_labels_axis [OF c, of "t - w - 1" t] assms(2,3) by (auto simp: x_labels_def)
qed

section \<open>The value axis\<close>

lemma double_spacing_pos: "0 < double_spacing extent k"
proof (induction extent k rule: double_spacing.induct)
  case (1 extent k)
  from "1.IH" [OF refl] show ?case by (subst double_spacing.simps) (simp add: Let_def)
qed

lemma heights_from_ge: "h \<in> set (heights_from val label_top s) \<Longrightarrow> val \<le> h \<and> h \<le> label_top"
proof (induction val label_top s rule: heights_from.induct)
  case (1 val label_top s)
  show ?case
  proof (cases "0 < s \<and> val \<le> label_top")
    case True
    with "1.prems" have "h = val \<or> h \<in> set (heights_from (val + s) label_top s)" by (simp add: heights_from.simps [of val])
    with "1.IH" [OF True] True show ?thesis by auto
  next
    case False
    with "1.prems" show ?thesis by (auto simp: heights_from.simps [of val])
  qed
qed

lemma heights_from_distinct: "distinct (heights_from val label_top s)"
proof (induction val label_top s rule: heights_from.induct)
  case (1 val label_top s)
  show ?case
  proof (cases "0 < s \<and> val \<le> label_top")
    case True
    then have "val \<notin> set (heights_from (val + s) label_top s)" using heights_from_ge [of val "val + s" label_top s] by auto
    with "1.IH" [OF True] True show ?thesis by (simp add: heights_from.simps [of val])
  qed (auto simp: heights_from.simps [of val])
qed

lemma heights_between_distinct: "distinct (heights_between g b t)"
  by (simp add: heights_between_def Let_def heights_from_distinct)

lemma wanted_heights_returns:
  assumes "in_scale g" and "bottom g < top_y g"
  shows "\<exists>hs. wanted_heights g = Inr hs \<and> distinct hs"
proof -
  have "- (2 ^ 60) \<le> bottom g" "bottom g \<le> 2 ^ 60" "- (2 ^ 60) \<le> top_y g" "top_y g \<le> 2 ^ 61"
    using assms by (simp_all add: in_scale_def scale_bound_def)
  then have "- (2 ^ 63) \<le> \<lfloor>bottom g\<rfloor>" "\<lfloor>bottom g\<rfloor> < 2 ^ 63" "- (2 ^ 63) \<le> \<lceil>top_y g\<rceil>" "\<lceil>top_y g\<rceil> < 2 ^ 63"
    by (simp_all add: le_floor_iff floor_less_iff le_ceiling_iff ceiling_less_iff)
  then show ?thesis by (simp add: wanted_heights_def to_int_def heights_between_distinct)
qed

text \<open>
  Removing labels loses no label that has not faded. It may leave one that has: of two faded
  labels in a row only the first is removed.
\<close>

lemma cull_subseq: "subseq (cull it ls) ls"
proof (induction it ls rule: cull.induct)
  case (1 it ls)
  have "subseq (take it ls @ drop (it + 1) ls) ls" if "it < length ls"
    using id_take_nth_drop [OF that] by (metis Suc_eq_plus1 subseq_append_iff list_emb_Cons subseq_order.refl subseq_append')
  with 1 show ?case by (subst cull.simps) (auto intro: subseq_order.trans)
qed

lemma cull_keeps:
  "filter (\<lambda>l. \<not> intensity l < 0.01) (cull it ls) = filter (\<lambda>l. \<not> intensity l < 0.01) ls"
proof (induction it ls rule: cull.induct)
  case (1 it ls)
  have "filter (\<lambda>l. \<not> intensity l < 0.01) (take it ls @ drop (it + 1) ls) = filter (\<lambda>l. \<not> intensity l < 0.01) ls"
    if "it < length ls" "intensity (ls ! it) < 0.01"
    using that(2) by (subst (3) id_take_nth_drop [OF that(1)]) simp
  with 1 show ?case by (subst cull.simps) simp
qed

lemma cull_skips: "cull 0 [\<lparr>height = 0, intensity = 0\<rparr>, \<lparr>height = 1, intensity = 0\<rparr>] = [\<lparr>height = 1, intensity = 0\<rparr>]"
  by (simp add: cull.simps)

lemma find_label_eq:
  assumes "distinct (map fst ys)" and "(h, True) \<notin> set ys"
  shows "find_label h ys = Inr (h \<in> fst ` set ys, map (\<lambda>y. (fst y, snd y \<or> fst y = h)) ys)"
  using assms
proof (induction ys)
  case (Cons y ys)
  show ?case
  proof (cases "h = fst y")
    case True
    then have "h \<notin> fst ` set ys" using Cons.prems(1) by simp
    then have "map (\<lambda>y. (fst y, snd y \<or> fst y = h)) ys = ys" by (intro map_idI) force
    moreover have "\<not> snd y" using Cons.prems(2) True by (cases y) auto
    ultimately show ?thesis using True by (simp add: asserting_def)
  next
    case False
    with Cons show ?thesis by simp
  qed
qed simp

text \<open>A label glows when it belongs on the frame and fades otherwise.\<close>

definition faded :: "real set \<Rightarrow> ylabel \<Rightarrow> ylabel" where
  "faded hs l = l\<lparr>intensity := 0.95 * intensity l + (if height l \<in> hs then 0.05 else 0)\<rparr>"

lemma adjust_labels_eq:
  assumes "distinct (map fst ys)" and "distinct (map height ls)" and "\<forall>l \<in> set ls. (height l, True) \<notin> set ys"
  shows "adjust_labels ls ys =
     Inr (map (faded (fst ` set ys)) ls, map (\<lambda>y. (fst y, snd y \<or> fst y \<in> height ` set ls)) ys)"
  using assms
proof (induction ls arbitrary: ys)
  case (Cons l ls)
  let ?ys = "map (\<lambda>y. (fst y, snd y \<or> fst y = height l)) ys"
  have "distinct (map fst ?ys)" and fst: "fst ` set ?ys = fst ` set ys" using Cons.prems(1) by (simp_all add: comp_def image_image)
  moreover have "\<forall>k \<in> set ls. (height k, True) \<notin> set ?ys"
    using Cons.prems(2,3) by (force simp: image_iff)
  ultimately have "adjust_labels ls ?ys =
      Inr (map (faded (fst ` set ys)) ls, map (\<lambda>y. (fst y, snd y \<or> fst y \<in> height ` set ls)) ?ys)"
    using Cons.IH [of ?ys] Cons.prems(2) by simp
  then show ?case using Cons.prems find_label_eq [of ys "height l"] by (auto simp: faded_def)
qed simp

text \<open>The labels after a frame: those that stay, and one for every wanted height that has none.\<close>

lemma y_labels_eq:
  assumes "wanted_heights g = Inr hs" and "distinct hs" and "distinct (map height (y_tick_labels g))"
  shows "y_labels g = Inr (map (faded (set hs)) (cull 0 (y_tick_labels g)) @
     map (\<lambda>v. \<lparr>height = v, intensity = 0.05\<rparr>) (filter (\<lambda>v. v \<notin> height ` set (cull 0 (y_tick_labels g))) hs))"
proof -
  have d: "distinct (map height (cull 0 (y_tick_labels g)))"
    using assms(3) subseq_map [OF cull_subseq, of height] by (metis in_set_subseqs subseqs_distinctD)
  have "distinct (map fst (map (\<lambda>v. (v, False)) hs))" using assms(2) by (simp add: comp_def)
  moreover have "\<forall>l \<in> set (cull 0 (y_tick_labels g)). (height l, True) \<notin> set (map (\<lambda>v. (v, False)) hs)" by auto
  ultimately show ?thesis
    using adjust_labels_eq [OF _ d] assms(1) by (simp add: y_labels_def new_labels_def image_image comp_def filter_map)
qed

definition labels_ok :: "ylabel list \<Rightarrow> bool" where
  "labels_ok ls \<longleftrightarrow> distinct (map height ls) \<and> (\<forall>l \<in> set ls. 0 < intensity l \<and> intensity l \<le> 1)"

lemma faded_fields [simp]: "height (faded hs l) = height l"
  by (simp add: faded_def)

lemma faded_intensity: "0 < intensity l \<Longrightarrow> intensity l \<le> 1 \<Longrightarrow> 0 < intensity (faded hs l) \<and> intensity (faded hs l) \<le> 1"
  by (auto simp: faded_def power2_eq_square)

lemma y_labels_ok:
  assumes "labels_ok (y_tick_labels g)" and hs: "wanted_heights g = Inr hs" "distinct hs"
  shows "\<exists>ls. y_labels g = Inr ls \<and> labels_ok ls \<and> set hs \<subseteq> height ` set ls"
proof -
  let ?old = "cull 0 (y_tick_labels g)"
  let ?new = "filter (\<lambda>v. v \<notin> height ` set ?old) hs"
  let ?ls = "map (faded (set hs)) ?old @ map (\<lambda>v. \<lparr>height = v, intensity = 0.05\<rparr>) ?new"
  have "distinct (map height ?old)"
    using assms(1) subseq_map [OF cull_subseq, of height] unfolding labels_ok_def by (metis in_set_subseqs subseqs_distinctD)
  then have "distinct (map height ?ls)" using hs(2) by (auto simp: comp_def)
  moreover have "set ?old \<subseteq> set (y_tick_labels g)" using list_emb_set [OF cull_subseq] by blast
  then have "0 < intensity l \<and> intensity l \<le> 1" if "l \<in> set ?ls" for l
    using that assms(1) faded_intensity by (auto simp: labels_ok_def power2_eq_square)
  moreover have "set hs \<subseteq> height ` set ?ls" by (auto simp: image_Un image_image)
  ultimately show ?thesis using y_labels_eq [OF hs] assms(1) unfolding labels_ok_def by blast
qed

section \<open>Frames\<close>

definition small_values :: "(real \<times> real) list list \<Rightarrow> bool" where
  "small_values pss \<longleftrightarrow> (\<forall>ps \<in> set pss. \<forall>p \<in> set ps. snd p \<le> scale_bound)"

definition graph_inv :: "graph \<Rightarrow> bool" where
  "graph_inv g \<longleftrightarrow>
     length (gc_sizes g) = 3 \<and> current_gc g < 3 \<and> length (data_points g) = length (styles g) \<and>
     target_min_y g < target_max_y g \<and> bottom g < top_y g \<and> in_scale g \<and> small_values (data_points g) \<and>
     consecutive (map sint (x_tick_labels g)) \<and> labels_ok (y_tick_labels g)"

lemma mk_graph_inv:
  "min_y < max_y \<Longrightarrow> - scale_bound \<le> min_y \<Longrightarrow> min_y \<le> scale_bound \<Longrightarrow> max_y \<le> scale_bound \<Longrightarrow> graph_inv (mk_graph ws min_y max_y ss)"
  by (simp add: graph_inv_def mk_graph_def consecutive_def labels_ok_def in_scale_def small_values_def scale_bound_def)

lemma add_data_point_inv:
  assumes "graph_inv g" and "i < length (styles g)" and "y \<le> scale_bound"
  shows "\<exists>g'. add_data_point i t y g = Inr g' \<and> graph_inv g' \<and> styles g' = styles g \<and> current_gc g' = current_gc g"
proof -
  have d: "small_values (data_points g)" "data_points g ! i \<in> set (data_points g)" using assms(1,2) by (simp_all add: graph_inv_def)
  then have "\<forall>p \<in> set (data_points g ! i @ [(t, y)]). snd p \<le> scale_bound" using assms(3) by (auto simp: small_values_def)
  with d(1) have "small_values ((data_points g)[i := data_points g ! i @ [(t, y)]])"
    unfolding small_values_def by (metis insert_iff set_update_subset_insert subsetD)
  with assms show ?thesis by (simp add: graph_inv_def add_data_point_def in_scale_def)
qed

text \<open>The scale shows every point of a line that is not filled, with a margin.\<close>

definition fits_data :: "(real \<times> real) list list \<Rightarrow> graph \<Rightarrow> bool" where
  "fits_data snapshot g \<longleftrightarrow>
     (\<forall>(s, line) \<in> set (zip (styles g) snapshot). \<not> filled s \<longrightarrow> (\<forall>p \<in> set line. snd p * 1.2 \<le> target_max_y g))"

lemma wanted_heights_cong: "bottom g' = bottom g \<Longrightarrow> top_y g' = top_y g \<Longrightarrow> wanted_heights g' = wanted_heights g"
  by (simp add: wanted_heights_def heights_between_def project_height_def)

text \<open>What trimming and resizing leave alone.\<close>

lemma trim_points_rest [simp]:
  "data_points (trim_points e g) = map (trim_line e) (data_points g)" "styles (trim_points e g) = styles g"
  "gc_sizes (trim_points e g) = gc_sizes g" "current_gc (trim_points e g) = current_gc g"
  "x_tick_labels (trim_points e g) = x_tick_labels g" "y_tick_labels (trim_points e g) = y_tick_labels g"
  "target_min_y (trim_points e g) = target_min_y g" "target_max_y (trim_points e g) = target_max_y g"
  "bottom (trim_points e g) = bottom g" "top_y (trim_points e g) = top_y g"
  by (simp_all add: trim_points_def)

lemma resize_gc_rest [simp]:
  "data_points (resize_gc ws g) = data_points g" "styles (resize_gc ws g) = styles g"
  "length (gc_sizes (resize_gc ws g)) = length (gc_sizes g)" "current_gc (resize_gc ws g) = current_gc g"
  "x_tick_labels (resize_gc ws g) = x_tick_labels g" "y_tick_labels (resize_gc ws g) = y_tick_labels g"
  "target_min_y (resize_gc ws g) = target_min_y g" "target_max_y (resize_gc ws g) = target_max_y g"
  "bottom (resize_gc ws g) = bottom g" "top_y (resize_gc ws g) = top_y g"
  by (simp_all add: resize_gc_def)

lemma trim_points_inv:
  assumes "graph_inv g"
  shows "graph_inv (trim_points e g)"
proof -
  have "set (trim_line e ps) \<subseteq> set ps" for ps using trim_line_suffix by (rule set_mono_suffix)
  then have "small_values (map (trim_line e) (data_points g))"
    using assms by (fastforce simp: graph_inv_def small_values_def)
  with assms show ?thesis by (simp add: graph_inv_def in_scale_def)
qed

lemma draw_frame_presents: "last (draw_frame ws t w cs weight snap g) = Present (current_gc g) (length (gc_sizes g)) (current_gc g)"
  by (simp add: draw_frame_def Let_def)

lemma frame_core:
  assumes "graph_inv g" and "length snap = length (styles g)" and "length cs = length (styles g)" and "0 \<le> weight" and "weight \<le> 1"
    and "0 \<le> w" and "countable_time t" and "small_values snap" and "\<forall>c \<in> set cs. c \<le> scale_bound"
  shows "\<exists>g' ops hs. draw_snapshot ws t w cs weight snap g = Inr (g', ops) \<and> last ops = Present (current_gc g) 3 (current_gc g) \<and>
     graph_inv g' \<and> styles g' = styles g \<and> data_points g' = data_points g \<and> fits_data snap g' \<and>
     axis_ok (t - w - 1) t (x_tick_labels g') \<and> wanted_heights g' = Inr hs \<and> set hs \<subseteq> height ` set (y_tick_labels g') \<and>
     current_gc g' = (current_gc g + 1) mod 3"
proof -
  have i: "length (gc_sizes g) = 3" "target_min_y g < target_max_y g"
      "bottom g < top_y g" "consecutive (map sint (x_tick_labels g))" "labels_ok (y_tick_labels g)" "in_scale g"
    using assms(1) by (simp_all add: graph_inv_def)
  obtain m where m: "scan_lines weight (styles g) snap cs float_min = Inr m" "float_min \<le> m"
      "\<forall>(s, ps) \<in> set (zip (styles g) snap). \<not> filled s \<longrightarrow> (\<forall>p \<in> set ps. snd p \<le> m)"
    using scan_lines_returns [of "styles g" snap cs weight float_min] assms(2,3) by auto
  have small: "m \<le> scale_bound"
    using scan_lines_le [OF m(1), of scale_bound] assms(8,9) by (simp add: small_values_def float_min_def scale_bound_def)
  define g1 where "g1 = resize_gc ws (rescale m g)"
  obtain xs where xs: "x_labels t w (x_tick_labels g1) = Inr xs" "axis_ok (t - w - 1) t xs"
    using x_labels_axis [OF i(4) assms(6,7)] by (auto simp: g1_def)
  define g2 where "g2 = g1\<lparr>x_tick_labels := xs\<rparr>"
  have s: "target_min_y g2 < target_max_y g2" "bottom g2 < top_y g2" "in_scale g2"
    using rescale_scale [OF i(2,3), of m] rescale_in_scale [OF i(6) small] by (simp_all add: g2_def g1_def in_scale_def)
  obtain hs where hs: "wanted_heights g2 = Inr hs" "distinct hs" using wanted_heights_returns [OF s(3,2)] by blast
  obtain ls where ls: "y_labels g2 = Inr ls" "labels_ok ls" "set hs \<subseteq> height ` set ls"
    using y_labels_ok [OF _ hs] i(5) by (auto simp: g2_def g1_def)
  define g3 where "g3 = g2\<lparr>y_tick_labels := ls\<rparr>"
  define g4 where "g4 = g3\<lparr>current_gc := (current_gc g3 + 1) mod length (gc_sizes g3)\<rparr>"
  note fields = g4_def g3_def g2_def g1_def
  have run: "draw_snapshot ws t w cs weight snap g = Inr (g4, draw_frame ws t w cs weight snap g3)"
    using assms(2-5) m(1) xs(1) ls(1) unfolding draw_snapshot_def g4_def g3_def g2_def g1_def by (simp add: Let_def)
  have inv: "graph_inv g4" using assms(1) xs(2) ls(2) s by (simp add: graph_inv_def axis_ok_def in_scale_def fields)
  have "y * 1.2 \<le> target_max_y g4" if "y \<le> m" for y
  proof -
    have "m * 1.2 \<le> target_max_y g4" using rescale_target(1) [of m g] float_min_pos m(2) by (simp add: fields)
    then show ?thesis using that by simp
  qed
  moreover have "styles g4 = styles g" by (simp add: fields)
  ultimately have fits: "fits_data snap g4" using m(3) by (fastforce simp: fits_data_def)
  have "wanted_heights g4 = wanted_heights g2" by (rule wanted_heights_cong) (simp_all add: g4_def g3_def)
  with hs(1) ls(3) have wanted: "wanted_heights g4 = Inr hs" "set hs \<subseteq> height ` set (y_tick_labels g4)" by (simp_all add: g4_def g3_def)
  have "current_gc g4 = (current_gc g + 1) mod 3" "styles g4 = styles g" "data_points g4 = data_points g"
    "axis_ok (t - w - 1) t (x_tick_labels g4)"
    "last (draw_frame ws t w cs weight snap g3) = Present (current_gc g) 3 (current_gc g)"
    using i xs(2) by (simp_all add: fields draw_frame_presents)
  with run inv fits wanted show ?thesis by blast
qed

end
