(* ===== verification/Live_Animation.thy ===== *)
theory Live_Animation
  imports Live_Graph Graph_Drawing
begin

text \<open>
  A meter and its two threads: \<open>BinnedLiveGraph::animation_loop\<close>, src/src/graphing/binned_livegraph.cc,
  and the thread that carries the packets and calls \<open>add_value_now\<close> and \<open>set_max_value_now\<close>, over the
  meter of Live_Graph.thy and the chart of Graph_Drawing.thy. Both threads are state machines:
  \<open>animation\<close> and \<open>packets\<close> say where in the code each is, and a run is any sequence of their single
  steps. \<open>advance\<close> holds \<open>mutex_\<close>, so a thread that comes to it waits while the other is inside; the
  animation then reads \<open>value_this_bin_\<close> without the lock, one value a step, while the other
  thread may be anywhere, also in the middle of \<open>advance\<close>; \<open>blocking_draw\<close> locks the data points only
  to drop old ones and copy the rest, and draws the copy. A step touches one series at most; reads and
  writes of one \<open>int\<close> are taken as indivisible, although the unlocked read is a data race for C++. The
  clock and the size of the window are inputs of the steps that read them.

  The member \<open>initialize_new_bin_\<close> is constructed after the thread that uses it has been started; the
  model takes it as there from the beginning. The estimate of a rate divides by the time since the
  bin began. At the first millisecond of a bin this is a division by zero, which C++ leaves undefined
  and IEEE arithmetic answers with an infinity or no number; the model ends there.
\<close>

section \<open>Model\<close>

record live_meter =
  meter :: livegraph
  chart :: graph

datatype live_update = Add_value nat u32 | Set_max_value nat u32

text \<open>
  The animation thread: at the head of its loop; before \<open>advance\<close>; inside it, with the time it has read
  and the next series; computing the estimates, with those it has; drawing, with the logical width, the
  estimates, their weight and the copied points; ended.
\<close>

datatype animation =
    Loop_head
  | Before_frame
  | In_frame_advance u64 nat
  | Estimating u64 "real list"
  | Drawing u64 real "real list" real "(real \<times> real) list list"
  | Ended

text \<open>The thread of the packets: in the constructor; between calls; before, inside and after the \<open>advance\<close> of a call.\<close>

datatype packets =
    Constructing nat
  | Between_calls
  | Before_advance live_update
  | In_call_advance live_update u64 nat
  | After_advance live_update

record live =
  shared :: live_meter
  animation :: animation
  packets :: packets
  halt :: bool

definition mk_live_meter :: "u32 \<times> u32 \<Rightarrow> style list \<Rightarrow> real \<Rightarrow> bool \<Rightarrow> u32 \<Rightarrow> (u32 \<Rightarrow> u32 \<Rightarrow> u32) \<Rightarrow> u64 \<Rightarrow> live res" where
  "mk_live_meter ws ss mult rate width init now =
     res_bind (mk_livegraph (length ss) mult rate width init now) (\<lambda>m.
       Inr \<lparr>shared = \<lparr>meter = m\<lparr>graph_points := []\<rparr>, chart = mk_graph ws 0 1 ss\<rparr>, animation = Loop_head,
            packets = Constructing 0, halt = False\<rparr>)"

definition emit_point :: "nat \<Rightarrow> real \<Rightarrow> real \<Rightarrow> live_meter \<Rightarrow> live_meter res" where
  "emit_point i x y lm =
     res_bind (add_data_point i x y (chart lm)) (\<lambda>g.
       Inr \<lparr>meter = (meter lm)\<lparr>graph_points := graph_points (meter lm) @ [(i, x, y)]\<rparr>, chart = g\<rparr>)"

subsection \<open>The loop of \<open>advance\<close>\<close>

definition bin_end :: "livegraph \<Rightarrow> real" where
  "bin_end m = real (unat ((current_bin m + 1) * ucast (bin_width_ms m))) / 1000"

definition renew_value :: "nat \<Rightarrow> livegraph \<Rightarrow> livegraph" where
  "renew_value i m = m\<lparr>value_this_bin := (value_this_bin m)[i := initialize_new_bin m (bin_width_ms m) (value_this_bin m ! i)]\<rparr>"

text \<open>One step of it at the time \<open>ts\<close>: the next series of the bin, or the next bin, or its end (\<open>None\<close>).\<close>

definition advance_step :: "u64 \<Rightarrow> nat \<Rightarrow> live_meter \<Rightarrow> (live_meter \<times> nat option) res" where
  "advance_step ts i lm =
     (let m = meter lm in
      if current_bin m < ts div ucast (bin_width_ms m) then
        if i < length (value_this_bin m) then
          res_bind (emit_point i (bin_end m) (plotted m (value_this_bin m ! i)) lm) (\<lambda>lm'.
            Inr (lm'\<lparr>meter := renew_value i (meter lm')\<rparr>, Some (i + 1)))
        else Inr (lm\<lparr>meter := m\<lparr>current_bin := current_bin m + 1\<rparr>\<rparr>, Some 0)
      else Inr (lm, None))"

text \<open>Who is inside \<open>advance\<close>, and so holds \<open>mutex_\<close>.\<close>

definition animation_holds :: "live \<Rightarrow> bool" where
  "animation_holds st \<longleftrightarrow> (case animation st of In_frame_advance ts i \<Rightarrow> True | _ \<Rightarrow> False)"

definition packets_hold :: "live \<Rightarrow> bool" where
  "packets_hold st \<longleftrightarrow> (case packets st of In_call_advance u ts i \<Rightarrow> True | _ \<Rightarrow> False)"

subsection \<open>The animation thread\<close>

definition logical_width :: "u32 \<times> u32 \<Rightarrow> real" where
  "logical_width ws = max 5.0 (real (unat (fst ws)) / 100.0)"

definition bin_width_so_far :: "u64 \<Rightarrow> livegraph \<Rightarrow> real" where
  "bin_width_so_far ts m = real (unat (ts mod ucast (bin_width_ms m)))"

definition current_estimate :: "livegraph \<Rightarrow> real \<Rightarrow> u32 \<Rightarrow> real res" where
  "current_estimate g so_far x =
     (let value = real_of_int (sint x) * multiplier g in
      if rate_quantity g then
        if so_far / 1000.0 = 0 then Inl Undefined_behaviour else Inr (value / (so_far / 1000.0))
      else Inr value)"

definition confidence :: "real \<Rightarrow> real" where
  "confidence bin_fraction = (1 - cos (bin_fraction * 3.14159 / 2.0)) ^ 2"

definition animation_step :: "u64 \<Rightarrow> u32 \<times> u32 \<Rightarrow> live \<Rightarrow> (live \<times> drawing_op list) res" where
  "animation_step now ws st =
     (case animation st of
        Loop_head \<Rightarrow> Inr (st\<lparr>animation := (if halt st then Ended else Before_frame)\<rparr>, [])
      | Before_frame \<Rightarrow> Inr (if packets_hold st then st else st\<lparr>animation := In_frame_advance now 0\<rparr>, [])
      | In_frame_advance ts i \<Rightarrow>
          res_bind (advance_step ts i (shared st)) (\<lambda>(lm, next).
            Inr (st\<lparr>shared := lm, animation := (case next of Some j \<Rightarrow> In_frame_advance ts j | None \<Rightarrow> Estimating ts [])\<rparr>, []))
      | Estimating ts es \<Rightarrow>
          (let m = meter (shared st); so_far = bin_width_so_far ts m in
           if length es < length (value_this_bin m) then
             res_bind (current_estimate m so_far (value_this_bin m ! length es)) (\<lambda>e.
               Inr (st\<lparr>animation := Estimating ts (es @ [e])\<rparr>, []))
           else
             let w = logical_width ws;
                 g = trim_points (real (unat ts) / 1000.0 - w - 1) (chart (shared st)) in
             Inr (st\<lparr>shared := (shared st)\<lparr>chart := g\<rparr>,
                     animation := Drawing ts w es (confidence (so_far / real (unat (bin_width_ms m)))) (data_points g)\<rparr>, []))
      | Drawing ts w es weight snapshot \<Rightarrow>
          res_bind (draw_snapshot ws (real (unat ts) / 1000.0) w es weight snapshot (chart (shared st))) (\<lambda>(g, ops).
            Inr (st\<lparr>shared := (shared st)\<lparr>chart := g\<rparr>, animation := Loop_head\<rparr>, ops))
      | Ended \<Rightarrow> Inr (st, []))"

subsection \<open>The thread of the packets\<close>

definition apply_update :: "live_update \<Rightarrow> livegraph \<Rightarrow> livegraph res" where
  "apply_update u m = (case u of Add_value num amount \<Rightarrow> add_to_bin num amount m | Set_max_value num amount \<Rightarrow> max_in_bin num amount m)"

definition packets_step :: "u64 \<Rightarrow> live \<Rightarrow> live res" where
  "packets_step now st =
     (case packets st of
        Constructing i \<Rightarrow>
          if i < length (value_this_bin (meter (shared st))) then
            res_bind (emit_point i 0 0 (shared st)) (\<lambda>lm. Inr (st\<lparr>shared := lm, packets := Constructing (i + 1)\<rparr>))
          else Inr (st\<lparr>packets := Between_calls\<rparr>)
      | Between_calls \<Rightarrow> Inr st
      | Before_advance u \<Rightarrow> Inr (if animation_holds st then st else st\<lparr>packets := In_call_advance u now 0\<rparr>)
      | In_call_advance u ts i \<Rightarrow>
          res_bind (advance_step ts i (shared st)) (\<lambda>(lm, next).
            Inr (st\<lparr>shared := lm, packets := (case next of Some j \<Rightarrow> In_call_advance u ts j | None \<Rightarrow> After_advance u)\<rparr>))
      | After_advance u \<Rightarrow>
          if animation_holds st then Inr st
          else
            res_bind (apply_update u (meter (shared st))) (\<lambda>m.
              Inr (st\<lparr>shared := (shared st)\<lparr>meter := m\<rparr>, packets := Between_calls\<rparr>)))"

subsection \<open>Runs\<close>

text \<open>
  What happens, in any order: a step of either thread, at a time and with a window size; a call of the
  packets' thread; the destructor, which asks the animation to halt.
\<close>

datatype live_event = Animation u64 "u32 \<times> u32" | Packets u64 | Call live_update | Destroy

fun live_step :: "live_event \<Rightarrow> live \<Rightarrow> live res" where
  "live_step (Animation now ws) st = res_bind (animation_step now ws st) (\<lambda>r. Inr (fst r))"
| "live_step (Packets now) st = packets_step now st"
| "live_step (Call u) st = Inr (if packets st = Between_calls then st\<lparr>packets := Before_advance u\<rparr> else st)"
| "live_step Destroy st = Inr (st\<lparr>halt := True\<rparr>)"

fun live_run :: "live_event list \<Rightarrow> live \<Rightarrow> live res" where
  "live_run [] st = Inr st"
| "live_run (ev # evs) st = res_bind (live_step ev st) (live_run evs)"

text \<open>The destructor waits for the thread, and prints the exception that has ended it before; \<open>describe\<close> is \<open>print_exception\<close>.\<close>

definition livegraph_destroy :: "(error \<Rightarrow> string) \<Rightarrow> live res \<Rightarrow> string list" where
  "livegraph_destroy describe thread =
     (case thread of Inl e \<Rightarrow> [''BinnedLiveGraph exited from exception: '', describe e] | Inr m \<Rightarrow> [])"

section \<open>The confidence is a weight\<close>

lemma arctan_le: "0 \<le> x \<Longrightarrow> arctan x \<le> x" for x :: real
proof -
  assume "0 \<le> x"
  have "\<exists>y. ((\<lambda>x. x - arctan x) has_real_derivative y) (at u) \<and> 0 \<le> y" for u :: real
    by (rule exI [of _ "1 - inverse (1 + u\<^sup>2)"]) (auto intro!: derivative_eq_intros simp: inverse_le_1_iff)
  from DERIV_nonneg_imp_nondecreasing [OF \<open>0 \<le> x\<close> this] show ?thesis by simp
qed

lemma arctan_ge: "0 \<le> x \<Longrightarrow> x - x ^ 3 / 3 + x ^ 5 / 5 - x ^ 7 / 7 \<le> arctan x" for x :: real
proof -
  assume "0 \<le> x"
  let ?f = "\<lambda>x :: real. arctan x - (x - x ^ 3 / 3 + x ^ 5 / 5 - x ^ 7 / 7)"
  have "\<exists>y. (?f has_real_derivative y) (at u) \<and> 0 \<le> y" for u
  proof (rule exI, rule conjI)
    show "(?f has_real_derivative (inverse (1 + u\<^sup>2) - (1 - u\<^sup>2 + u ^ 4 - u ^ 6))) (at u)"
      by (auto intro!: derivative_eq_intros)
    have p: "0 < 1 + u\<^sup>2" by (simp add: add_pos_nonneg)
    have "(1 - u\<^sup>2 + u ^ 4 - u ^ 6) * (1 + u\<^sup>2) = 1 - u ^ 8" by (simp add: algebra_simps flip: power_add)
    also have "\<dots> \<le> 1" by simp
    finally have "1 - u\<^sup>2 + u ^ 4 - u ^ 6 \<le> 1 / (1 + u\<^sup>2)" using p by (simp add: pos_le_divide_eq)
    then show "0 \<le> inverse (1 + u\<^sup>2) - (1 - u\<^sup>2 + u ^ 4 - u ^ 6)" by (simp add: inverse_eq_divide)
  qed
  from DERIV_nonneg_imp_nondecreasing [OF \<open>0 \<le> x\<close> this] show ?thesis by simp
qed

lemma pi_lower: "3.14159 < pi"
proof -
  have "pi / 4 = 4 * arctan (1 / 5) - arctan (1 / 239)" by (rule machin)
  moreover have "0.19739550 < arctan (1 / 5)" using arctan_ge [of "1 / 5"] by (simp add: power_divide)
  moreover have "arctan (1 / 239) \<le> 1 / 239" by (rule arctan_le) simp
  ultimately show ?thesis by simp
qed

lemma confidence_weight:
  assumes "0 \<le> f" and "f \<le> 1"
  shows "0 \<le> confidence f" and "confidence f \<le> 1"
proof -
  have "0 \<le> f * 3.14159 / 2.0" "f * 3.14159 / 2.0 \<le> pi / 2" using assms pi_lower by auto
  then have "0 \<le> cos (f * 3.14159 / 2.0)" by (intro cos_ge_zero) simp_all
  then show "0 \<le> confidence f" and "confidence f \<le> 1"
    unfolding confidence_def by (simp_all add: power_le_one)
qed

section \<open>The steps of \<open>advance\<close> are its loop\<close>

text \<open>Without a break, the steps for the series of a bin do what \<open>close_bin\<close> does.\<close>

definition close_value :: "nat \<Rightarrow> livegraph \<Rightarrow> livegraph" where
  "close_value i m = renew_value i (m\<lparr>graph_points := graph_points m @ [(i, bin_end m, plotted m (value_this_bin m ! i))]\<rparr>)"

lemma close_value_fields [simp]:
  "bin_width_ms (close_value i m) = bin_width_ms m" "multiplier (close_value i m) = multiplier m"
  "rate_quantity (close_value i m) = rate_quantity m" "initialize_new_bin (close_value i m) = initialize_new_bin m"
  "length (value_this_bin (close_value i m)) = length (value_this_bin m)" "current_bin (close_value i m) = current_bin m"
  by (simp_all add: close_value_def renew_value_def)

lemma close_values:
  assumes "k \<le> length (value_this_bin m)"
  shows "fold close_value [0..<k] m = m\<lparr>
     graph_points := graph_points m @ map (\<lambda>i. (i, bin_end m, plotted m (value_this_bin m ! i))) [0..<k],
     value_this_bin := map (initialize_new_bin m (bin_width_ms m)) (take k (value_this_bin m)) @ drop k (value_this_bin m)\<rparr>"
  using assms
proof (induction k)
  case (Suc k)
  let ?new = "map (initialize_new_bin m (bin_width_ms m)) (take k (value_this_bin m))"
  have "drop k (value_this_bin m) = value_this_bin m ! k # drop (Suc k) (value_this_bin m)"
    using Suc.prems by (simp add: Cons_nth_drop_Suc)
  moreover have "length ?new = k" "take (Suc k) (value_this_bin m) = take k (value_this_bin m) @ [value_this_bin m ! k]"
    using Suc.prems by (simp_all add: take_Suc_conv_app_nth)
  ultimately show ?case
    using Suc by (simp add: close_value_def renew_value_def bin_end_def plotted_def Let_def nth_append list_update_append)
qed simp

lemma close_bin_by_steps:
  "close_bin m = (fold close_value [0..<length (value_this_bin m)] m)\<lparr>current_bin := current_bin m + 1\<rparr>"
proof -
  have "map (\<lambda>i. (i, bin_end m, plotted m (value_this_bin m ! i))) [0..<length (value_this_bin m)] =
      map (\<lambda>(i, v). (i, bin_end m, plotted m v)) (zip [0..<length (value_this_bin m)] (value_this_bin m))"
    by (intro nth_equalityI) simp_all
  then show ?thesis unfolding close_bin_def Let_def bin_end_def [symmetric] by (simp add: close_values)
qed

lemma advance_step_meter:
  assumes "i < length (value_this_bin (meter lm))" and "current_bin (meter lm) < ts div ucast (bin_width_ms (meter lm))"
    and "advance_step ts i lm = Inr (lm', next)"
  shows "meter lm' = close_value i (meter lm) \<and> next = Some (i + 1)"
  using assms by (auto simp: advance_step_def emit_point_def close_value_def Let_def)

section \<open>Every frame is drawn\<close>

text \<open>Multipliers up to \<open>2 ^ 19\<close>; those of the program are 1 and 8 / 1000000.\<close>

definition small_multiplier :: "real \<Rightarrow> bool" where
  "small_multiplier x \<longleftrightarrow> \<bar>x\<bar> \<le> 2 ^ 19"

lemma value_small:
  fixes v :: u32
  assumes "small_multiplier x"
  shows "real_of_int (sint v) * x \<le> 2 ^ 50"
proof -
  have "real_of_int (- (2 ^ 31)) \<le> of_int (sint v)" "real_of_int (sint v) \<le> real_of_int (2 ^ 31)"
    using sint_u32 [of v] unfolding of_int_le_iff by simp_all
  then have "\<bar>real_of_int (sint v)\<bar> \<le> 2 ^ 31" unfolding abs_le_iff by simp
  then have "\<bar>real_of_int (sint v)\<bar> * \<bar>x\<bar> \<le> 2 ^ 31 * 2 ^ 19"
    using assms by (intro mult_mono) (simp_all add: small_multiplier_def)
  then have "\<bar>real_of_int (sint v) * x\<bar> \<le> 2 ^ 50" unfolding abs_mult by simp
  then show ?thesis by linarith
qed

lemma rate_small:
  assumes "x \<le> 2 ^ 50" and "n \<noteq> 0"
  shows "x / (real n / 1000) \<le> scale_bound"
proof -
  have "x / (real n / 1000) = x * 1000 / real n" by simp
  also have "\<dots> \<le> 2 ^ 50 * 1000 / real n" using assms by (intro divide_right_mono) simp_all
  also have "\<dots> \<le> 2 ^ 50 * 1000 / 1" using assms(2) by (intro divide_left_mono) simp_all
  also have "\<dots> \<le> scale_bound" by (simp add: scale_bound_def)
  finally show ?thesis .
qed

lemma plain_small: "x \<le> 2 ^ 50 \<Longrightarrow> x \<le> scale_bound"
  by (simp add: scale_bound_def)

text \<open>The meter and its chart, whoever works on them.\<close>

definition meter_inv :: "live_meter \<Rightarrow> bool" where
  "meter_inv lm \<longleftrightarrow>
     bin_width_ms (meter lm) \<noteq> 0 \<and> small_multiplier (multiplier (meter lm)) \<and>
     length (value_this_bin (meter lm)) = length (styles (chart lm)) \<and> graph_inv (chart lm)"

lemma plotted_small: "meter_inv lm \<Longrightarrow> plotted (meter lm) v \<le> scale_bound"
  using rate_small [OF value_small [of _ v], of _ "unat (bin_width_ms (meter lm))"] plain_small [OF value_small [of _ v]]
  by (simp add: plotted_def meter_inv_def Let_def unat_eq_0)

lemma estimate_small:
  assumes "meter_inv lm" and "current_estimate (meter lm) (bin_width_so_far ts (meter lm)) v = Inr e"
  shows "e \<le> scale_bound"
proof -
  let ?scaled = "real_of_int (sint v) * multiplier (meter lm)" and ?n = "unat (ts mod ucast (bin_width_ms (meter lm)))"
  have "?scaled \<le> 2 ^ 50" using assms(1) by (intro value_small) (simp add: meter_inv_def)
  moreover from this have "?scaled / (real ?n / 1000) \<le> scale_bound" if "?n \<noteq> 0" using that by (rule rate_small)
  moreover have "e = ?scaled / (real ?n / 1000) \<and> ?n \<noteq> 0 \<or> e = ?scaled"
    using assms(2) by (auto simp: current_estimate_def bin_width_so_far_def Let_def simp del: of_int_sint of_nat_unat split: if_splits)
  ultimately show ?thesis using plain_small by blast
qed

lemma emit_point_inv:
  assumes "meter_inv lm" and "i < length (value_this_bin (meter lm))" and "y \<le> scale_bound"
  shows "\<exists>lm'. emit_point i x y lm = Inr lm' \<and> meter_inv lm' \<and> styles (chart lm') = styles (chart lm) \<and>
     value_this_bin (meter lm') = value_this_bin (meter lm)"
  using assms add_data_point_inv [of "chart lm" i y x] by (auto simp: emit_point_def meter_inv_def)

lemma advance_step_inv:
  assumes "meter_inv lm"
  shows "\<exists>lm' next. advance_step ts i lm = Inr (lm', next) \<and> meter_inv lm' \<and> styles (chart lm') = styles (chart lm)"
  using assms emit_point_inv [OF assms _ plotted_small [OF assms], of i "bin_end (meter lm)" "value_this_bin (meter lm) ! i"]
  by (auto simp: advance_step_def Let_def meter_inv_def renew_value_def)

lemma apply_update_inv: "apply_update u (meter lm) = Inr m \<Longrightarrow> meter_inv lm \<Longrightarrow> meter_inv (lm\<lparr>meter := m\<rparr>)"
  by (auto simp: apply_update_def add_to_bin_def max_in_bin_def meter_inv_def Let_def split: live_update.splits if_splits)

text \<open>A reading of the clock, in milliseconds, whose time in seconds an \<open>int\<close> can count: the program runs for less than 68 years.\<close>

definition countable_ms :: "u64 \<Rightarrow> bool" where
  "countable_ms ts \<longleftrightarrow> countable_time (real (unat ts) / 1000.0)"

abbreviation series :: "live \<Rightarrow> nat" where
  "series st \<equiv> length (styles (chart (shared st)))"

definition animation_inv :: "live \<Rightarrow> bool" where
  "animation_inv st \<longleftrightarrow>
     (case animation st of
        In_frame_advance ts i \<Rightarrow> countable_ms ts
      | Estimating ts es \<Rightarrow> countable_ms ts \<and> length es \<le> series st \<and> (\<forall>e \<in> set es. e \<le> scale_bound)
      | Drawing ts w es weight snapshot \<Rightarrow>
          countable_ms ts \<and> 0 \<le> w \<and> length es = series st \<and> (\<forall>e \<in> set es. e \<le> scale_bound) \<and> 0 \<le> weight \<and> weight \<le> 1 \<and>
          length snapshot = series st \<and> small_values snapshot
      | _ \<Rightarrow> True)"

definition live_inv :: "live \<Rightarrow> bool" where
  "live_inv st \<longleftrightarrow> meter_inv (shared st) \<and> animation_inv st \<and> \<not> (animation_holds st \<and> packets_hold st)"

lemma mk_live_meter_inv:
  "mk_live_meter ws ss mult rate width init now = Inr st \<Longrightarrow> small_multiplier mult \<Longrightarrow> live_inv st"
  using mk_graph_inv [of 0 1 ws ss]
  by (auto simp: mk_live_meter_def mk_livegraph_def live_inv_def meter_inv_def animation_inv_def mk_graph_def animation_holds_def
    scale_bound_def split: if_splits)

text \<open>The thread is about to estimate a rate at the very beginning of a bin.\<close>

definition divides_by_zero :: "live \<Rightarrow> bool" where
  "divides_by_zero st \<longleftrightarrow>
     (case animation st of
        Estimating ts es \<Rightarrow> length es < length (value_this_bin (meter (shared st))) \<and> rate_quantity (meter (shared st)) \<and>
          ts mod ucast (bin_width_ms (meter (shared st))) = 0
      | _ \<Rightarrow> False)"

lemma unat_ucast_64: "unat (ucast w :: u64) = unat w" for w :: u32
proof -
  have "unat w < 2 ^ 32" using unsigned_less [of w] by simp
  then show ?thesis by (simp add: unsigned_ucast_eq take_bit_nat_eq_self)
qed

lemma fraction_le_1: "a \<le> b \<Longrightarrow> 0 < b \<Longrightarrow> real a / real b \<le> 1" for a b :: nat
  by simp

lemma bin_fraction:
  fixes w :: u32 and ts :: u64
  assumes "w \<noteq> 0"
  shows "real (unat (ts mod ucast w)) / real (unat w) \<le> 1"
proof -
  have "0 < unat w" using assms by (simp add: unat_gt_0)
  then have "unat ts mod unat w \<le> unat w" by (simp add: less_imp_le)
  moreover have "unat (ts mod ucast w) = unat ts mod unat w" by (simp add: unat_mod unat_ucast_64)
  ultimately have "unat (ts mod ucast w) \<le> unat w" by simp
  then show ?thesis using \<open>0 < unat w\<close> by (intro fraction_le_1)
qed

lemma so_far_weight:
  assumes "bin_width_ms m \<noteq> 0"
  shows "0 \<le> confidence (bin_width_so_far ts m / real (unat (bin_width_ms m)))"
    and "confidence (bin_width_so_far ts m / real (unat (bin_width_ms m))) \<le> 1"
  unfolding bin_width_so_far_def
  by (rule confidence_weight [OF divide_nonneg_nonneg [OF of_nat_0_le_iff of_nat_0_le_iff] bin_fraction [OF assms]])+

text \<open>
  What a frame leaves behind: the scale has room for the points that were drawn, the labels of the time
  axis are consecutive, lie on the chart and reach past its right edge, every height that should be
  labelled has a label, and no height has two.
\<close>

definition frame_ok :: "u64 \<Rightarrow> real \<Rightarrow> (real \<times> real) list list \<Rightarrow> graph \<Rightarrow> bool" where
  "frame_ok ts w snapshot g \<longleftrightarrow>
     fits_data snapshot g \<and> axis_ok (real (unat ts) / 1000 - w - 1) (real (unat ts) / 1000) (x_tick_labels g) \<and>
     distinct (map height (y_tick_labels g)) \<and>
     (\<exists>hs. wanted_heights g = Inr hs \<and> set hs \<subseteq> height ` set (y_tick_labels g))"

text \<open>One step of the animation, wherever it is.\<close>

lemma estimate_returns:
  assumes "rate_quantity m \<Longrightarrow> ts mod ucast (bin_width_ms m) \<noteq> 0"
  shows "\<exists>e. current_estimate m (bin_width_so_far ts m) x = Inr e"
proof -
  have "bin_width_so_far ts m \<noteq> 0" if "rate_quantity m" using assms [OF that] by (simp add: bin_width_so_far_def unat_eq_0 del: of_nat_unat)
  then show ?thesis by (simp add: current_estimate_def Let_def)
qed

lemma estimating_step:
  assumes "live_inv st" and a: "animation st = Estimating ts es" and "\<not> divides_by_zero st"
  shows "\<exists>st'. animation_step now ws st = Inr (st', []) \<and> live_inv st'"
proof -
  let ?m = "meter (shared st)"
  have i: "meter_inv (shared st)" "countable_ms ts" "length es \<le> length (value_this_bin ?m)" "\<forall>e \<in> set es. e \<le> scale_bound"
    "length (value_this_bin ?m) = length (styles (chart (shared st)))"
    using assms(1) a by (auto simp: live_inv_def animation_inv_def meter_inv_def)
  show ?thesis
  proof (cases "length es < length (value_this_bin ?m)")
    case True
    then obtain e where e: "current_estimate ?m (bin_width_so_far ts ?m) (value_this_bin ?m ! length es) = Inr e"
      using estimate_returns [of ?m ts "value_this_bin ?m ! length es"] assms(3) a by (auto simp: divides_by_zero_def)
    have "e \<le> scale_bound" by (rule estimate_small [OF i(1) e])
    with True e i assms(1) a show ?thesis
      by (simp add: animation_step_def Let_def live_inv_def animation_inv_def animation_holds_def packets_hold_def)
  next
    case False
    have g: "graph_inv (trim_points x (chart (shared st)))" for x using i(1) by (intro trim_points_inv) (simp add: meter_inv_def)
    have "small_values (data_points (trim_points x (chart (shared st))))"
      "length (data_points (trim_points x (chart (shared st)))) = length (styles (chart (shared st)))" for x
      using g [of x] by (simp_all add: graph_inv_def)
    with False i assms(1) a g so_far_weight [of ?m ts] show ?thesis
      by (simp add: animation_step_def Let_def live_inv_def animation_inv_def animation_holds_def meter_inv_def logical_width_def)
  qed
qed

lemma drawing_step:
  assumes "live_inv st" and a: "animation st = Drawing ts w es weight snapshot"
  shows "\<exists>st' frame. animation_step now ws st = Inr (st', frame) \<and> live_inv st' \<and> frame_ok ts w snapshot (chart (shared st')) \<and>
     last frame = Present (current_gc (chart (shared st))) 3 (current_gc (chart (shared st))) \<and> animation st' = Loop_head \<and>
     current_gc (chart (shared st')) = (current_gc (chart (shared st)) + 1) mod 3"
proof -
  have i: "meter_inv (shared st)" "countable_ms ts" "0 \<le> w" "length es = length (styles (chart (shared st)))" "\<forall>e \<in> set es. e \<le> scale_bound"
    "0 \<le> weight" "weight \<le> 1" "length snapshot = length (styles (chart (shared st)))" "small_values snapshot"
    using assms by (simp_all add: live_inv_def animation_inv_def)
  have "graph_inv (chart (shared st))" "countable_time (real (unat ts) / 1000)" using i(1,2) by (simp_all add: meter_inv_def countable_ms_def)
  from frame_core [OF this(1) i(8,4,6,7,3) this(2) i(9,5), of ws] obtain g ops hs where g:
    "draw_snapshot ws (real (unat ts) / 1000) w es weight snapshot (chart (shared st)) = Inr (g, ops)"
    "last ops = Present (current_gc (chart (shared st))) 3 (current_gc (chart (shared st)))"
    "graph_inv g" "styles g = styles (chart (shared st))" "fits_data snapshot g"
    "axis_ok (real (unat ts) / 1000 - w - 1) (real (unat ts) / 1000) (x_tick_labels g)"
    "wanted_heights g = Inr hs" "set hs \<subseteq> height ` set (y_tick_labels g)"
    "current_gc g = (current_gc (chart (shared st)) + 1) mod 3" by blast
  have "distinct (map height (y_tick_labels g))" using g(3) by (simp add: graph_inv_def labels_ok_def)
  then have "frame_ok ts w snapshot g" using g(5-8) by (simp add: frame_ok_def)
  moreover have "animation_step now ws st = Inr (st\<lparr>shared := (shared st)\<lparr>chart := g\<rparr>, animation := Loop_head\<rparr>, ops)"
    using a g(1) by (simp add: animation_step_def)
  moreover have "live_inv (st\<lparr>shared := (shared st)\<lparr>chart := g\<rparr>, animation := Loop_head\<rparr>)"
    using assms(1) i(1) g(3,4) by (simp add: live_inv_def meter_inv_def animation_inv_def animation_holds_def)
  ultimately show ?thesis using g(2,9) by auto
qed

lemma other_step:
  assumes "live_inv st" and "countable_ms now" and "\<not> divides_by_zero st" and "\<And>ts w es weight snapshot. animation st \<noteq> Drawing ts w es weight snapshot"
  shows "\<exists>st'. animation_step now ws st = Inr (st', []) \<and> live_inv st'"
proof (cases "animation st")
  case (In_frame_advance ts i)
  from advance_step_inv [of "shared st" ts i] assms(1) obtain lm "next" where
    "advance_step ts i (shared st) = Inr (lm, next)" "meter_inv lm" "styles (chart lm) = styles (chart (shared st))"
    by (auto simp: live_inv_def)
  with In_frame_advance assms(1) show ?thesis
    by (auto simp: animation_step_def live_inv_def animation_inv_def animation_holds_def packets_hold_def split: option.splits)
next
  case (Estimating ts es)
  then show ?thesis using estimating_step assms(1,3) by blast
qed (use assms in \<open>auto simp: animation_step_def live_inv_def animation_inv_def animation_holds_def packets_hold_def split: if_splits\<close>)

lemma estimate_divides:
  assumes "rate_quantity m" and "ts mod ucast (bin_width_ms m) = 0"
  shows "current_estimate m (bin_width_so_far ts m) x = Inl Undefined_behaviour"
  unfolding current_estimate_def bin_width_so_far_def assms(2) using assms(1) by (simp add: Let_def)

lemma divides:
  assumes "divides_by_zero st"
  shows "animation_step now ws st = Inl Undefined_behaviour"
proof -
  obtain ts es where a: "animation st = Estimating ts es" "length es < length (value_this_bin (meter (shared st)))"
      "rate_quantity (meter (shared st))" "ts mod ucast (bin_width_ms (meter (shared st))) = 0"
    using assms unfolding divides_by_zero_def by (cases "animation st") simp_all
  show ?thesis using a(1,2) estimate_divides [OF a(3,4)] by (simp add: animation_step_def Let_def)
qed

lemma packets_step_inv:
  assumes "packets_step now st = Inr st'" and "live_inv st"
  shows "live_inv st'"
proof -
  have m: "meter_inv (shared st)" using assms(2) by (simp add: live_inv_def)
  have keep: "live_inv (st\<lparr>shared := lm, packets := pc\<rparr>)"
    if "meter_inv lm" "styles (chart lm) = styles (chart (shared st))" "animation_holds st \<longrightarrow> \<not> packets_hold (st\<lparr>packets := pc\<rparr>)" for lm pc
    using that assms(2) by (auto simp: live_inv_def animation_inv_def animation_holds_def packets_hold_def split: animation.splits)
  show ?thesis
  proof (cases "packets st")
    case (Constructing i)
    with assms(1) m emit_point_inv [OF m, of i 0 0] keep [of _ "Constructing (i + 1)"] keep [of "shared st" Between_calls]
    show ?thesis by (auto simp: packets_step_def packets_hold_def scale_bound_def split: if_splits)
  next
    case (Before_advance u)
    with assms(1) m keep [of "shared st" "In_call_advance u now 0"] assms(2) show ?thesis
      by (auto simp: packets_step_def split: if_splits)
  next
    case (In_call_advance u ts i)
    have "\<not> animation_holds st" using assms(2) In_call_advance by (simp add: live_inv_def packets_hold_def)
    with In_call_advance assms(1) advance_step_inv [OF m, of ts i] keep show ?thesis
      by (auto simp: packets_step_def)
  next
    case (After_advance u)
    with assms apply_update_inv [OF _ m, of u] keep [of "(shared st)\<lparr>meter := _\<rparr>" Between_calls] show ?thesis
      by (auto simp: packets_step_def packets_hold_def split: if_splits)
  qed (use assms in \<open>simp add: packets_step_def\<close>)
qed

lemma animation_step_inv:
  assumes "animation_step now ws st = Inr (st', ops)" and "live_inv st" and "countable_ms now"
  shows "live_inv st'"
proof (cases "\<exists>ts w es weight snapshot. animation st = Drawing ts w es weight snapshot")
  case True
  then obtain ts w es weight snapshot where "animation st = Drawing ts w es weight snapshot" by blast
  from drawing_step [OF assms(2) this, of now ws] assms(1) show ?thesis by auto
next
  case False
  moreover have "\<not> divides_by_zero st" using divides [of st now ws] assms(1) by auto
  ultimately show ?thesis using other_step [OF assms(2,3), of ws] assms(1) by auto
qed

definition readable :: "live_event \<Rightarrow> bool" where
  "readable ev \<longleftrightarrow> (case ev of Animation now ws \<Rightarrow> countable_ms now | _ \<Rightarrow> True)"

lemma live_step_inv:
  assumes "live_step ev st = Inr st'" and "live_inv st" and "readable ev"
  shows "live_inv st'"
proof (cases ev)
  case (Animation now ws)
  with assms animation_step_inv [of now ws st] show ?thesis by (auto simp: readable_def)
next
  case (Packets now)
  with assms packets_step_inv show ?thesis by simp
next
  case (Call u)
  have "live_inv (st\<lparr>packets := Before_advance u\<rparr>)"
    using assms(2) by (cases "animation st") (simp_all add: live_inv_def animation_inv_def animation_holds_def packets_hold_def)
  with Call assms(1,2) show ?thesis by (auto split: if_splits)
next
  case Destroy
  have "live_inv (st\<lparr>halt := True\<rparr>)"
    using assms(2) by (cases "animation st") (simp_all add: live_inv_def animation_inv_def animation_holds_def packets_hold_def)
  with Destroy assms(1) show ?thesis by simp
qed

lemma live_run_inv:
  "live_run evs st = Inr st' \<Longrightarrow> live_inv st \<Longrightarrow> list_all readable evs \<Longrightarrow> live_inv st'"
  by (induction evs arbitrary: st) (auto dest: live_step_inv)

subsection \<open>A frame that is begun is finished\<close>

text \<open>The time of the frame that is under way, and what the animation thread does with it when it is left alone.\<close>

definition frame_time :: "live \<Rightarrow> u64 option" where
  "frame_time st =
     (case animation st of
        In_frame_advance ts i \<Rightarrow> Some ts
      | Estimating ts es \<Rightarrow> Some ts
      | Drawing ts w es weight snapshot \<Rightarrow> Some ts
      | _ \<Rightarrow> None)"

definition presents :: "u64 \<Rightarrow> u32 \<times> u32 \<Rightarrow> live \<Rightarrow> bool" where
  "presents now ws st \<longleftrightarrow>
     (\<exists>k st1 st2 frame. live_run (replicate k (Animation now ws)) st = Inr st1 \<and>
       animation_step now ws st1 = Inr (st2, frame) \<and> frame \<noteq> [] \<and> animation st2 = Loop_head)"

lemma presents_later: "animation_step now ws st = Inr (st', ops) \<Longrightarrow> presents now ws st' \<Longrightarrow> presents now ws st"
  unfolding presents_def by (elim exE) (rule_tac x = "Suc k" in exI, fastforce)

text \<open>A rate can be estimated: the time is not the very beginning of a bin.\<close>

definition can_estimate :: "livegraph \<Rightarrow> u64 \<Rightarrow> bool" where
  "can_estimate m ts \<longleftrightarrow> (rate_quantity m \<longrightarrow> ts mod ucast (bin_width_ms m) \<noteq> 0)"

lemma drawing_presents:
  assumes "live_inv st" and "animation st = Drawing ts w es weight snapshot"
  shows "presents now ws st"
proof -
  obtain st' frame where s: "animation_step now ws st = Inr (st', frame)" "animation st' = Loop_head"
    using drawing_step [OF assms, of now ws] by blast
  then have "frame \<noteq> []" using assms(2) by (auto simp: animation_step_def draw_snapshot_def draw_frame_def Let_def)
  with s have "live_run (replicate 0 (Animation now ws)) st = Inr st \<and> animation_step now ws st = Inr (st', frame) \<and> frame \<noteq> [] \<and>
      animation st' = Loop_head" by simp
  then show ?thesis unfolding presents_def by blast
qed

lemma estimating_presents:
  assumes "live_inv st" and "animation st = Estimating ts es" and "can_estimate (meter (shared st)) ts"
  shows "presents now ws st"
  using assms
proof (induction "length (value_this_bin (meter (shared st))) - length es" arbitrary: st es rule: less_induct)
  case less
  have "\<not> divides_by_zero st" using less.prems(2,3) by (simp add: divides_by_zero_def can_estimate_def)
  then obtain st' where st': "animation_step now ws st = Inr (st', [])" "live_inv st'"
    using estimating_step less.prems(1,2) by blast
  have "presents now ws st'"
  proof (cases "length es < length (value_this_bin (meter (shared st)))")
    case True
    then obtain e where "animation st' = Estimating ts (es @ [e])" "shared st' = shared st"
      using st'(1) less.prems(2) by (auto simp: animation_step_def Let_def)
    with True show ?thesis by (intro less.hyps [OF _ st'(2)]) (use less.prems(3) in auto)
  next
    case False
    then show ?thesis
      using st' less.prems(2) by (auto simp: animation_step_def Let_def intro!: drawing_presents)
  qed
  with st'(1) show ?case by (rule presents_later)
qed

lemma advance_step_keeps:
  assumes "advance_step ts i lm = Inr (lm', next)"
  shows "bin_width_ms (meter lm') = bin_width_ms (meter lm)" and "rate_quantity (meter lm') = rate_quantity (meter lm)"
    and "length (value_this_bin (meter lm')) = length (value_this_bin (meter lm))"
    and "next = Some j \<Longrightarrow> unat (ts div ucast (bin_width_ms (meter lm))) - unat (current_bin (meter lm')) < unat (ts div ucast (bin_width_ms (meter lm))) - unat (current_bin (meter lm)) \<or>
      current_bin (meter lm') = current_bin (meter lm) \<and> i < length (value_this_bin (meter lm)) \<and> j = i + 1"
proof -
  have "unat (current_bin (meter lm) + 1) = Suc (unat (current_bin (meter lm)))"
    if "current_bin (meter lm) < ts div ucast (bin_width_ms (meter lm))" using that by (rule unat_add_1)
  with assms show "next = Some j \<Longrightarrow> unat (ts div ucast (bin_width_ms (meter lm))) - unat (current_bin (meter lm')) < unat (ts div ucast (bin_width_ms (meter lm))) - unat (current_bin (meter lm)) \<or>
      current_bin (meter lm') = current_bin (meter lm) \<and> i < length (value_this_bin (meter lm)) \<and> j = i + 1"
    by (auto simp: advance_step_def emit_point_def renew_value_def Let_def word_less_nat_alt split: if_splits)
qed (use assms in \<open>auto simp: advance_step_def emit_point_def renew_value_def Let_def split: if_splits\<close>)

lemma advancing_presents:
  assumes "live_inv st" and "animation st = In_frame_advance ts i" and "can_estimate (meter (shared st)) ts"
  shows "presents now ws st"
  using assms
proof (induction "(st, i)" arbitrary: st i rule: wf_induct_rule [OF wf_measures [of
    "[\<lambda>(st, i). unat (ts div ucast (bin_width_ms (meter (shared st)))) - unat (current_bin (meter (shared st))),
      \<lambda>(st, i). length (value_this_bin (meter (shared st))) - i]"]])
  case less: (1 st i)
  have "countable_ms ts" using less.prems(1,2) by (simp add: live_inv_def animation_inv_def)
  then obtain st' where st': "animation_step ts ws st = Inr (st', [])" "live_inv st'"
    using other_step [OF less.prems(1), of ts ws] less.prems(2) by (auto simp: divides_by_zero_def)
  then obtain "next" where n: "advance_step ts i (shared st) = Inr (shared st', next)"
      "animation st' = (case next of Some j \<Rightarrow> In_frame_advance ts j | None \<Rightarrow> Estimating ts [])"
    using less.prems(2) by (auto simp: animation_step_def)
  have e: "can_estimate (meter (shared st')) ts"
    using less.prems(3) advance_step_keeps(1,2) [OF n(1)] by (simp add: can_estimate_def)
  have "presents now ws st'"
  proof (cases "next")
    case None
    with n(2) show ?thesis by (intro estimating_presents [OF st'(2) _ e]) simp
  next
    case (Some j)
    with n(2) show ?thesis
      by (intro less.hyps [OF _ st'(2) _ e, of j]) (use advance_step_keeps(1,3) [OF n(1)] advance_step_keeps(4) [OF n(1), of j] in auto)
  qed
  moreover have "animation_step now ws st = Inr (st', [])" using st'(1) less.prems(2) by (simp add: animation_step_def)
  ultimately show ?case by (rule presents_later [rotated])
qed

lemma frame_presents:
  assumes "live_inv st" and "frame_time st = Some ts" and "can_estimate (meter (shared st)) ts"
  shows "presents now ws st"
proof (cases "animation st")
  case (In_frame_advance t i)
  with assms show ?thesis by (intro advancing_presents [of st t i]) (simp_all add: frame_time_def)
next
  case (Estimating t es)
  with assms show ?thesis by (intro estimating_presents [of st t es]) (simp_all add: frame_time_def)
next
  case (Drawing t w es weight snapshot)
  with assms(1) show ?thesis by (rule drawing_presents)
qed (use assms(2) in \<open>simp_all add: frame_time_def\<close>)


definition sample_style :: style where
  "sample_style = \<lparr>red = 1, green = 0, blue = 0, alpha = 0.5, filled = False\<rparr>"

text \<open>A value arrives while a frame is under way, between the end of \<open>advance\<close> and the unlocked read.\<close>

definition sample_events :: "live_event list" where
  "sample_events =
     [Packets 1000, Packets 1000, Animation 1750 (640, 480), Animation 1750 (640, 480), Animation 1750 (640, 480),
      Animation 1750 (640, 480), Animation 1750 (640, 480), Call (Add_value 0 1500), Packets 1760, Packets 1760, Packets 1760,
      Animation 1770 (640, 480), Animation 1770 (640, 480)]"

lemma sample_run:
  "\<exists>st0 st weight. mk_live_meter (640, 480) [sample_style] 1 True 500 (\<lambda>w v. 0) 1000 = Inr st0 \<and> live_run sample_events st0 = Inr st \<and>
     animation st = Drawing 1750 6.4 [6000] weight (data_points (chart (shared st))) \<and> current_gc (chart (shared st)) = 0"
  by (simp add: mk_live_meter_def mk_livegraph_def mk_graph_def sample_events_def animation_step_def packets_step_def advance_step_def
      emit_point_def add_data_point_def renew_value_def packets_hold_def animation_holds_def apply_update_def add_to_bin_def
      current_estimate_def bin_width_so_far_def logical_width_def trim_points_def Let_def)


end
