(* ===== verification/X_Objects.thy ===== *)
theory X_Objects
  imports Mahimahi_Prelude
begin

text \<open>
  Objects of the X server, src/src/graphing/display.{hh,cc}: checked requests, windows, the search for the
  visual of a window, and the ownership of pixmaps. The answers of the server are inputs: an error
  code for a request that has no reply (0 for none), \<open>None\<close> for a null pointer. \<open>xdisplay\<close> holds what
  the server keeps; \<open>objects\<close> are the \<open>XPixmap\<close> objects of the program, by their place in memory.

  The lemmas show that every pixmap of the server belongs to exactly one object that is still
  connected, through every move and assignment: none is freed twice and none is left behind.
\<close>

section \<open>Model\<close>

definition notnull :: "string \<Rightarrow> 'a option \<Rightarrow> 'a res" where
  "notnull ctxt x = (case x of None \<Rightarrow> Inl (Runtime_error (ctxt @ '': returned null pointer'')) | Some v \<Rightarrow> Inr v)"

definition check_noreply :: "string \<Rightarrow> nat \<Rightarrow> unit res" where
  "check_noreply ctxt error_code =
     (if error_code \<noteq> 0 then Inl (Runtime_error (ctxt @ '': returned error '' @ show_nat error_code)) else Inr ())"

subsection \<open>Screens and visuals\<close>

record visualtype =
  visual_id :: u32
  visual_class :: nat

record screen =
  root :: u32
  root_depth :: nat
  root_visual :: u32
  allowed_depths :: "visualtype list list"

text \<open>The set-up data, and in it the first screen.\<close>

definition default_screen :: "screen option option \<Rightarrow> screen res" where
  "default_screen setup_data = res_bind (notnull ''xcb_get_setup'' setup_data) (notnull ''xcb_setup_roots_iterator'')"

fun find_visual :: "u32 \<Rightarrow> visualtype list \<Rightarrow> visualtype option" where
  "find_visual wanted [] = None"
| "find_visual wanted (v # vs) = (if wanted = visual_id v then Some v else find_visual wanted vs)"

fun find_depth :: "u32 \<Rightarrow> visualtype list list \<Rightarrow> visualtype option" where
  "find_depth wanted [] = None"
| "find_depth wanted (d # ds) = (case find_visual wanted d of None \<Rightarrow> find_depth wanted ds | Some v \<Rightarrow> Some v)"

definition xcb_visual :: "u32 option \<Rightarrow> screen option option \<Rightarrow> visualtype res" where
  "xcb_visual attributes setup_data =
     res_bind (notnull ''xcb_get_attributes_reply'' attributes) (\<lambda>visual.
     res_bind (default_screen setup_data) (\<lambda>s.
       case find_depth visual (allowed_depths s) of
         None \<Rightarrow> Inl (Runtime_error ''xcb_visual: no matching visualtype_t found'')
       | Some v \<Rightarrow> Inr v))"

definition window_size :: "(u32 \<times> u32) option \<Rightarrow> (u32 \<times> u32) res" where
  "window_size geometry = notnull ''xcb_get_geometry_reply'' geometry"

subsection \<open>Windows\<close>

record xpixmap =
  connected :: bool
  pixmap :: u32
  visual :: visualtype
  pixmap_size :: "u32 \<times> u32"

datatype event_mask = COMPLETE_NOTIFY | IDLE_NOTIFY

record xdisplay =
  windows :: "u32 \<rightharpoonup> u32 \<times> u32"
  selected :: "(u32 \<times> u32 \<times> event_mask) list"
  mapped :: "u32 list"
  window_names :: "u32 \<rightharpoonup> string"
  pixmaps :: "u32 set"
  objects :: "nat \<rightharpoonup> xpixmap"
  complaints :: "string list"

definition select_input :: "nat \<Rightarrow> u32 \<Rightarrow> u32 \<Rightarrow> event_mask \<Rightarrow> xdisplay \<Rightarrow> xdisplay res" where
  "select_input code event window emask d =
     res_bind (check_noreply ''xcb_present_select_input_checked'' code) (\<lambda>_.
       Inr (d\<lparr>selected := selected d @ [(event, window, emask)]\<rparr>))"

text \<open>The constructor, with the three identifiers the member initialisers generate.\<close>

definition create_window :: "nat \<times> nat \<times> nat \<Rightarrow> screen option option \<Rightarrow> u32 \<Rightarrow> u32 \<Rightarrow> u32 \<Rightarrow> u32 \<Rightarrow> u32 \<Rightarrow> xdisplay \<Rightarrow> xdisplay res" where
  "create_window codes setup_data window complete_id idle_id width hgt d =
     res_bind (default_screen setup_data) (\<lambda>_.
     res_bind (check_noreply ''xcb_create_window_checked'' (fst codes)) (\<lambda>_.
     res_bind (select_input (fst (snd codes)) complete_id window COMPLETE_NOTIFY (d\<lparr>windows := (windows d)(window \<mapsto> (width, hgt))\<rparr>)) (\<lambda>d1.
       select_input (snd (snd codes)) idle_id window IDLE_NOTIFY d1)))"

definition map_window :: "nat \<Rightarrow> u32 \<Rightarrow> xdisplay \<Rightarrow> xdisplay res" where
  "map_window code window d = res_bind (check_noreply ''xcb_map_window_checked'' code) (\<lambda>_. Inr (d\<lparr>mapped := mapped d @ [window]\<rparr>))"

definition flush :: "int \<Rightarrow> unit res" where
  "flush ret = (if ret \<le> 0 then Inl (Runtime_error ''xcb_flush: failed'') else Inr ())"

definition set_name :: "nat \<Rightarrow> u32 \<Rightarrow> string \<Rightarrow> xdisplay \<Rightarrow> xdisplay res" where
  "set_name code window name d =
     res_bind (check_noreply ''xcb_change_property_checked'' code) (\<lambda>_. Inr (d\<lparr>window_names := (window_names d)(window \<mapsto> name)\<rparr>))"

text \<open>Destructors print what goes wrong.\<close>

definition what :: "error \<Rightarrow> string" where
  "what e = (case e of Runtime_error m \<Rightarrow> m | _ \<Rightarrow> [])"

definition complain :: "string \<Rightarrow> nat \<Rightarrow> xdisplay \<Rightarrow> xdisplay \<Rightarrow> xdisplay" where
  "complain ctxt code d d' =
     (case check_noreply ctxt code of Inl e \<Rightarrow> d\<lparr>complaints := complaints d @ [what e]\<rparr> | Inr _ \<Rightarrow> d')"

definition destroy_window :: "nat \<Rightarrow> u32 \<Rightarrow> xdisplay \<Rightarrow> xdisplay" where
  "destroy_window code window d = complain ''xcb_destroy_window_checked'' code d (d\<lparr>windows := (windows d)(window := None)\<rparr>)"

subsection \<open>Pixmaps\<close>

text \<open>
  The constructor asks for the visual and for the size of the window before it makes the pixmap. The
  place of the new object is \<open>i\<close>, and \<open>p\<close> the identifier that \<open>xcb_generate_id\<close> returns.
\<close>

definition create_pixmap :: "nat \<Rightarrow> u32 option \<Rightarrow> (u32 \<times> u32) option \<Rightarrow> screen option option \<Rightarrow> nat \<Rightarrow> u32 \<Rightarrow> xdisplay \<Rightarrow> xdisplay res" where
  "create_pixmap code attributes geometry setup_data i p d =
     res_bind (xcb_visual attributes setup_data) (\<lambda>v.
     res_bind (window_size geometry) (\<lambda>sz.
     res_bind (default_screen setup_data) (\<lambda>_.
     res_bind (check_noreply ''xcb_create_pixmap_checked'' code) (\<lambda>_.
       Inr (d\<lparr>pixmaps := insert p (pixmaps d),
              objects := (objects d)(i \<mapsto> \<lparr>connected = True, pixmap = p, visual = v, pixmap_size = sz\<rparr>)\<rparr>)))))"

text \<open>The move constructor takes the connection away from the object it moves from.\<close>

definition move_pixmap :: "nat \<Rightarrow> nat \<Rightarrow> xdisplay \<Rightarrow> xdisplay res" where
  "move_pixmap i j d =
     (case objects d j of
        None \<Rightarrow> Inl Undefined_behaviour
      | Some x \<Rightarrow> Inr (d\<lparr>objects := (objects d)(j \<mapsto> x\<lparr>connected := False\<rparr>, i \<mapsto> x)\<rparr>))"

text \<open>
  Freeing a pixmap: the server answers \<open>BadPixmap\<close>, which is 4, for one it does not have, and
  otherwise \<open>code\<close>.
\<close>

definition free_code :: "nat \<Rightarrow> u32 \<Rightarrow> xdisplay \<Rightarrow> nat" where
  "free_code code p d = (if p \<in> pixmaps d then code else 4)"

definition destroy_pixmap :: "nat \<Rightarrow> nat \<Rightarrow> xdisplay \<Rightarrow> xdisplay res" where
  "destroy_pixmap code i d =
     (case objects d i of
        None \<Rightarrow> Inl Undefined_behaviour
      | Some x \<Rightarrow>
          let d1 = d\<lparr>objects := (objects d)(i := None)\<rparr> in
          if \<not> connected x then Inr d1
          else Inr (complain ''xcb_free_pixmap_checked'' (free_code code (pixmap x) d) d1 (d1\<lparr>pixmaps := pixmaps d - {pixmap x}\<rparr>)))"

text \<open>Assignment destroys the object and moves the other one into its place.\<close>

definition assign_pixmap :: "nat \<Rightarrow> nat \<Rightarrow> nat \<Rightarrow> xdisplay \<Rightarrow> xdisplay res" where
  "assign_pixmap code i j d = res_bind (destroy_pixmap code i d) (move_pixmap i j)"

section \<open>The search for a visual\<close>

lemma find_visual_spec: "find_visual w vs = find (\<lambda>v. visual_id v = w) vs"
  by (induction vs) auto

lemma find_append: "find P (xs @ ys) = (case find P xs of None \<Rightarrow> find P ys | Some x \<Rightarrow> Some x)"
  by (induction xs) auto

lemma find_depth_spec: "find_depth w ds = find (\<lambda>v. visual_id v = w) (concat ds)"
  by (induction ds) (simp_all add: find_visual_spec find_append split: option.split)

lemma xcb_visual_Inr:
  assumes "xcb_visual attributes setup_data = Inr v"
  shows "attributes = Some (visual_id v)"
  using assms by (auto simp: xcb_visual_def notnull_def find_depth_spec find_Some_iff split: option.splits)

section \<open>Ownership\<close>

definition owners :: "xdisplay \<Rightarrow> u32 \<Rightarrow> nat set" where
  "owners d p = {i. \<exists>x. objects d i = Some x \<and> connected x \<and> pixmap x = p}"

text \<open>Every pixmap of the server has exactly one owner, and every object that is connected owns one.\<close>

definition owned_once :: "xdisplay \<Rightarrow> bool" where
  "owned_once d \<longleftrightarrow> (\<forall>p. if p \<in> pixmaps d then \<exists>i. owners d p = {i} else owners d p = {})"

lemma owned_onceD:
  assumes "owned_once d" and "objects d i = Some x" and "connected x"
  shows "pixmap x \<in> pixmaps d" and "owners d (pixmap x) = {i}"
proof -
  have i: "i \<in> owners d (pixmap x)" using assms(2,3) by (auto simp: owners_def)
  then show "pixmap x \<in> pixmaps d" using assms(1) unfolding owned_once_def by (metis empty_iff)
  then show "owners d (pixmap x) = {i}" using assms(1) i unfolding owned_once_def by (metis singletonD)
qed

lemma create_keeps:
  assumes "create_pixmap code attributes geometry setup_data i p d = Inr d'" and "p \<notin> pixmaps d" and "objects d i = None" and "owned_once d"
  shows "owned_once d'"
proof -
  obtain v sz where d': "d' = d\<lparr>pixmaps := insert p (pixmaps d), objects := (objects d)(i \<mapsto> \<lparr>connected = True, pixmap = p, visual = v, pixmap_size = sz\<rparr>)\<rparr>"
    using assms(1) by (auto simp: create_pixmap_def)
  have "owners d' q = (if q = p then {i} else owners d q)" for q
    using owned_onceD(1) [OF assms(4)] assms(2,3) by (auto simp: d' owners_def)
  then show ?thesis using assms(4) unfolding owned_once_def d' by simp
qed

lemma move_keeps:
  assumes "move_pixmap i j d = Inr d'" and "objects d i = None" and "owned_once d"
  shows "owned_once d'"
proof -
  obtain x where x: "objects d j = Some x" "d' = d\<lparr>objects := (objects d)(j \<mapsto> x\<lparr>connected := False\<rparr>, i \<mapsto> x)\<rparr>"
    using assms(1) by (auto simp: move_pixmap_def split: option.splits)
  have ij: "i \<noteq> j" using x(1) assms(2) by auto
  have "owners d' q = (if connected x \<and> q = pixmap x then {i} else owners d q)" for q
    using owned_onceD(2) [OF assms(3) x(1)] x ij assms(2) by (auto simp: owners_def split: if_splits)
  then show ?thesis using assms(3) owned_onceD(1) [OF assms(3) x(1)] unfolding owned_once_def x(2) by simp
qed

lemma destroy_keeps:
  assumes "destroy_pixmap 0 i d = Inr d'" and "owned_once d"
  shows "owned_once d'" and "complaints d' = complaints d" and "objects d' = (objects d)(i := None)"
proof -
  obtain x where x: "objects d i = Some x" using assms(1) by (auto simp: destroy_pixmap_def split: option.splits)
  have o: "owners (d\<lparr>objects := (objects d)(i := None)\<rparr>) q = owners d q - {i}" for q by (auto simp: owners_def)
  have "owned_once d' \<and> complaints d' = complaints d \<and> objects d' = (objects d)(i := None)"
  proof (cases "connected x")
    case True
    note own = owned_onceD [OF assms(2) x True]
    then have d': "d' = d\<lparr>objects := (objects d)(i := None), pixmaps := pixmaps d - {pixmap x}\<rparr>"
      using assms(1) x True by (simp add: destroy_pixmap_def Let_def complain_def check_noreply_def free_code_def)
    have "owners d' q = (if q = pixmap x then {} else owners d q)" for q
      using own(2) x o [of q] by (auto simp: d' owners_def)
    then show ?thesis using assms(2) unfolding owned_once_def d' by simp
  next
    case False
    then have d': "d' = d\<lparr>objects := (objects d)(i := None)\<rparr>" using assms(1) x by (simp add: destroy_pixmap_def)
    have "owners d' q = owners d q" for q using False x by (auto simp: d' owners_def)
    then show ?thesis using assms(2) unfolding owned_once_def d' by simp
  qed
  then show "owned_once d'" "complaints d' = complaints d" "objects d' = (objects d)(i := None)" by simp_all
qed

text \<open>
  What a program can do with its pixmaps: identifiers are new, constructed objects take a free place, an
  object is not moved onto itself, and the server frees what it is asked to.
\<close>

inductive pixmap_step :: "xdisplay \<Rightarrow> xdisplay \<Rightarrow> bool" where
  Created: "p \<notin> pixmaps d \<Longrightarrow> objects d i = None \<Longrightarrow> create_pixmap code attributes geometry setup_data i p d = Inr d' \<Longrightarrow> pixmap_step d d'"
| Moved: "objects d i = None \<Longrightarrow> move_pixmap i j d = Inr d' \<Longrightarrow> pixmap_step d d'"
| Assigned: "i \<noteq> j \<Longrightarrow> assign_pixmap 0 i j d = Inr d' \<Longrightarrow> pixmap_step d d'"
| Destroyed: "destroy_pixmap 0 i d = Inr d' \<Longrightarrow> pixmap_step d d'"

lemma move_complaints: "move_pixmap i j d = Inr d' \<Longrightarrow> complaints d' = complaints d"
  by (auto simp: move_pixmap_def split: option.splits)

lemma pixmap_step_keeps: "pixmap_step d d' \<Longrightarrow> owned_once d \<Longrightarrow> owned_once d' \<and> complaints d' = complaints d"
proof (induction rule: pixmap_step.induct)
  case (Created p d i code attributes geometry setup_data d')
  then show ?case using create_keeps [OF Created(3,1,2)] by (auto simp: create_pixmap_def)
next
  case (Moved d i j d')
  then show ?case using move_keeps [OF Moved(2,1)] move_complaints by simp
next
  case (Assigned i j d d')
  then obtain d1 where d1: "destroy_pixmap 0 i d = Inr d1" "move_pixmap i j d1 = Inr d'" by (auto simp: assign_pixmap_def)
  note k = destroy_keeps [OF d1(1) Assigned(3)]
  then show ?case using move_keeps [OF d1(2) _ k(1)] move_complaints [OF d1(2)] by simp
next
  case (Destroyed i d d')
  then show ?case using destroy_keeps [OF Destroyed(1,2)] by simp
qed

lemma pixmaps_owned:
  "pixmap_step\<^sup>*\<^sup>* d d' \<Longrightarrow> owned_once d \<Longrightarrow> owned_once d' \<and> complaints d' = complaints d"
  by (induction rule: rtranclp_induct) (auto dest: pixmap_step_keeps)

text \<open>From a display without pixmaps, whatever happens: no free fails, and without objects nothing is left.\<close>

lemma pixmaps_given_back:
  assumes "pixmap_step\<^sup>*\<^sup>* d d'" and "pixmaps d = {}" and "objects d = Map.empty"
  shows "complaints d' = complaints d" and "objects d' = Map.empty \<Longrightarrow> pixmaps d' = {}"
    and "objects d' i = Some x \<Longrightarrow> connected x \<Longrightarrow> pixmap x \<in> pixmaps d'"
proof -
  have "owned_once d" using assms(2,3) by (simp add: owned_once_def owners_def)
  then have o: "owned_once d'" "complaints d' = complaints d" using pixmaps_owned [OF assms(1)] by simp_all
  then show "complaints d' = complaints d" by simp
  show "pixmaps d' = {}" if "objects d' = Map.empty"
  proof -
    have "owners d' p = {}" for p using that by (simp add: owners_def)
    then show ?thesis using o(1) unfolding owned_once_def by (metis ex_in_conv insert_not_empty)
  qed
  show "pixmap x \<in> pixmaps d'" if "objects d' i = Some x" "connected x" using owned_onceD(1) [OF o(1) that] .
qed

end
