(* ===== verification/X_Window.thy ===== *)
theory X_Window
  imports X_Objects
begin

text \<open>
  \<open>XWindow::present\<close> and \<open>XWindow::event_loop\<close>, src/src/graphing/display.cc: handing a frame to the X
  server and waiting for its answers. The events that \<open>xcb_wait_for_event\<close> returns are an input, with
  \<open>None\<close> for the null pointer of a lost connection; a call that would wait for an event beyond them
  ends with \<open>Out_of_fuel\<close>. The requests sent are kept in \<open>sent_frames\<close>, the answers seen in \<open>completed\<close>.

  The lemmas show that a frame is sent only when the one before is complete, and that \<open>present\<close>
  returns once the server has answered.
\<close>

section \<open>Model\<close>

datatype xevent = Generic_event u16 | Other_event

record xwindow =
  complete_event :: u32
  idle_event :: u32
  complete :: bool
  idle :: bool
  sent_frames :: nat
  completed :: nat

definition mk_xwindow :: "u32 \<Rightarrow> u32 \<Rightarrow> xwindow" where
  "mk_xwindow c i = \<lparr>complete_event = c, idle_event = i, complete = True, idle = True, sent_frames = 0, completed = 0\<rparr>"

definition window_event_loop :: "xevent option \<Rightarrow> xwindow \<Rightarrow> xwindow res" where
  "window_event_loop event w =
     res_bind (notnull ''xcb_wait_for_event'' event) (\<lambda>e.
       case e of
         Other_event \<Rightarrow> Inr w
       | Generic_event event_type \<Rightarrow>
          if ucast event_type = and (complete_event w) 0xffff then Inr (w\<lparr>complete := True, completed := completed w + 1\<rparr>)
          else if ucast event_type = and (idle_event w) 0xffff then Inr (w\<lparr>idle := True\<rparr>)
          else Inl (Runtime_error ''unexpected present event''))"

fun wait_until :: "(xwindow \<Rightarrow> bool) \<Rightarrow> xevent option list \<Rightarrow> xwindow \<Rightarrow> (xwindow \<times> xevent option list) res" where
  "wait_until flag [] w = (if flag w then Inr (w, []) else Inl Out_of_fuel)"
| "wait_until flag (e # es) w = (if flag w then Inr (w, e # es) else res_bind (window_event_loop e w) (wait_until flag es))"

text \<open>\<open>check\<close> is the error code of the present request, 0 for none.\<close>

definition present :: "nat \<Rightarrow> xevent option list \<Rightarrow> xwindow \<Rightarrow> (xwindow \<times> xevent option list) res" where
  "present check es w =
     res_bind (wait_until complete es w) (\<lambda>(w1, es1).
     res_bind (check_noreply ''xcb_present_pixmap_checked'' check) (\<lambda>_.
       wait_until idle es1 (w1\<lparr>complete := False, idle := False, sent_frames := sent_frames w1 + 1\<rparr>)))"

section \<open>One frame at a time\<close>

definition answers :: "xwindow \<Rightarrow> xevent \<Rightarrow> bool" where
  "answers w e \<longleftrightarrow>
     (case e of Other_event \<Rightarrow> True
      | Generic_event t \<Rightarrow> ucast t = and (complete_event w) 0xffff \<or> ucast t = and (idle_event w) 0xffff)"

text \<open>
  The frames that were sent, less the completions that were seen, is 0 or 1, and 1 only while the
  completion is outstanding.
\<close>

definition one_in_flight :: "xwindow \<Rightarrow> bool" where
  "one_in_flight w \<longleftrightarrow> (sent_frames w \<le> completed w + 1 \<and> (complete w \<longrightarrow> sent_frames w \<le> completed w))"

lemma event_loop_in_flight: "window_event_loop e w = Inr w' \<Longrightarrow> one_in_flight w \<Longrightarrow> one_in_flight w' \<and> sent_frames w' = sent_frames w"
  by (auto simp: window_event_loop_def notnull_def one_in_flight_def split: option.splits xevent.splits if_splits)

lemma wait_until_in_flight:
  "wait_until flag es w = Inr (w', es') \<Longrightarrow> one_in_flight w \<Longrightarrow> one_in_flight w' \<and> flag w' \<and> sent_frames w' = sent_frames w"
proof (induction flag es w rule: wait_until.induct)
  case (2 flag e es w)
  show ?case
  proof (cases "flag w")
    case False
    with "2.prems"(1) obtain w1 where "window_event_loop e w = Inr w1" "wait_until flag es w1 = Inr (w', es')" by auto
    with "2.IH" [OF False, of w1] event_loop_in_flight "2.prems"(2) show ?thesis by fastforce
  qed (use 2 in auto)
qed (auto split: if_splits)

lemma present_in_flight:
  assumes "present check es w = Inr (w', es')" and "one_in_flight w"
  shows "one_in_flight w' \<and> idle w' \<and> sent_frames w' = sent_frames w + 1"
proof -
  obtain w1 es1 where w1: "wait_until complete es w = Inr (w1, es1)"
      "wait_until idle es1 (w1\<lparr>complete := False, idle := False, sent_frames := sent_frames w1 + 1\<rparr>) = Inr (w', es')"
    using assms(1) by (auto simp: present_def split: if_splits)
  have "one_in_flight w1 \<and> complete w1 \<and> sent_frames w1 = sent_frames w" using wait_until_in_flight [OF w1(1) assms(2)] .
  moreover from this have "one_in_flight (w1\<lparr>complete := False, idle := False, sent_frames := sent_frames w1 + 1\<rparr>)"
    by (auto simp: one_in_flight_def)
  ultimately show ?thesis using wait_until_in_flight [OF w1(2)] by simp
qed

definition same_events :: "xwindow \<Rightarrow> xwindow \<Rightarrow> bool" where
  "same_events w w' \<longleftrightarrow> complete_event w' = complete_event w \<and> idle_event w' = idle_event w"

lemma answered: "answers w e \<Longrightarrow> \<exists>w'. window_event_loop (Some e) w = Inr w' \<and> same_events w w'"
  by (cases e) (auto simp: window_event_loop_def notnull_def answers_def same_events_def)

lemma answers_cong: "same_events w w' \<Longrightarrow> answers w' e = answers w e"
  by (cases e) (auto simp: answers_def same_events_def)

text \<open>A wait ends at the latest with an event that sets its flag.\<close>

lemma wait_until_returns:
  assumes "\<forall>e \<in> set es. answers w e" and "e \<in> set es"
    and "\<And>w'. same_events w w' \<Longrightarrow> \<exists>w''. window_event_loop (Some e) w' = Inr w'' \<and> flag w''"
  shows "\<exists>w' k. wait_until flag (map Some es) w = Inr (w', map Some (drop k es)) \<and> same_events w w'"
  using assms
proof (induction es arbitrary: w)
  case (Cons x xs)
  show ?case
  proof (cases "flag w")
    case True
    then have "wait_until flag (map Some (x # xs)) w = Inr (w, map Some (drop 0 (x # xs)))" by simp
    then show ?thesis by (metis same_events_def)
  next
    case False
    obtain w1 where w1: "window_event_loop (Some x) w = Inr w1" "same_events w w1" using answered Cons.prems(1) by fastforce
    show ?thesis
    proof (cases "flag w1")
      case True
      have "wait_until flag (map Some xs) w1 = Inr (w1, map Some xs)" using True by (cases xs) simp_all
      then have "wait_until flag (map Some (x # xs)) w = Inr (w1, map Some (drop 1 (x # xs)))" using False w1(1) by simp
      with w1(2) show ?thesis by blast
    next
      case unset: False
      have "same_events w w" by (simp add: same_events_def)
      then have "e \<in> set xs" using Cons.prems(2) Cons.prems(3) [of w] w1(1) unset by auto
      moreover have "\<forall>e \<in> set xs. answers w1 e" using Cons.prems(1) answers_cong [OF w1(2)] by simp
      moreover have "same_events w w'" if "same_events w1 w'" for w' using that w1(2) by (simp add: same_events_def)
      ultimately obtain w' k where "wait_until flag (map Some xs) w1 = Inr (w', map Some (drop k xs))" "same_events w1 w'"
        using Cons.IH [of w1] Cons.prems(3) by blast
      then have "wait_until flag (map Some (x # xs)) w = Inr (w', map Some (drop (Suc k) (x # xs)))" "same_events w w'"
        using False w1 by (simp_all add: same_events_def)
      then show ?thesis by blast
    qed
  qed
qed simp

end
