(* ===== verification/Text_Placement.thy ===== *)
theory Text_Placement
  imports Mahimahi_Prelude Complex_Main
begin

text \<open>
  Texts on the graph, src/src/graphing/cairo_objects.{hh,cc}: the checks of the cairo objects and where
  \<open>Pango::Text\<close> puts a text. The transformation of a cairo context is an affine map, and \<open>cairo_scale\<close>,
  \<open>cairo_rotate\<close> and \<open>cairo_translate\<close> change the user space as the manual of cairo says: the new
  operation is applied first. Floating-point numbers are real numbers. What pango makes of a text, its
  outline and its logical extents in units of 1/1024 of a point, is an input.

  The lemmas show that a text is drawn with the middle of its extent at the point that is asked for, in
  the rotated case for any angle, and how far the shrunk text is off.
\<close>

section \<open>Model\<close>

subsection \<open>Errors\<close>

definition check_status :: "string \<Rightarrow> string option \<Rightarrow> unit res" where
  "check_status what status = (case status of None \<Rightarrow> Inr () | Some s \<Rightarrow> Inl (Runtime_error (''cairo '' @ what @ '' error: '' @ s)))"

definition cairo_check_error :: "string option \<Rightarrow> string option \<Rightarrow> unit res" where
  "cairo_check_error context_status surface_status =
     res_bind (check_status ''context'' context_status) (\<lambda>_. check_status ''surface'' surface_status)"

text \<open>
  The constructors of the surface and of the context check their own object, then the constructor of
  \<open>Cairo\<close> checks both. Its size is that of the pixmap.
\<close>

definition mk_cairo :: "string option \<times> string option \<Rightarrow> string option \<times> string option \<Rightarrow> u32 \<times> u32 \<Rightarrow> (u32 \<times> u32) res" where
  "mk_cairo first later sz =
     res_bind (check_status ''surface'' (fst first)) (\<lambda>_.
     res_bind (check_status ''context'' (snd first)) (\<lambda>_.
     res_bind (cairo_check_error (snd later) (fst later)) (\<lambda>_. Inr sz)))"

definition mk_pattern :: "string option \<Rightarrow> unit res" where
  "mk_pattern status = check_status ''pattern'' status"

subsection \<open>Transformations\<close>

record matrix =
  xx :: real
  xy :: real
  yx :: real
  yy :: real
  x0 :: real
  y0 :: real

definition identity_matrix :: matrix where
  "identity_matrix = \<lparr>xx = 1, xy = 0, yx = 0, yy = 1, x0 = 0, y0 = 0\<rparr>"

definition user_to_device :: "matrix \<Rightarrow> real \<times> real \<Rightarrow> real \<times> real" where
  "user_to_device m p = (xx m * fst p + xy m * snd p + x0 m, yx m * fst p + yy m * snd p + y0 m)"

definition det :: "matrix \<Rightarrow> real" where
  "det m = xx m * yy m - xy m * yx m"

definition device_to_user :: "matrix \<Rightarrow> real \<times> real \<Rightarrow> real \<times> real" where
  "device_to_user m p =
     ((yy m * (fst p - x0 m) - xy m * (snd p - y0 m)) / det m, (xx m * (snd p - y0 m) - yx m * (fst p - x0 m)) / det m)"

text \<open>The map that does \<open>a\<close> first and then \<open>m\<close>.\<close>

definition apply_first :: "matrix \<Rightarrow> matrix \<Rightarrow> matrix" where
  "apply_first a m =
     \<lparr>xx = xx m * xx a + xy m * yx a, xy = xx m * xy a + xy m * yy a,
      yx = yx m * xx a + yy m * yx a, yy = yx m * xy a + yy m * yy a,
      x0 = xx m * x0 a + xy m * y0 a + x0 m, y0 = yx m * x0 a + yy m * y0 a + y0 m\<rparr>"

definition cairo_scale :: "real \<Rightarrow> real \<Rightarrow> matrix \<Rightarrow> matrix" where
  "cairo_scale sx sy = apply_first (identity_matrix\<lparr>xx := sx, yy := sy\<rparr>)"

definition cairo_rotate :: "real \<Rightarrow> matrix \<Rightarrow> matrix" where
  "cairo_rotate angle = apply_first (identity_matrix\<lparr>xx := cos angle, xy := - sin angle, yx := sin angle, yy := cos angle\<rparr>)"

definition cairo_translate :: "real \<times> real \<Rightarrow> matrix \<Rightarrow> matrix" where
  "cairo_translate t = apply_first (identity_matrix\<lparr>x0 := fst t, y0 := snd t\<rparr>)"

subsection \<open>Extents and texts\<close>

record extent =
  ext_x :: real
  ext_y :: real
  ext_width :: real
  ext_height :: real

definition transform_extent :: "(real \<times> real \<Rightarrow> real \<times> real) \<Rightarrow> extent \<Rightarrow> extent" where
  "transform_extent f e =
     (let (x1, y1) = f (ext_x e, ext_y e); (x2, y2) = f (ext_x e + ext_width e, ext_y e + ext_height e)
      in \<lparr>ext_x = x1, ext_y = y1, ext_width = x2 - x1, ext_height = y2 - y1\<rparr>)"

definition to_device :: "matrix \<Rightarrow> extent \<Rightarrow> extent" where
  "to_device m = transform_extent (user_to_device m)"

definition to_user :: "matrix \<Rightarrow> extent \<Rightarrow> extent" where
  "to_user m = transform_extent (device_to_user m)"

text \<open>The constructor of \<open>Pango::Text\<close> turns the units of pango into points.\<close>

definition text_extent :: "int \<Rightarrow> int \<Rightarrow> int \<Rightarrow> int \<Rightarrow> extent" where
  "text_extent x y w h =
     \<lparr>ext_x = of_int x / 1024, ext_y = of_int y / 1024, ext_width = of_int w / 1024, ext_height = of_int h / 1024\<rparr>"

text \<open>The transformation under which the outline is appended.\<close>

definition draw_centered_at :: "extent \<Rightarrow> real \<Rightarrow> real \<Rightarrow> real \<Rightarrow> matrix" where
  "draw_centered_at ext x y max_width =
     (let m = identity_matrix;
          my_extent = to_device m ext;
          too_wide = max_width < ext_width my_extent;
          scale_factor = max_width / ext_width my_extent;
          m1 = (if too_wide then cairo_scale scale_factor scale_factor m else m);
          center_x = (if too_wide then x - ext_x my_extent - ext_width my_extent * scale_factor / 2
                      else x - ext_x my_extent - ext_width my_extent / 2);
          center_y = (if too_wide then y - ext_y my_extent - ext_height my_extent * scale_factor / 2
                      else y - ext_y my_extent - ext_height my_extent / 2)
      in cairo_translate (device_to_user m1 (center_x, center_y)) m1)"

definition draw_centered_rotated_at :: "real \<Rightarrow> extent \<Rightarrow> real \<Rightarrow> real \<Rightarrow> matrix" where
  "draw_centered_rotated_at angle ext x y =
     (let m = cairo_rotate angle identity_matrix;
          my_extent = to_device m ext;
          center_x = x - ext_x my_extent - ext_width my_extent / 2;
          center_y = y - ext_y my_extent - ext_height my_extent / 2
      in cairo_translate (device_to_user m (center_x, center_y)) m)"

text \<open>The angle of the code, nearly a right one.\<close>

definition text_angle :: real where
  "text_angle = - 3.1415926 / 2"

section \<open>Transformations\<close>

lemma apply_first_user_to_device [simp]: "user_to_device (apply_first a m) p = user_to_device m (user_to_device a p)"
  by (simp add: user_to_device_def apply_first_def algebra_simps)

lemma identity_user_to_device [simp]: "user_to_device identity_matrix p = p"
  by (simp add: user_to_device_def identity_matrix_def)

lemma device_user_device:
  assumes "det m \<noteq> 0"
  shows "user_to_device m (device_to_user m p) = p"
proof -
  obtain a b where p: "p = (a, b)" by (cases p)
  have "xx m * (yy m * u - xy m * v) + xy m * (xx m * v - yx m * u) = det m * u"
    "yx m * (yy m * u - xy m * v) + yy m * (xx m * v - yx m * u) = det m * v" for u v
    by (simp_all add: det_def algebra_simps)
  then show ?thesis using assms
    by (simp add: p user_to_device_def device_to_user_def add_divide_distrib [symmetric])
qed

lemma user_device_user:
  assumes "det m \<noteq> 0"
  shows "device_to_user m (user_to_device m p) = p"
proof -
  obtain a b where p: "p = (a, b)" by (cases p)
  have "yy m * (xx m * a + xy m * b) - xy m * (yx m * a + yy m * b) = det m * a"
    "xx m * (yx m * a + yy m * b) - yx m * (xx m * a + xy m * b) = det m * b"
    by (simp_all add: det_def algebra_simps)
  then show ?thesis using assms by (simp add: p user_to_device_def device_to_user_def)
qed

lemma extent_roundtrip:
  assumes "det m \<noteq> 0"
  shows "to_user m (to_device m e) = e"
proof -
  obtain x1 y1 x2 y2 where d: "user_to_device m (ext_x e, ext_y e) = (x1, y1)"
      "user_to_device m (ext_x e + ext_width e, ext_y e + ext_height e) = (x2, y2)"
    by (metis surj_pair)
  have "device_to_user m (x1, y1) = (ext_x e, ext_y e)" "device_to_user m (x2, y2) = (ext_x e + ext_width e, ext_y e + ext_height e)"
    using user_device_user [OF assms] d by metis+
  then show ?thesis by (simp add: to_user_def to_device_def transform_extent_def d)
qed

lemma translation: "user_to_device (identity_matrix\<lparr>x0 := a, y0 := b\<rparr>) p = (fst p + a, snd p + b)"
  by (simp add: user_to_device_def identity_matrix_def)

text \<open>Translating by a vector that was given in device space moves every point by that vector.\<close>

lemma translate_device:
  assumes "det m \<noteq> 0" and "x0 m = 0" and "y0 m = 0"
  shows "user_to_device (cairo_translate (device_to_user m t) m) p =
    (fst (user_to_device m p) + fst t, snd (user_to_device m p) + snd t)"
proof -
  have "user_to_device m (fst q + fst r, snd q + snd r) =
      (fst (user_to_device m q) + fst (user_to_device m r), snd (user_to_device m q) + snd (user_to_device m r))" for q r
    using assms(2,3) by (simp add: user_to_device_def algebra_simps)
  from this [of p "device_to_user m t"] show ?thesis
    by (simp add: cairo_translate_def translation device_user_device [OF assms(1)])
qed

section \<open>Centred texts\<close>

definition middle :: "extent \<Rightarrow> real \<times> real" where
  "middle e = (ext_x e + ext_width e / 2, ext_y e + ext_height e / 2)"

lemma middle_to_device:
  assumes "x0 m = 0" and "y0 m = 0"
  shows "user_to_device m (middle e) = middle (to_device m e)"
  using assms by (simp add: middle_def to_device_def transform_extent_def user_to_device_def field_simps)

lemma rotated_text_centered: "user_to_device (draw_centered_rotated_at angle e x y) (middle e) = (x, y)"
proof -
  let ?m = "cairo_rotate angle identity_matrix"
  have m: "x0 ?m = 0" "y0 ?m = 0" "det ?m \<noteq> 0"
    by (simp_all add: cairo_rotate_def apply_first_def identity_matrix_def det_def flip: power2_eq_square)
  show ?thesis
    unfolding draw_centered_rotated_at_def Let_def translate_device [OF m(3,1,2)] middle_to_device [OF m(1,2)]
    by (simp add: middle_def)
qed

text \<open>
  A text that fits is centred. One that is shrunk is off by what its extent begins with, less the shrunk
  amount, so it is centred when the extent begins at the origin, as it does for one line of text.
\<close>

lemma text_centered:
  assumes "0 < max_width"
  shows "user_to_device (draw_centered_at e x y max_width) (middle e) =
    (let s = (if max_width < ext_width e then max_width / ext_width e else 1) in (x + (s - 1) * ext_x e, y + (s - 1) * ext_y e))"
proof -
  let ?s = "max_width / ext_width e"
  let ?m = "cairo_scale ?s ?s identity_matrix"
  have d: "to_device identity_matrix e = e" by (simp add: to_device_def transform_extent_def)
  have i: "det identity_matrix \<noteq> 0" "x0 identity_matrix = 0" "y0 identity_matrix = 0" by (simp_all add: det_def identity_matrix_def)
  show ?thesis
  proof (cases "max_width < ext_width e")
    case True
    then have s: "0 < ?s" "0 < ext_width e" using assms by auto
    have m: "x0 ?m = 0" "y0 ?m = 0" "det ?m \<noteq> 0"
      using s assms by (simp_all add: cairo_scale_def apply_first_def identity_matrix_def det_def)
    have "user_to_device ?m (middle e) = (?s * fst (middle e), ?s * snd (middle e))"
      by (simp add: cairo_scale_def) (simp add: user_to_device_def identity_matrix_def)
    then show ?thesis
      unfolding draw_centered_at_def Let_def d using True
      by (simp add: translate_device [OF m(3,1,2)] middle_def) (simp add: field_simps)
  next
    case False
    then show ?thesis
      unfolding draw_centered_at_def Let_def d by (simp add: translate_device [OF i]) (simp add: middle_def)
  qed
qed

lemma text_fits:
  assumes "0 < max_width" and "0 \<le> ext_width e"
  shows "fst (user_to_device (draw_centered_at e x y max_width) (ext_x e + ext_width e, ext_y e)) -
    fst (user_to_device (draw_centered_at e x y max_width) (ext_x e, ext_y e)) \<le> max_width"
  using assms
  by (simp add: draw_centered_at_def Let_def cairo_translate_def cairo_scale_def to_device_def transform_extent_def)
    (simp add: user_to_device_def identity_matrix_def field_simps)

end
