(* ===== verification/Privileges.thy ===== *)
theory Privileges
  imports Record_Replay
begin

text \<open>
  Root privileges: \<open>check_requirements\<close>, \<open>drop_privileges\<close>, \<open>assert_not_root\<close> and
  \<open>TemporarilyUnprivileged\<close> of src/src/util/util.cc, the checks of \<open>ezexec\<close>
  (src/src/util/system_runner.cc) and \<open>TemporaryEnvironment\<close> and \<open>get_mahimahi_base\<close> of
  src/src/packet/packetshell.cc. The credentials of a process are its real, effective and saved user
  and group; \<open>id_exec\<close> is what the manual pages say of the calls that change them: a process whose
  effective user is root may set any, another one only swap those it has.

  \<open>id_step\<close> is any such call, so the reachable credentials are all a process can ever get: the lemmas
  show that after \<open>drop_privileges\<close> these are the dropped ones only.
\<close>

section \<open>Model\<close>

record creds =
  ruid :: nat
  euid :: nat
  suid :: nat
  rgid :: nat
  egid :: nat
  sgid :: nat

datatype id_call =
    Setuid nat | Seteuid nat | Setreuid nat nat | Setresuid nat nat nat
  | Setgid nat | Setegid nat | Setregid nat nat | Setresgid nat nat nat

definition privileged :: "creds \<Rightarrow> bool" where
  "privileged c \<longleftrightarrow> euid c = 0"

definition own_uids :: "creds \<Rightarrow> nat set" where
  "own_uids c = {ruid c, euid c, suid c}"

definition own_gids :: "creds \<Rightarrow> nat set" where
  "own_gids c = {rgid c, egid c, sgid c}"

text \<open>
  The result of a call, \<open>None\<close> when it fails. \<open>setreuid\<close> and \<open>setregid\<close> with both arguments given set
  the saved identity to the new effective one.
\<close>

fun id_exec :: "id_call \<Rightarrow> creds \<Rightarrow> creds option" where
  "id_exec (Setuid u) c =
     (if privileged c then Some (c\<lparr>ruid := u, euid := u, suid := u\<rparr>)
      else if u = ruid c \<or> u = suid c then Some (c\<lparr>euid := u\<rparr>) else None)"
| "id_exec (Seteuid u) c = (if privileged c \<or> u \<in> own_uids c then Some (c\<lparr>euid := u\<rparr>) else None)"
| "id_exec (Setreuid r e) c =
     (if privileged c \<or> r \<in> {ruid c, euid c} \<and> e \<in> own_uids c then Some (c\<lparr>ruid := r, euid := e, suid := e\<rparr>) else None)"
| "id_exec (Setresuid r e s) c =
     (if privileged c \<or> {r, e, s} \<subseteq> own_uids c then Some (c\<lparr>ruid := r, euid := e, suid := s\<rparr>) else None)"
| "id_exec (Setgid g) c =
     (if privileged c then Some (c\<lparr>rgid := g, egid := g, sgid := g\<rparr>)
      else if g = rgid c \<or> g = sgid c then Some (c\<lparr>egid := g\<rparr>) else None)"
| "id_exec (Setegid g) c = (if privileged c \<or> g \<in> own_gids c then Some (c\<lparr>egid := g\<rparr>) else None)"
| "id_exec (Setregid r e) c =
     (if privileged c \<or> r \<in> {rgid c, egid c} \<and> e \<in> own_gids c then Some (c\<lparr>rgid := r, egid := e, sgid := e\<rparr>) else None)"
| "id_exec (Setresgid r e s) c =
     (if privileged c \<or> {r, e, s} \<subseteq> own_gids c then Some (c\<lparr>rgid := r, egid := e, sgid := s\<rparr>) else None)"

definition system_call :: "string \<Rightarrow> 'a option \<Rightarrow> 'a res" where
  "system_call attempt r = (case r of None \<Rightarrow> Inl (Unix_error attempt) | Some x \<Rightarrow> Inr x)"

text \<open>
  \<open>drop_privileges\<close>. The process exits, with the message of the error, when a call that should fail
  does not, or when the identity is not the one that was set.
\<close>

definition still_privileged :: "creds option \<Rightarrow> bool \<Rightarrow> bool" where
  "still_privileged regained kept \<longleftrightarrow> regained \<noteq> None \<or> kept"

definition drop_privileges :: "creds \<Rightarrow> creds res" where
  "drop_privileges c =
     (let real_gid = rgid c; eff_gid = egid c; real_uid = ruid c; eff_uid = euid c in
      res_bind (if real_gid \<noteq> eff_gid then system_call ''setregid'' (id_exec (Setregid real_gid real_gid) c) else Inr c) (\<lambda>c1.
      res_bind (if real_uid \<noteq> eff_uid then system_call ''setreuid'' (id_exec (Setreuid real_uid real_uid) c1) else Inr c1) (\<lambda>c2.
        if real_gid \<noteq> eff_gid \<and> still_privileged (id_exec (Setegid eff_gid) c2) (egid c2 \<noteq> real_gid)
        then Inl (Runtime_error ''BUG: dropping privileged gid failed'')
        else if real_uid \<noteq> eff_uid \<and> still_privileged (id_exec (Seteuid eff_uid) c2) (euid c2 \<noteq> real_uid)
        then Inl (Runtime_error ''BUG: dropping privileged uid failed'')
        else Inr c2)))"

definition runs_as_root :: "creds \<Rightarrow> bool" where
  "runs_as_root c \<longleftrightarrow> euid c = 0 \<or> egid c = 0"

text \<open>The constructor of \<open>TemporarilyUnprivileged\<close>, which remembers the identity, and its destructor.\<close>

definition enter_unprivileged :: "creds \<Rightarrow> ((nat \<times> nat) \<times> creds) res" where
  "enter_unprivileged c =
     res_bind (system_call ''setegid'' (id_exec (Setegid (rgid c)) c)) (\<lambda>c1.
     res_bind (system_call ''seteuid'' (id_exec (Seteuid (ruid c1)) c1)) (\<lambda>c2.
       assert_not_root (runs_as_root c2) (Inr ((euid c, egid c), c2))))"

definition leave_unprivileged :: "nat \<times> nat \<Rightarrow> creds \<Rightarrow> creds res" where
  "leave_unprivileged orig c =
     res_bind (system_call ''seteuid'' (id_exec (Seteuid (fst orig)) c)) (\<lambda>c1.
       system_call ''setegid'' (id_exec (Setegid (snd orig)) c1))"

text \<open>A scope that runs \<open>k\<close> unprivileged; the destructor runs also when \<open>k\<close> throws.\<close>

definition temporarily_unprivileged :: "(creds \<Rightarrow> 'a res) \<Rightarrow> creds \<Rightarrow> ('a res \<times> creds) res" where
  "temporarily_unprivileged k c =
     res_bind (enter_unprivileged c) (\<lambda>(orig, c1).
       res_bind (leave_unprivileged orig c1) (\<lambda>c2. Inr (k c1, c2)))"

text \<open>
  The checks at the start of every shell, with the outcomes of the two \<open>open\<close> calls and what the second
  file holds; and the checks of \<open>ezexec\<close>.
\<close>

definition check_requirements :: "string list \<Rightarrow> bool \<Rightarrow> creds \<Rightarrow> bool \<Rightarrow> string option \<Rightarrow> unit res" where
  "check_requirements argv open_null c has_environment ip_forward =
     (if argv = [] then Inl (Runtime_error ''missing argv[ 0 ]: argc <= 0'')
      else if \<not> open_null then Inl (Unix_error ''open /dev/null'')
      else if euid c \<noteq> 0 then Inl (Runtime_error (hd argv @ '': needs to be installed setuid root''))
      else if ruid c = 0 \<or> rgid c = 0 then Inl (Runtime_error (hd argv @ '': please run as non-root''))
      else if has_environment then Inl (Runtime_error ''BUG: environment not cleared in sensitive region'')
      else
        case ip_forward of
          None \<Rightarrow> Inl (Unix_error ''open /proc/sys/net/ipv4/ip_forward'')
        | Some contents \<Rightarrow>
            if contents \<noteq> ''1'' @ [CHR 0x0A] then
              Inl (Runtime_error (hd argv @ '': Please run \"sudo sysctl -w net.ipv4.ip_forward=1\" to enable IP forwarding''))
            else Inr ())"

definition ezexec_checks :: "string list \<Rightarrow> bool \<Rightarrow> creds \<Rightarrow> bool \<Rightarrow> unit res" where
  "ezexec_checks command path_search c has_environment =
     (if command = [] then Inl (Runtime_error ''ezexec: empty command'')
      else if (euid c = 0 \<or> egid c = 0) \<and> has_environment then Inl (Runtime_error ''BUG: root's environment not cleared'')
      else if (euid c = 0 \<or> egid c = 0) \<and> path_search then Inl (Runtime_error ''BUG: root should not search PATH'')
      else Inr ())"

definition make_directory :: "bool \<Rightarrow> creds \<Rightarrow> string \<Rightarrow> unit res" where
  "make_directory mkdir_ok c directory =
     assert_not_root (runs_as_root c)
       (asserting (directory \<noteq> []) (asserting (last directory = CHR ''/'')
          (if mkdir_ok then Inr () else Inl (Unix_error (''mkdir '' @ directory)))))"

text \<open>
  The process-wide variable \<open>environ\<close> is \<open>None\<close> when it has been cleared. \<open>get_mahimahi_base\<close> looks at
  the user's environment in an unprivileged scope and leaves \<open>environ\<close> cleared;
  \<open>numeric_address\<close> is the constructor of an \<open>Address\<close>, which asks \<open>getaddrinfo\<close>.
\<close>

definition enter_environment :: "environment \<Rightarrow> environment option \<Rightarrow> environment option res" where
  "enter_environment env environ =
     (if environ \<noteq> None then Inl (Runtime_error ''TemporaryEnvironment: cannot be entered recursively'') else Inr (Some env))"

definition get_mahimahi_base :: "(string \<Rightarrow> address res) \<Rightarrow> environment \<Rightarrow> environment option \<Rightarrow> creds \<Rightarrow> (address res \<times> creds) res" where
  "get_mahimahi_base numeric_address user_environment environ c =
     temporarily_unprivileged (\<lambda>c1.
       res_bind (enter_environment user_environment environ) (\<lambda>environ1.
         numeric_address (case user_environment ''MAHIMAHI_BASE'' of None \<Rightarrow> ''0'' | Some mahimahi_base \<Rightarrow> mahimahi_base))) c"

section \<open>What a process can get\<close>

inductive id_step :: "creds \<Rightarrow> creds \<Rightarrow> bool" where
  call: "id_exec k c = Some c' \<Longrightarrow> id_step c c'"

inductive gets :: "creds \<Rightarrow> creds \<Rightarrow> bool" where
  refl: "gets c c"
| step: "gets c c' \<Longrightarrow> id_step c' c'' \<Longrightarrow> gets c c''"

inductive_cases id_stepE: "id_step c c'"

definition settled_as :: "nat \<Rightarrow> nat \<Rightarrow> creds \<Rightarrow> bool" where
  "settled_as u g c \<longleftrightarrow> own_uids c = {u} \<and> own_gids c = {g}"

lemma settled_as_iff: "settled_as u g c \<longleftrightarrow> c = \<lparr>ruid = u, euid = u, suid = u, rgid = g, egid = g, sgid = g\<rparr>"
  by (cases c) (auto simp: settled_as_def own_uids_def own_gids_def)

lemma settled_step:
  assumes "settled_as u g c" and "u \<noteq> 0" and "id_step c c'"
  shows "c' = c"
proof -
  obtain k where "id_exec k c = Some c'" using assms(3) by (rule id_stepE)
  then show ?thesis using assms(1,2)
    by (cases k) (auto simp: settled_as_iff privileged_def own_uids_def own_gids_def split: if_splits)
qed

lemma settled_gets: "gets c c' \<Longrightarrow> settled_as u g c \<Longrightarrow> u \<noteq> 0 \<Longrightarrow> c' = c"
  by (induction rule: gets.induct) (auto dest: settled_step)

text \<open>The credentials of a program that is installed setuid root and was started by a user, after the checks.\<close>

definition setuid_root :: "creds \<Rightarrow> bool" where
  "setuid_root c \<longleftrightarrow> euid c = 0 \<and> suid c = 0 \<and> ruid c \<noteq> 0 \<and> rgid c \<noteq> 0 \<and> sgid c = egid c"

lemma setuid_root_checked:
  "check_requirements argv open_null c has_environment ip_forward = Inr () \<Longrightarrow> suid c = euid c \<Longrightarrow> sgid c = egid c \<Longrightarrow> setuid_root c"
  by (auto simp: check_requirements_def setuid_root_def split: if_splits)

lemma drop_privileges_settles:
  assumes "setuid_root c"
  shows "\<exists>c'. drop_privileges c = Inr c' \<and> settled_as (ruid c) (rgid c) c'"
proof -
  let ?c = "\<lparr>ruid = ruid c, euid = ruid c, suid = ruid c, rgid = rgid c, egid = rgid c, sgid = rgid c\<rparr>"
  have c: "euid c = 0" "suid c = 0" "ruid c \<noteq> 0" "rgid c \<noteq> 0" "sgid c = egid c" using assms by (simp_all add: setuid_root_def)
  have "drop_privileges c = Inr ?c"
    using c by (cases c)
      (auto simp: drop_privileges_def system_call_def privileged_def still_privileged_def own_uids_def own_gids_def Let_def)
  then show ?thesis by (simp add: settled_as_iff)
qed

text \<open>The unprivileged scope gives up root, and its end restores the very same credentials.\<close>

lemma unprivileged_scope:
  assumes "setuid_root c"
  shows "\<exists>c1. temporarily_unprivileged k c = Inr (k c1, c) \<and> \<not> runs_as_root c1"
proof -
  let ?c1 = "c\<lparr>euid := ruid c, egid := rgid c\<rparr>"
  have "temporarily_unprivileged k c = Inr (k ?c1, c)"
    using assms by (cases c)
      (auto simp: setuid_root_def temporarily_unprivileged_def enter_unprivileged_def leave_unprivileged_def system_call_def privileged_def
        own_uids_def own_gids_def assert_not_root_def runs_as_root_def)
  then show ?thesis using assms by (auto simp: setuid_root_def runs_as_root_def)
qed

section \<open>Properties\<close>

text \<open>
  C16: A shell drops root for good. A program that is installed setuid root and passes the checks at its
  start keeps its credentials over the unprivileged scopes it enters; when it then drops its
  privileges, that succeeds, no root identity is left, real, effective or saved, and no sequence of
  calls that change credentials can change them any more.
\<close>

theorem privileges_dropped_for_good:
  assumes "check_requirements argv open_null c has_environment ip_forward = Inr ()" and "suid c = euid c" and "sgid c = egid c"
  shows "\<exists>c1 c'. temporarily_unprivileged k c = Inr (k c1, c) \<and> \<not> runs_as_root c1 \<and> drop_privileges c = Inr c' \<and>
    own_uids c' = {ruid c} \<and> own_gids c' = {rgid c} \<and> 0 \<notin> own_uids c' \<union> own_gids c' \<and> (\<forall>c''. gets c' c'' \<longrightarrow> c'' = c')"
proof -
  have r: "setuid_root c" using setuid_root_checked assms by blast
  obtain c1 where c1: "temporarily_unprivileged k c = Inr (k c1, c)" "\<not> runs_as_root c1" using unprivileged_scope [OF r] by blast
  obtain c' where c': "drop_privileges c = Inr c'" "settled_as (ruid c) (rgid c) c'" using drop_privileges_settles [OF r] by blast
  have "ruid c \<noteq> 0" "rgid c \<noteq> 0" using r by (simp_all add: setuid_root_def)
  then have "own_uids c' = {ruid c} \<and> own_gids c' = {rgid c} \<and> 0 \<notin> own_uids c' \<union> own_gids c'"
    using c'(2) by (simp add: settled_as_def)
  moreover have "\<forall>c''. gets c' c'' \<longrightarrow> c'' = c'" using settled_gets c'(2) \<open>ruid c \<noteq> 0\<close> by blast
  ultimately show ?thesis using c1 c'(1) by blast
qed

theorem privileges_dropped_for_good_witness:
  "\<exists>c'. drop_privileges \<lparr>ruid = 1000, euid = 0, suid = 0, rgid = 1000, egid = 5, sgid = 5\<rparr> = Inr c' \<and> 0 \<notin> own_uids c'"
proof -
  let ?c = "\<lparr>ruid = 1000, euid = 0, suid = 0, rgid = 1000, egid = 5, sgid = 5\<rparr>"
  have "check_requirements [''mm-link''] True ?c False (Some (''1'' @ [CHR 0x0A])) = Inr ()" by (simp add: check_requirements_def)
  from privileges_dropped_for_good [OF this, of "\<lambda>c1. Inr ()"] show ?thesis by auto
qed

end
