(* ===== verification/Shell_Frontends.thy ===== *)
theory Shell_Frontends
  imports Queue_Factory Link_Queue Privileges
begin

text \<open>
  The programs mm-link, mm-loss, mm-onoff, mm-delay and mm-meter (src/src/frontend/*shell.cc, meter.cc):
  from the command line to what they start. A program returns the launch of its packet shell: the
  prompt, the command to run inside, and the arguments of the two queues. The answers of the system,
  the outcome of the checks at the start and the user's login shell among them, are inputs, and so is
  \<open>getopt_long\<close>: the options it finds, in order, with their arguments, and the other words of the command
  line. \<open>strtod\<close> is a parameter too.

  \<open>sh_words\<close> splits a command line the way a shell does, to show that the line mm-link writes into its
  log stands for the words it was started with.
\<close>

section \<open>Model\<close>

subsection \<open>Shared parts\<close>

text \<open>\<open>shell_path\<close>: \<open>pw_shell\<close> is the shell of the user's password entry, if there is one.\<close>

definition shell_path :: "string option \<Rightarrow> string res" where
  "shell_path pw_shell =
     (case pw_shell of
        None \<Rightarrow> Inl (Unix_error ''getpwuid'')
      | Some sh \<Rightarrow> Inr (if sh = [] then ''/bin/sh'' else sh))"

definition shell_command :: "string option \<Rightarrow> string list \<Rightarrow> string list res" where
  "shell_command pw_shell words =
     (if words = [] then res_bind (shell_path pw_shell) (\<lambda>sh. Inr [sh]) else Inr words)"

definition join_words :: "string list \<Rightarrow> string res" where
  "join_words command =
     (case command of [] \<Rightarrow> Inl Undefined_behaviour | w # ws \<Rightarrow> Inr (foldl (\<lambda>a b. a @ '' '' @ b) w ws))"

definition prepend_shell_prefix :: "string \<Rightarrow> environment \<Rightarrow> environment" where
  "prepend_shell_prefix str env =
     env(''MAHIMAHI_SHELL_PREFIX'' \<mapsto> (case env ''MAHIMAHI_SHELL_PREFIX'' of None \<Rightarrow> [] | Some shell_prefix' \<Rightarrow> shell_prefix') @ str,
         ''PROMPT_COMMAND'' \<mapsto> ''PS1=\"$MAHIMAHI_SHELL_PREFIX$PS1\" PROMPT_COMMAND='')"

record 'q launch =
  launch_prompt :: string
  launch_command :: "string list"
  uplink :: 'q
  downlink :: 'q

subsection \<open>mm-link\<close>

definition quote_char :: "char \<Rightarrow> string" where
  "quote_char ch = (if ch \<noteq> CHR 0x27 then [ch] else [CHR 0x27, CHR 0x5C, CHR 0x27, CHR 0x27])"

definition shell_quote :: "string \<Rightarrow> string" where
  "shell_quote arg = [CHR 0x27] @ concat (map quote_char arg) @ [CHR 0x27]"

fun mk_command_line :: "string list \<Rightarrow> string" where
  "mk_command_line [] = []"
| "mk_command_line (w # ws) = foldl (\<lambda>line w. line @ '' '' @ shell_quote w) (shell_quote w) ws"

record link_options =
  uplink_logfile :: string
  downlink_logfile :: string
  opt_repeat :: bool
  meter_uplink :: bool
  meter_downlink :: bool
  meter_uplink_delay :: bool
  meter_downlink_delay :: bool
  uplink_queue_type :: string
  downlink_queue_type :: string
  uplink_queue_args :: string
  downlink_queue_args :: string

definition default_link_options :: link_options where
  "default_link_options =
     \<lparr>uplink_logfile = [], downlink_logfile = [], opt_repeat = True, meter_uplink = False, meter_downlink = False,
      meter_uplink_delay = False, meter_downlink_delay = False, uplink_queue_type = ''infinite'', downlink_queue_type = ''infinite'',
      uplink_queue_args = [], downlink_queue_args = []\<rparr>"

definition invalid_arguments :: error where
  "invalid_arguments = Runtime_error ''invalid arguments''"

definition link_option :: "char \<times> string \<Rightarrow> link_options \<Rightarrow> link_options res" where
  "link_option opt o' =
     (let optarg = snd opt in
      if fst opt = CHR ''u'' then Inr (o'\<lparr>uplink_logfile := optarg\<rparr>)
      else if fst opt = CHR ''d'' then Inr (o'\<lparr>downlink_logfile := optarg\<rparr>)
      else if fst opt = CHR ''o'' then Inr (o'\<lparr>opt_repeat := False\<rparr>)
      else if fst opt = CHR ''m'' then Inr (o'\<lparr>meter_uplink := True\<rparr>)
      else if fst opt = CHR ''n'' then Inr (o'\<lparr>meter_downlink := True\<rparr>)
      else if fst opt = CHR ''x'' then Inr (o'\<lparr>meter_uplink_delay := True\<rparr>)
      else if fst opt = CHR ''y'' then Inr (o'\<lparr>meter_downlink_delay := True\<rparr>)
      else if fst opt = CHR ''z'' then
        Inr (o'\<lparr>meter_uplink := True, meter_downlink := True, meter_uplink_delay := True, meter_downlink_delay := True\<rparr>)
      else if fst opt = CHR ''q'' then Inr (o'\<lparr>uplink_queue_type := optarg\<rparr>)
      else if fst opt = CHR ''w'' then Inr (o'\<lparr>downlink_queue_type := optarg\<rparr>)
      else if fst opt = CHR ''a'' then Inr (o'\<lparr>uplink_queue_args := optarg\<rparr>)
      else if fst opt = CHR ''b'' then Inr (o'\<lparr>downlink_queue_args := optarg\<rparr>)
      else if fst opt = CHR ''?'' then Inl invalid_arguments
      else Inl (Runtime_error (''getopt_long: unexpected return value '' @ show_nat (of_char (fst opt)))))"

fun link_option_loop :: "(char \<times> string) list \<Rightarrow> link_options \<Rightarrow> link_options res" where
  "link_option_loop [] o' = Inr o'"
| "link_option_loop (opt # opts) o' = res_bind (link_option opt o') (link_option_loop opts)"

record link_arguments =
  arg_name :: string
  arg_filename :: string
  arg_logfile :: string
  arg_repeat :: bool
  arg_graph_throughput :: bool
  arg_graph_delay :: bool
  arg_queue :: any_queue
  arg_command_line :: string

definition link_main ::
  "unit res \<Rightarrow> string option \<Rightarrow> (string \<Rightarrow> bool) \<Rightarrow> u64 \<Rightarrow> string list \<Rightarrow> (char \<times> string) list \<Rightarrow> string list \<Rightarrow> link_arguments launch res" where
  "link_main checks pw_shell fopen_ok now argv opts words =
     res_bind checks (\<lambda>_.
       if length argv < 3 then Inl invalid_arguments
       else
         res_bind (link_option_loop opts default_link_options) (\<lambda>o'.
           case words of
             uplink_filename # downlink_filename # command_words \<Rightarrow>
               res_bind (shell_command pw_shell command_words) (\<lambda>command.
               res_bind (get_packet_queue fopen_ok now (uplink_queue_type o') (uplink_queue_args o')) (\<lambda>up.
               res_bind (get_packet_queue fopen_ok now (downlink_queue_type o') (downlink_queue_args o')) (\<lambda>down.
                 Inr \<lparr>launch_prompt = ''[link] '', launch_command = command,
                      uplink = \<lparr>arg_name = ''Uplink'', arg_filename = uplink_filename, arg_logfile = uplink_logfile o',
                        arg_repeat = opt_repeat o', arg_graph_throughput = meter_uplink o', arg_graph_delay = meter_uplink_delay o',
                        arg_queue = up, arg_command_line = mk_command_line argv\<rparr>,
                      downlink = \<lparr>arg_name = ''Downlink'', arg_filename = downlink_filename, arg_logfile = downlink_logfile o',
                        arg_repeat = opt_repeat o', arg_graph_throughput = meter_downlink o', arg_graph_delay = meter_downlink_delay o',
                        arg_queue = down, arg_command_line = mk_command_line argv\<rparr>\<rparr>)))
           | _ \<Rightarrow> Inl invalid_arguments))"

subsection \<open>mm-loss, mm-onoff, mm-delay and mm-meter\<close>

definition usage :: "string \<Rightarrow> string \<Rightarrow> 'a res" where
  "usage program text = Inl (Runtime_error (''Usage: '' @ program @ text))"

text \<open>\<open>strtod\<close>: whether it sets \<open>errno\<close>, the number, and how many characters it has read.\<close>

type_synonym strtod = "string \<Rightarrow> bool \<times> real \<times> nat"

definition myatof :: "strtod \<Rightarrow> string \<Rightarrow> real res" where
  "myatof strtod str =
     (if str = [] then Inl (Runtime_error ''Invalid floating-point string: empty'')
      else
        let (errno, ret, stop) = strtod (takeWhile (\<lambda>c. c \<noteq> CHR 0x00) str)
        in if errno then Inl (Unix_error ''strtod'')
           else if stop \<noteq> length str then Inl (Runtime_error (''Invalid floating-point number: '' @ str))
           else Inr ret)"

definition loss_main :: "unit res \<Rightarrow> string option \<Rightarrow> strtod \<Rightarrow> string list \<Rightarrow> real launch res" where
  "loss_main checks pw_shell strtod argv =
     res_bind checks (\<lambda>_.
       let bad = usage (hd argv) '' uplink|downlink RATE [COMMAND...]'' in
       case argv of
         program # link # rate # words \<Rightarrow>
           res_bind (myatof strtod rate) (\<lambda>loss_rate.
             if \<not> (0 \<le> loss_rate \<and> loss_rate \<le> 1) then bad
             else if link \<noteq> ''uplink'' \<and> link \<noteq> ''downlink'' then bad
             else
               res_bind (shell_command pw_shell words) (\<lambda>command.
                 Inr \<lparr>launch_prompt = ''[loss '' @ (if link = ''uplink'' then ''up='' else ''down='') @ rate @ ''] '',
                      launch_command = command,
                      uplink = (if link = ''uplink'' then loss_rate else 0),
                      downlink = (if link = ''uplink'' then 0 else loss_rate)\<rparr>))
       | _ \<Rightarrow> bad)"

text \<open>The largest double, the mean time a direction stays on that is not to be switched.\<close>

definition double_max :: real where
  "double_max = (2 - 1 / 2 ^ 52) * 2 ^ 1023"

definition onoff_main :: "unit res \<Rightarrow> string option \<Rightarrow> strtod \<Rightarrow> string list \<Rightarrow> (real \<times> real) launch res" where
  "onoff_main checks pw_shell strtod argv =
     res_bind checks (\<lambda>_.
       let bad = usage (hd argv) '' uplink|downlink MEAN-ON-TIME MEAN-OFF-TIME [COMMAND...]'' in
       case argv of
         program # link # on # off # words \<Rightarrow>
           res_bind (myatof strtod on) (\<lambda>on_time.
             if \<not> 0 \<le> on_time then bad
             else
               res_bind (myatof strtod off) (\<lambda>off_time.
                 if \<not> 0 \<le> off_time then bad
                 else if on_time = 0 \<and> off_time = 0 then bad
                 else if link \<noteq> ''uplink'' \<and> link \<noteq> ''downlink'' then bad
                 else
                   res_bind (shell_command pw_shell words) (\<lambda>command.
                     Inr \<lparr>launch_prompt = ''[onoff '' @ (if link = ''uplink'' then ''(up) on='' else ''(down) on='') @ on @ ''s off='' @ off @ ''s] '',
                          launch_command = command,
                          uplink = (if link = ''uplink'' then (on_time, off_time) else (double_max, 0)),
                          downlink = (if link = ''uplink'' then (double_max, 0) else (on_time, off_time))\<rparr>)))
       | _ \<Rightarrow> bad)"

definition delay_main :: "unit res \<Rightarrow> string option \<Rightarrow> string list \<Rightarrow> u64 launch res" where
  "delay_main checks pw_shell argv =
     res_bind checks (\<lambda>_.
       case argv of
         program # delay # words \<Rightarrow>
           res_bind (myatoi 10 delay) (\<lambda>v.
             let delay_ms = (of_int v :: u64) in
             res_bind (shell_command pw_shell words) (\<lambda>command.
               Inr \<lparr>launch_prompt = ''[delay '' @ show_nat (unat delay_ms) @ '' ms] '', launch_command = command,
                    uplink = delay_ms, downlink = delay_ms\<rparr>))
       | _ \<Rightarrow> usage (hd argv) '' delay-milliseconds [command...]'')"

fun meter_option_loop :: "string \<Rightarrow> char list \<Rightarrow> bool \<times> bool \<Rightarrow> (bool \<times> bool) res" where
  "meter_option_loop program [] m = Inr m"
| "meter_option_loop program (opt # opts) m =
     (if opt = CHR ''u'' then meter_option_loop program opts (True, snd m)
      else if opt = CHR ''d'' then meter_option_loop program opts (fst m, True)
      else if opt = CHR ''?'' then usage program '' [--meter-uplink] [--meter-downlink] [COMMAND...]''
      else Inl (Runtime_error (''getopt_log: unexpected return value '' @ show_nat (of_char opt))))"

definition meter_main :: "unit res \<Rightarrow> string option \<Rightarrow> string list \<Rightarrow> char list \<Rightarrow> string list \<Rightarrow> (string \<times> bool) launch res" where
  "meter_main checks pw_shell argv opts words =
     res_bind checks (\<lambda>_.
     res_bind (meter_option_loop (hd argv) opts (False, False)) (\<lambda>m.
     res_bind (shell_command pw_shell words) (\<lambda>command.
       Inr \<lparr>launch_prompt = ''[meter] '', launch_command = command, uplink = (''Uplink'', fst m), downlink = (''Downlink'', snd m)\<rparr>)))"

section \<open>Quoting\<close>

text \<open>
  The words a shell makes of a line of quoted words: a state outside and one inside single quotes, the
  word read so far if one has begun, and a backslash that takes the next character as it is.
\<close>

fun sh_words :: "bool \<Rightarrow> string option \<Rightarrow> string \<Rightarrow> string list option" where
  "sh_words quoted word [] = (if quoted then None else Some (case word of None \<Rightarrow> [] | Some w \<Rightarrow> [w]))"
| "sh_words quoted word (c # cs) =
     (let w = (case word of None \<Rightarrow> [] | Some w \<Rightarrow> w) in
      if quoted then (if c = CHR 0x27 then sh_words False (Some w) cs else sh_words True (Some (w @ [c])) cs)
      else if c = CHR 0x27 then sh_words True (Some w) cs
      else if c = CHR '' '' then
        map_option (\<lambda>ws. (case word of None \<Rightarrow> [] | Some w \<Rightarrow> [w]) @ ws) (sh_words False None cs)
      else if c = CHR 0x5C then
        (case cs of [] \<Rightarrow> None | d # ds \<Rightarrow> sh_words False (Some (w @ [d])) ds)
      else sh_words False (Some (w @ [c])) cs)"

lemma sh_words_quoted:
  "sh_words True (Some w) (concat (map quote_char arg) @ [CHR 0x27] @ cs) = sh_words False (Some (w @ arg)) cs"
proof (induction arg arbitrary: w)
  case (Cons c arg)
  from Cons.IH [of "w @ [c]"] show ?case by (cases "c = CHR 0x27") (simp_all add: quote_char_def)
qed simp

lemma sh_words_quote: "sh_words False None (shell_quote arg @ cs) = sh_words False (Some arg) cs"
  using sh_words_quoted [of "[]" arg cs] by (simp add: shell_quote_def)

lemma sh_words_line:
  "sh_words False None (shell_quote w @ concat (map (\<lambda>w. '' '' @ shell_quote w) ws)) = Some (w # ws)"
proof (induction ws arbitrary: w)
  case Nil
  then show ?case using sh_words_quote [of w "[]"] by simp
next
  case (Cons v ws)
  then show ?case using sh_words_quote [of w] by simp
qed

lemma foldl_append_concat: "foldl (\<lambda>line w. line @ f w) a ws = a @ concat (map f ws)"
  by (induction ws arbitrary: a) simp_all

section \<open>Properties\<close>

text \<open>
  C38: The command line that mm-link writes into its log stands for the words it was started with: split
  the way a shell splits and unquotes, it gives back exactly the arguments of the program, whatever
  spaces, quotes and backslashes they contain.
\<close>

theorem command_line_roundtrip:
  assumes "argv \<noteq> []"
  shows "sh_words False None (mk_command_line argv) = Some argv"
proof -
  obtain w ws where a: "argv = w # ws" using assms by (cases argv) auto
  have "mk_command_line argv = shell_quote w @ concat (map (\<lambda>w. '' '' @ shell_quote w) ws)"
    using foldl_append_concat [of "\<lambda>w. '' '' @ shell_quote w" "shell_quote w" ws] by (simp add: a)
  then show ?thesis using sh_words_line a by simp
qed

theorem command_line_roundtrip_witness:
  "sh_words False None (mk_command_line [''mm-link'', ''a b'', [CHR 0x27, CHR 0x5C]]) = Some [''mm-link'', ''a b'', [CHR 0x27, CHR 0x5C]]"
  by (rule command_line_roundtrip) simp

text \<open>What the programs check: the probabilities and mean times the queues are made with.\<close>

lemma loss_main_rates:
  assumes "loss_main checks pw_shell strtod argv = Inr l"
  shows "0 \<le> uplink l \<and> uplink l \<le> 1 \<and> 0 \<le> downlink l \<and> downlink l \<le> 1 \<and> (uplink l = 0 \<or> downlink l = 0)"
  using assms by (auto simp: loss_main_def usage_def Let_def split: list.splits if_splits)

lemma onoff_main_times:
  assumes "onoff_main checks pw_shell strtod argv = Inr l"
  shows "\<forall>d \<in> {uplink l, downlink l}. 0 \<le> fst d \<and> 0 \<le> snd d \<and> d \<noteq> (0, 0)"
proof -
  have "(0 :: real) < double_max" by (simp add: double_max_def)
  then show ?thesis using assms by (auto simp: onoff_main_def usage_def Let_def split: list.splits if_splits)
qed

lemma launch_command_nonempty: "shell_command pw_shell words = Inr command \<Longrightarrow> command \<noteq> []"
  by (auto simp: shell_command_def split: if_splits)

end
