(* ===== verification/Host_Actions.thy ===== *)
theory Host_Actions
  imports Shell_Frontends Net_Addresses
begin

text \<open>
  What the setuid programs do to the host. A \<open>host_m\<close> is a piece of a program: it runs in a process
  with credentials and an environment, performs actions one after the other and ends with a value
  or an exception. The answer to every action (does it fail, and what does it return) is an
  input, so a statement about all hosts is a statement about all the ways the system can answer; the
  actions a process has performed are its \<open>trace\<close>.

  Objects with a destructor are scopes: \<open>with_resource\<close> performs the constructor, the rest of the
  block, and the destructor, whether or not the rest ended with an exception. \<open>with_child\<close> is the
  scope of a \<open>ChildProcess\<close>; the child runs its procedure on a copy of the state and ends, and its trace
  is kept with the parent.

  \<open>acquired\<close>, \<open>given_back\<close> and \<open>refused\<close> count what the trace of a process has acquired, what it has given back, and
  what it tried to give back in vain; \<open>owed\<close> is what it has acquired and not tried to give back. The locale \<open>resource\<close>
  states what a constructor and its destructor owe, for the scopes built on them; \<open>triple\<close> is a
  Hoare triple with a second postcondition for exceptions.
\<close>

section \<open>Processes and their actions\<close>

text \<open>
  System calls by name and arguments; a command that has been run to its end; the start and the end
  of a child process, with a namespace of its own or not; temporary files; and the replacement
  of the process by a program, with or without a search along the path.
\<close>

datatype host_op =
    Call string "string list"
  | Run_command "string list"
  | Clone string bool
  | End_child string
  | Mkstemp string
  | Unlink string
  | Exec "string list" bool

record sys_answer =
  failure :: "error option"
  said :: string
  number :: nat
  addr :: address

record entry =
  action :: host_op
  by_creds :: creds
  ok :: bool
  told :: string

record host =
  process :: "string list"
  answers :: "string list \<Rightarrow> nat \<Rightarrow> host_op \<Rightarrow> sys_answer"
  host_creds :: creds
  environ :: "environment option"
  trace :: "entry list"
  children :: "(string list \<times> entry list) list"
  handed_over :: bool

type_synonym 'a host_m = "host \<Rightarrow> 'a res \<times> host"

definition hreturn :: "'a \<Rightarrow> 'a host_m" where
  "hreturn x h = (Inr x, h)"

definition hthrow :: "error \<Rightarrow> 'a host_m" where
  "hthrow e h = (Inl e, h)"

definition from_res :: "'a res \<Rightarrow> 'a host_m" where
  "from_res r h = (r, h)"

definition hbind :: "'a host_m \<Rightarrow> ('a \<Rightarrow> 'b host_m) \<Rightarrow> 'b host_m" where
  "hbind m f h = (case m h of (Inl e, h1) \<Rightarrow> (Inl e, h1) | (Inr x, h1) \<Rightarrow> f x h1)"

definition hcatch :: "'a host_m \<Rightarrow> (error \<Rightarrow> 'a host_m) \<Rightarrow> 'a host_m" where
  "hcatch m f h = (case m h of (Inl e, h1) \<Rightarrow> f e h1 | (Inr x, h1) \<Rightarrow> (Inr x, h1))"

definition perform :: "host_op \<Rightarrow> sys_answer host_m" where
  "perform a h =
     (let r = answers h (process h) (length (trace h)) a;
          e = \<lparr>action = a, by_creds = host_creds h, ok = (failure r = None), told = said r\<rparr>
      in (case failure r of None \<Rightarrow> Inr r | Some x \<Rightarrow> Inl x, h\<lparr>trace := trace h @ [e]\<rparr>))"

fun sequence_m :: "unit host_m list \<Rightarrow> unit host_m" where
  "sequence_m [] = hreturn ()"
| "sequence_m (m # ms) = hbind m (\<lambda>_. sequence_m ms)"

definition asking :: "(host \<Rightarrow> 'a host_m) \<Rightarrow> 'a host_m" where
  "asking f h = f h h"

definition call :: "string \<Rightarrow> string list \<Rightarrow> unit host_m" where
  "call name args = hbind (perform (Call name args)) (\<lambda>_. hreturn ())"

subsection \<open>Scopes\<close>

definition with_resource :: "'r host_m \<Rightarrow> ('r \<Rightarrow> 'd host_m) \<Rightarrow> ('r \<Rightarrow> 'a host_m) \<Rightarrow> 'a host_m" where
  "with_resource acquire release block h =
     (case acquire h of
        (Inl e, h1) \<Rightarrow> (Inl e, h1)
      | (Inr r, h1) \<Rightarrow> (fst (block r h1), snd (release r (snd (block r h1)))))"

definition child_host :: "string \<Rightarrow> host \<Rightarrow> host" where
  "child_host name h = h\<lparr>process := process h @ [name], trace := [], children := []\<rparr>"

definition clone :: "string \<Rightarrow> bool \<Rightarrow> 'c host_m \<Rightarrow> sys_answer host_m" where
  "clone name new_namespace child =
     hbind (perform (Clone name new_namespace)) (\<lambda>a h.
       let hc = snd (child (child_host name h))
       in (Inr a, h\<lparr>children := children h @ (process hc, trace hc) # children hc\<rparr>))"

definition with_child :: "string \<Rightarrow> bool \<Rightarrow> 'c host_m \<Rightarrow> (sys_answer \<Rightarrow> 'a host_m) \<Rightarrow> 'a host_m" where
  "with_child name new_namespace child block =
     with_resource (clone name new_namespace child) (\<lambda>_. perform (End_child name)) block"

subsection \<open>Identity and environment\<close>

definition drop_privileges_m :: "unit host_m" where
  "drop_privileges_m h =
     (case drop_privileges (host_creds h) of Inl e \<Rightarrow> (Inl e, h) | Inr c \<Rightarrow> (Inr (), h\<lparr>host_creds := c\<rparr>))"

definition set_environ :: "environment option \<Rightarrow> unit host_m" where
  "set_environ e h = (Inr (), h\<lparr>environ := e\<rparr>)"

definition ezexec :: "string list \<Rightarrow> bool \<Rightarrow> sys_answer host_m" where
  "ezexec command path_search h =
     (case ezexec_checks command path_search (host_creds h) (environ h \<noteq> None) of
        Inl e \<Rightarrow> (Inl e, h)
      | Inr _ \<Rightarrow> perform (Exec command path_search) h)"

definition run :: "string list \<Rightarrow> unit host_m" where
  "run command =
     hbind (from_res (join_words command)) (\<lambda>name.
       with_child name False (ezexec command False) (\<lambda>_.
         hbind (perform (Run_command command)) (\<lambda>_. hreturn ())))"

section \<open>What a process holds\<close>

text \<open>The programs and modules whose paths the build finds.\<close>

record tools =
  iptables :: string
  ip_tool :: string
  apache2 :: string
  dnsmasq :: string
  mod_mpm_prefork :: string
  mod_authz_core :: string
  mod_deepcgi :: string
  mod_ssl :: string
  mod_ssl_certificate_file :: string
  mod_ssl_key :: string

definition nat_command :: "tools \<Rightarrow> string \<Rightarrow> string list \<Rightarrow> string list" where
  "nat_command ts flag arguments = [iptables ts, ''-w'', ''-t'', ''nat'', flag] @ arguments"

datatype host_resource = Nat_rule "string list" | Veth string | Temp_file string | Web_server string | Child string

text \<open>
  What an action is for: to acquire something, or to give it back. A command that starts a web server is
  given a configuration file by name; a temporary file is known by the name the system told. An
  action that is to acquire something does so when it succeeds, and one that is to give something
  back does so when it succeeds; when it fails, the thing stays, and the destructor only reports it.
\<close>

datatype effect = Acquires host_resource | Gives_back host_resource

definition command_effect :: "tools \<Rightarrow> string list \<Rightarrow> effect option" where
  "command_effect ts cmd =
     (if take 5 cmd = nat_command ts ''-A'' [] then Some (Acquires (Nat_rule (drop 5 cmd)))
      else if take 5 cmd = nat_command ts ''-D'' [] then Some (Gives_back (Nat_rule (drop 5 cmd)))
      else if take 3 cmd = [ip_tool ts, ''link'', ''add''] \<and> take 2 (drop 4 cmd) = [''type'', ''veth'']
      then Some (Acquires (Veth (cmd ! 3)))
      else if take 3 cmd = [ip_tool ts, ''link'', ''del''] then Some (Gives_back (Veth (cmd ! 3)))
      else if take 2 cmd = [apache2 ts, ''-f''] then
        if last cmd = ''start'' then Some (Acquires (Web_server (cmd ! 2))) else Some (Gives_back (Web_server (cmd ! 2)))
      else None)"

definition effect_of :: "tools \<Rightarrow> entry \<Rightarrow> effect option" where
  "effect_of ts e =
     (case action e of
        Run_command cmd \<Rightarrow> command_effect ts cmd
      | Clone name ns \<Rightarrow> Some (Acquires (Child name))
      | End_child name \<Rightarrow> Some (Gives_back (Child name))
      | Mkstemp template \<Rightarrow> Some (Acquires (Temp_file (told e)))
      | Unlink name \<Rightarrow> Some (Gives_back (Temp_file name))
      | _ \<Rightarrow> None)"

text \<open>How often a process has acquired a resource, has given it back, and was refused to give it back.\<close>

definition acquired :: "tools \<Rightarrow> host_resource \<Rightarrow> entry list \<Rightarrow> nat" where
  "acquired ts r t = length (filter (\<lambda>e. effect_of ts e = Some (Acquires r) \<and> ok e) t)"

definition given_back :: "tools \<Rightarrow> host_resource \<Rightarrow> entry list \<Rightarrow> nat" where
  "given_back ts r t = length (filter (\<lambda>e. effect_of ts e = Some (Gives_back r) \<and> ok e) t)"

definition refused :: "tools \<Rightarrow> host_resource \<Rightarrow> entry list \<Rightarrow> nat" where
  "refused ts r t = length (filter (\<lambda>e. effect_of ts e = Some (Gives_back r) \<and> \<not> ok e) t)"

text \<open>What the process has acquired and has not tried to give back.\<close>

definition gain :: "tools \<Rightarrow> host_resource \<Rightarrow> entry \<Rightarrow> int" where
  "gain ts r e =
     (case effect_of ts e of
        None \<Rightarrow> 0
      | Some (Acquires r') \<Rightarrow> if r' = r \<and> ok e then 1 else 0
      | Some (Gives_back r') \<Rightarrow> if r' = r then - 1 else 0)"

definition owed :: "tools \<Rightarrow> entry list \<Rightarrow> host_resource \<Rightarrow> int" where
  "owed ts t r = sum_list (map (gain ts r) t)"

lemma owed_counts: "owed ts t r = int (acquired ts r t) - int (given_back ts r t) - int (refused ts r t)"
  by (induction t) (auto simp: owed_def gain_def acquired_def given_back_def refused_def split: option.split effect.split)

abbreviation net :: "tools \<Rightarrow> host \<Rightarrow> host_resource \<Rightarrow> int" where
  "net ts h r \<equiv> owed ts (trace h) r"

text \<open>The processes that a process has started, directly or not, and that have ended, owe nothing.\<close>

definition children_settled :: "tools \<Rightarrow> host \<Rightarrow> bool" where
  "children_settled ts h \<longleftrightarrow> (\<forall>c \<in> set (children h). \<forall>r. owed ts (snd c) r = 0)"

text \<open>
  A piece of a program that gives back, as far as the system lets it, whatever it acquires, however it ends, and so do
  the processes it starts. Commands are run in
  processes of their own, so giving back supposes that the system can start one.
\<close>

definition can_fork :: "host \<Rightarrow> bool" where
  "can_fork h \<longleftrightarrow> (\<forall>p n name ns. failure (answers h p n (Clone name ns)) = None)"

definition keeps :: "tools \<Rightarrow> (host_resource \<Rightarrow> int) \<Rightarrow> host \<Rightarrow> host \<Rightarrow> bool" where
  "keeps ts d h h' \<longleftrightarrow> answers h' = answers h \<and> (\<forall>r. net ts h' r = net ts h r + d r) \<and>
     (children_settled ts h \<longrightarrow> children_settled ts h')"

definition clean :: "tools \<Rightarrow> 'a host_m \<Rightarrow> bool" where
  "clean ts m \<longleftrightarrow> (\<forall>h. can_fork h \<longrightarrow> keeps ts (\<lambda>_. 0) h (snd (m h)))"

named_theorems clean_intros \<open>pieces of programs that give back what they acquire\<close>

lemma keeps_can_fork: "keeps ts d h h' \<Longrightarrow> can_fork h' = can_fork h"
  by (simp add: keeps_def can_fork_def)

lemma keeps_trans: "keeps ts d h h1 \<Longrightarrow> keeps ts d' h1 h2 \<Longrightarrow> keeps ts (\<lambda>r. d r + d' r) h h2"
  by (simp add: keeps_def)

lemma keeps_0_trans: "keeps ts (\<lambda>_. 0) h h1 \<Longrightarrow> keeps ts d h1 h2 \<Longrightarrow> keeps ts d h h2"
  by (simp add: keeps_def)

lemma cleanI: "(\<And>h. can_fork h \<Longrightarrow> keeps ts (\<lambda>_. 0) h (snd (m h))) \<Longrightarrow> clean ts m"
  by (simp add: clean_def)

lemma cleanD: "clean ts m \<Longrightarrow> can_fork h \<Longrightarrow> keeps ts (\<lambda>_. 0) h (snd (m h))"
  by (simp add: clean_def)

lemma clean_pure [clean_intros]:
  "clean ts (hreturn x)" "clean ts (hthrow e)" "clean ts (from_res r)" "clean ts (set_environ env)"
  by (simp_all add: clean_def keeps_def hreturn_def hthrow_def from_res_def set_environ_def children_settled_def)

lemma clean_drop [clean_intros]: "clean ts drop_privileges_m"
  by (auto simp: clean_def keeps_def drop_privileges_m_def children_settled_def split: sum.splits)

lemma clean_bind [clean_intros]:
  assumes "clean ts m" and "\<And>x. clean ts (f x)"
  shows "clean ts (hbind m f)"
proof (rule cleanI)
  fix h
  assume "can_fork h"
  obtain v h1 where m: "m h = (v, h1)" by (cases "m h")
  with cleanD [OF assms(1) \<open>can_fork h\<close>] have k: "keeps ts (\<lambda>_. 0) h h1" by simp
  then have "can_fork h1" using \<open>can_fork h\<close> keeps_can_fork by blast
  with k m assms(2) show "keeps ts (\<lambda>_. 0) h (snd (hbind m f h))"
    by (cases v) (auto simp: hbind_def intro: keeps_0_trans cleanD)
qed

lemma clean_catch [clean_intros]:
  assumes "clean ts m" and "\<And>e. clean ts (f e)"
  shows "clean ts (hcatch m f)"
proof (rule cleanI)
  fix h
  assume "can_fork h"
  obtain v h1 where m: "m h = (v, h1)" by (cases "m h")
  with cleanD [OF assms(1) \<open>can_fork h\<close>] have k: "keeps ts (\<lambda>_. 0) h h1" by simp
  then have "can_fork h1" using \<open>can_fork h\<close> keeps_can_fork by blast
  with k m assms(2) show "keeps ts (\<lambda>_. 0) h (snd (hcatch m f h))"
    by (cases v) (auto simp: hcatch_def intro: keeps_0_trans cleanD)
qed

lemma clean_asking [clean_intros]: "(\<And>h. clean ts (f h)) \<Longrightarrow> clean ts (asking f)"
  by (simp add: clean_def asking_def)

lemma clean_if [clean_intros]: "clean ts m \<Longrightarrow> clean ts n \<Longrightarrow> clean ts (if b then m else n)"
  by simp

lemma clean_sequence [clean_intros]: "(\<And>m. m \<in> set ms \<Longrightarrow> clean ts m) \<Longrightarrow> clean ts (sequence_m ms)"
  by (induction ms) (auto intro!: clean_bind clean_pure)

text \<open>What an action changes.\<close>

lemma perform_keeps:
  "keeps ts (\<lambda>r. gain ts r \<lparr>action = a, by_creds = host_creds h, ok = (failure (answers h (process h) (length (trace h)) a) = None),
       told = said (answers h (process h) (length (trace h)) a)\<rparr>) h (snd (perform a h))"
  by (simp add: perform_def Let_def keeps_def owed_def children_settled_def)

lemma clean_perform:
  "(\<And>e. action e = a \<Longrightarrow> effect_of ts e = None) \<Longrightarrow> clean ts (perform a)"
  using perform_keeps [of ts a] by (simp add: clean_def gain_def)

lemma clean_call [clean_intros]: "clean ts (perform (Call name args))" "clean ts (call name args)"
  unfolding call_def by (intro clean_bind clean_pure clean_perform; simp add: effect_of_def)+

lemma clean_ezexec [clean_intros]: "clean ts (ezexec command path_search)"
  using cleanD [OF clean_perform [of "Exec command path_search" ts]]
  by (intro cleanI) (auto simp: ezexec_def effect_of_def keeps_def split: sum.splits)

section \<open>Scopes that give back\<close>

definition one :: "host_resource \<Rightarrow> host_resource \<Rightarrow> int" where
  "one r r' = (if r = r' then 1 else 0)"

locale resource =
  fixes ts :: tools and acquire :: "'r host_m" and release :: "'r \<Rightarrow> 'd host_m" and held :: "'r \<Rightarrow> host_resource"
  assumes acquired: "can_fork h \<Longrightarrow> acquire h = (Inr x, h') \<Longrightarrow> keeps ts (one (held x)) h h'"
    and not_acquired: "can_fork h \<Longrightarrow> acquire h = (Inl e, h') \<Longrightarrow> keeps ts (\<lambda>_. 0) h h'"
    and released: "can_fork h \<Longrightarrow> keeps ts (\<lambda>r. - one (held x) r) h (snd (release x h))"
begin

lemma scope_clean:
  assumes "\<And>x. clean ts (block x)"
  shows "clean ts (with_resource acquire release block)"
proof (rule cleanI)
  fix h
  assume "can_fork h"
  obtain v h1 where a: "acquire h = (v, h1)" by (cases "acquire h")
  show "keeps ts (\<lambda>_. 0) h (snd (with_resource acquire release block h))"
  proof (cases v)
    case (Inl e)
    with a not_acquired [OF \<open>can_fork h\<close>] show ?thesis by (simp add: with_resource_def)
  next
    case (Inr x)
    with a have k: "keeps ts (one (held x)) h h1" using acquired [OF \<open>can_fork h\<close>] by simp
    then have "can_fork h1" using \<open>can_fork h\<close> keeps_can_fork by blast
    then have b: "keeps ts (\<lambda>_. 0) h1 (snd (block x h1))" by (rule cleanD [OF assms])
    then have "can_fork (snd (block x h1))" using \<open>can_fork h1\<close> keeps_can_fork by blast
    from released [OF this, of x] b k a Inr show ?thesis by (simp add: with_resource_def keeps_def)
  qed
qed

end

text \<open>
  A child process: its start acquires it, and the destructor ends it. What the child acquires in
  its turn, it has to give back itself.
\<close>

lemma child_settled:
  fixes name :: string
  assumes "clean ts child" and "can_fork h"
  defines "hc \<equiv> snd (child (child_host name h))"
  shows "owed ts (trace hc) r = 0" and "children_settled ts hc"
proof -
  have "can_fork (child_host name h)" using assms(2) by (simp add: can_fork_def child_host_def)
  then have "keeps ts (\<lambda>_. 0) (child_host name h) hc" unfolding hc_def by (rule cleanD [OF assms(1)])
  then show "owed ts (trace hc) r = 0" and "children_settled ts hc"
    by (simp_all add: keeps_def child_host_def children_settled_def owed_def)
qed

lemma clone_keeps:
  assumes "can_fork h" and "clean ts child" and c: "clone name ns child h = (v, h')"
  shows "(\<exists>a. v = Inr a) \<and> keeps ts (one (Child name)) h h'"
proof -
  obtain a h1 where p: "perform (Clone name ns) h = (Inr a, h1)"
    using assms(1) by (auto simp: perform_def Let_def can_fork_def)
  have k: "keeps ts (one (Child name)) h h1"
    using p assms(1) by (auto simp: perform_def Let_def can_fork_def keeps_def owed_def gain_def effect_of_def one_def children_settled_def)
  then have f: "can_fork h1" using assms(1) keeps_can_fork by blast
  let ?hc = "snd (child (child_host name h1))"
  have "v = Inr a" and h': "h' = h1\<lparr>children := children h1 @ (process ?hc, trace ?hc) # children ?hc\<rparr>"
    using c p by (simp_all add: clone_def hbind_def Let_def)
  moreover have "children_settled ts h1 \<longrightarrow> children_settled ts h'"
    using child_settled [OF assms(2) f, of name] by (auto simp: h' children_settled_def)
  ultimately show ?thesis using k by (simp add: keeps_def)
qed

lemma child_resource:
  assumes "clean ts child"
  shows "resource ts (clone name ns child) (\<lambda>_. perform (End_child name)) (\<lambda>_. Child name)"
proof
  fix h x h' e
  assume "can_fork h"
  show "clone name ns child h = (Inr x, h') \<Longrightarrow> keeps ts (one (Child name)) h h'" using clone_keeps \<open>can_fork h\<close> assms by blast
  show "clone name ns child h = (Inl e, h') \<Longrightarrow> keeps ts (\<lambda>_. 0) h h'" using clone_keeps [OF \<open>can_fork h\<close> assms] by blast
  show "keeps ts (\<lambda>r. - one (Child name) r) h (snd (perform (End_child name) h))"
    using perform_keeps [of ts "End_child name" h] by (simp add: gain_def effect_of_def one_def if_distrib cong: if_cong)
qed

lemma clean_with_child [clean_intros]:
  "clean ts child \<Longrightarrow> (\<And>a. clean ts (block a)) \<Longrightarrow> clean ts (with_child name ns child block)"
  unfolding with_child_def by (rule resource.scope_clean [OF child_resource])

text \<open>The child in which a command is run.\<close>

interpretation program: resource ts "clone name ns (ezexec command path_search)" "\<lambda>_. perform (End_child name)" "\<lambda>_. Child name"
  for ts name ns command path_search
  by (rule child_resource [OF clean_ezexec])

text \<open>A command that is run acquires or gives back what it is for.\<close>

definition command_gain :: "tools \<Rightarrow> string list \<Rightarrow> bool \<Rightarrow> host_resource \<Rightarrow> int" where
  "command_gain ts cmd success r =
     (case command_effect ts cmd of
        None \<Rightarrow> 0
      | Some (Acquires r') \<Rightarrow> if r' = r \<and> success then 1 else 0
      | Some (Gives_back r') \<Rightarrow> if r' = r then - 1 else 0)"

lemma run_keeps:
  assumes "can_fork h" and "command \<noteq> []"
  shows "keeps ts (command_gain ts command (\<not> isl (fst (run command h)))) h (snd (run command h))"
proof -
  obtain name where name: "join_words command = Inr name" using assms(2) by (cases command) (simp_all add: join_words_def)
  let ?cmd = "hbind (perform (Run_command command)) (\<lambda>_. hreturn ())"
  obtain a h1 where c: "clone name False (ezexec command False) h = (Inr a, h1)" and k1: "keeps ts (one (Child name)) h h1"
    using clone_keeps [OF assms(1) clean_ezexec] by (metis prod.exhaust_sel)
  obtain v h2 where p: "?cmd h1 = (v, h2)" by (cases "?cmd h1")
  then have k2: "keeps ts (command_gain ts command (\<not> isl v)) h1 h2"
  proof -
    have "(\<lambda>r. gain ts r \<lparr>action = Run_command command, by_creds = c1, ok = b, told = w\<rparr>) = command_gain ts command b" for c1 b w
      by (rule ext) (simp add: gain_def effect_of_def command_gain_def split: option.split effect.split)
    then have "keeps ts (command_gain ts command (failure (answers h1 (process h1) (length (trace h1)) (Run_command command)) = None))
        h1 (snd (perform (Run_command command) h1))"
      using perform_keeps [of ts "Run_command command" h1] by simp
    then show ?thesis using p by (auto simp: hbind_def hreturn_def perform_def Let_def split: option.splits)
  qed
  have "can_fork h2" using assms(1) keeps_can_fork k1 k2 by blast
  then have "keeps ts (\<lambda>r. - one (Child name) r) h2 (snd (perform (End_child name) h2))"
    using program.released by blast
  with k1 k2 have "keeps ts (command_gain ts command (\<not> isl v)) h (snd (perform (End_child name) h2))"
    by (simp add: keeps_def)
  moreover have "run command h = (v, snd (perform (End_child name) h2))"
    by (simp add: run_def hbind_def from_res_def name with_child_def with_resource_def c p [unfolded hbind_def])
  ultimately show ?thesis by simp
qed

lemma clean_run:
  assumes "command \<noteq> []" and "command_effect ts command = None"
  shows "clean ts (run command)"
  using run_keeps [OF _ assms(1), of _ ts] assms(2) by (simp add: clean_def command_gain_def keeps_def)

text \<open>A pair of commands, one that acquires and one that gives back.\<close>

lemma command_resource:
  assumes "acquire \<noteq> []" and "release \<noteq> []"
    and "command_effect ts acquire = Some (Acquires r)" and "command_effect ts release = Some (Gives_back r)"
  shows "resource ts (run acquire) (\<lambda>_. run release) (\<lambda>_. r)"
proof
  fix h x h' e
  assume f: "can_fork h"
  show "keeps ts (one r) h h'" if "run acquire h = (Inr x, h')"
    using run_keeps [OF f assms(1), of ts] that assms(3) by (simp add: command_gain_def one_def keeps_def)
  show "keeps ts (\<lambda>_. 0) h h'" if "run acquire h = (Inl e, h')"
    using run_keeps [OF f assms(1), of ts] that assms(3) by (simp add: command_gain_def keeps_def)
  show "keeps ts (\<lambda>r'. - one r r') h (snd (run release h))"
    using run_keeps [OF f assms(2), of ts] assms(4) by (simp add: command_gain_def one_def keeps_def)
qed

section \<open>Triples\<close>

definition triple :: "(host \<Rightarrow> bool) \<Rightarrow> 'a host_m \<Rightarrow> ('a \<Rightarrow> host \<Rightarrow> bool) \<Rightarrow> (host \<Rightarrow> bool) \<Rightarrow> bool" where
  "triple P m Q E \<longleftrightarrow> (\<forall>h. P h \<longrightarrow> (case m h of (Inl e, h') \<Rightarrow> E h' | (Inr x, h') \<Rightarrow> Q x h'))"

abbreviation stable :: "(host \<Rightarrow> bool) \<Rightarrow> 'a host_m \<Rightarrow> bool" where
  "stable P m \<equiv> triple P m (\<lambda>_. P) P"

named_theorems stable_intros \<open>pieces of programs that keep an assertion\<close>

lemma triple_conseq:
  "triple P m Q E \<Longrightarrow> (\<And>h. P' h \<Longrightarrow> P h) \<Longrightarrow> (\<And>x h. Q x h \<Longrightarrow> Q' x h) \<Longrightarrow> (\<And>h. E h \<Longrightarrow> E' h) \<Longrightarrow> triple P' m Q' E'"
  unfolding triple_def by (fastforce split: prod.splits sum.splits)

lemma triple_bind: "triple P m Q E \<Longrightarrow> (\<And>x. triple (Q x) (f x) R E) \<Longrightarrow> triple P (hbind m f) R E"
  unfolding triple_def hbind_def by (fastforce split: prod.splits sum.splits)

lemma triple_catch: "triple P m Q E \<Longrightarrow> (\<And>e. triple E (f e) Q F) \<Longrightarrow> triple P (hcatch m f) Q F"
  unfolding triple_def hcatch_def by (fastforce split: prod.splits sum.splits)

lemma triple_pure: "triple (Q x) (hreturn x) Q E" "triple E (hthrow e) Q E"
  by (simp_all add: triple_def hreturn_def hthrow_def)

lemma stable_bind [stable_intros]: "stable P m \<Longrightarrow> (\<And>x. stable P (f x)) \<Longrightarrow> stable P (hbind m f)"
  by (rule triple_bind)

lemma stable_catch [stable_intros]: "stable P m \<Longrightarrow> (\<And>e. stable P (f e)) \<Longrightarrow> stable P (hcatch m f)"
  by (rule triple_catch)

lemma stable_pure [stable_intros]: "stable P (hreturn x)" "stable P (hthrow e)" "stable P (from_res r)"
  by (auto simp: triple_def hreturn_def hthrow_def from_res_def split: sum.split)

lemma stable_asking [stable_intros]: "(\<And>h. stable P (f h)) \<Longrightarrow> stable P (asking f)"
  by (simp add: triple_def asking_def)

lemma stable_if [stable_intros]: "stable P m \<Longrightarrow> stable P n \<Longrightarrow> stable P (if b then m else n)"
  by simp

lemma stable_sequence [stable_intros]: "(\<And>m. m \<in> set ms \<Longrightarrow> stable P m) \<Longrightarrow> stable P (sequence_m ms)"
  by (induction ms) (auto intro!: stable_bind stable_pure)

lemma stable_scope [stable_intros]:
  assumes "stable P acquire" and "\<And>x. stable P (block x)" and "\<And>x. stable P (release x)"
  shows "stable P (with_resource acquire release block)"
  unfolding triple_def
proof (intro allI impI)
  fix h
  assume "P h"
  have Pb: "P (snd (block x h'))" if "P h'" for x h'
    using assms(2) [of x] that unfolding triple_def by (cases "block x h'") (auto split: sum.splits)
  have Pr: "P (snd (release x h'))" if "P h'" for x h'
    using assms(3) [of x] that unfolding triple_def by (cases "release x h'") (auto split: sum.splits)
  obtain v h1 where a: "acquire h = (v, h1)" by (cases "acquire h")
  then have "P h1" using assms(1) \<open>P h\<close> unfolding triple_def by (fastforce split: sum.splits)
  with a Pb Pr show "case with_resource acquire release block h of (Inl e, h') \<Rightarrow> P h' | (Inr x, h') \<Rightarrow> P h'"
    by (auto simp: with_resource_def split: sum.split)
qed

section \<open>Programs of the user\<close>

text \<open>
  A program that is searched along the user's path is the user's own choice. It is safe to run it
  once all identities of the process are the user's. \<open>secure\<close>: every such program was, in this process
  and in its children, and the process is either still the setuid program the user started, or has
  the user's identities; \<open>dropped\<close> is the second case.
\<close>

definition safe_entry :: "nat \<Rightarrow> nat \<Rightarrow> entry \<Rightarrow> bool" where
  "safe_entry u g e \<longleftrightarrow> (\<forall>command. action e = Exec command True \<longrightarrow> settled_as u g (by_creds e))"

definition entries :: "host \<Rightarrow> entry list" where
  "entries h = trace h @ concat (map snd (children h))"

definition dropped :: "nat \<Rightarrow> nat \<Rightarrow> host \<Rightarrow> bool" where
  "dropped u g h \<longleftrightarrow> list_all (safe_entry u g) (entries h) \<and> settled_as u g (host_creds h)"

definition secure :: "nat \<Rightarrow> nat \<Rightarrow> host \<Rightarrow> bool" where
  "secure u g h \<longleftrightarrow> list_all (safe_entry u g) (entries h) \<and>
     (settled_as u g (host_creds h) \<or> setuid_root (host_creds h) \<and> ruid (host_creds h) = u \<and> rgid (host_creds h) = g)"

lemma dropped_secure: "dropped u g h \<Longrightarrow> secure u g h"
  by (simp add: dropped_def secure_def)

lemma stable_perform:
  "(\<And>command. a \<noteq> Exec command True) \<Longrightarrow> stable (secure u g) (perform a)" "stable (dropped u g) (perform a)"
  by (auto simp: triple_def perform_def Let_def secure_def dropped_def entries_def safe_entry_def split: option.splits)

lemma stable_call [stable_intros]:
  "stable (secure u g) (perform (Call name args))" "stable (dropped u g) (perform (Call name args))"
  "stable (secure u g) (call name args)" "stable (dropped u g) (call name args)"
  unfolding call_def by (intro stable_bind stable_pure stable_perform; simp)+

lemma stable_environ [stable_intros]: "stable (secure u g) (set_environ e)" "stable (dropped u g) (set_environ e)"
  by (simp_all add: triple_def set_environ_def secure_def dropped_def entries_def)

lemma stable_ezexec [stable_intros]: "stable (secure u g) (ezexec command False)" "stable (dropped u g) (ezexec command b)"
  using stable_perform(1) [of "Exec command False" u g] stable_perform(2) [of u g "Exec command b"]
  by (auto simp: triple_def ezexec_def split: sum.splits)

lemma drop_privileges_settled: "settled_as u g c \<Longrightarrow> drop_privileges c = Inr c"
  by (cases c) (simp add: settled_as_iff drop_privileges_def)

lemma drop_triple: "triple (secure u g) drop_privileges_m (\<lambda>_. dropped u g) (secure u g)"
  unfolding triple_def drop_privileges_m_def
  by (auto simp: secure_def dropped_def entries_def drop_privileges_settled dest!: drop_privileges_settles)

text \<open>After the identities have been dropped, anything may follow.\<close>

lemma stable_after_drop [stable_intros]:
  assumes "\<And>x. stable (dropped u g) (f x)"
  shows "stable (secure u g) (hbind drop_privileges_m f)"
  using triple_bind [OF drop_triple, of u g f "\<lambda>_. secure u g"] assms
  by (blast intro: triple_conseq dropped_secure)

lemma stableD: "stable P m \<Longrightarrow> P h \<Longrightarrow> P (snd (m h))"
  unfolding triple_def by (cases "m h") (auto split: sum.splits)

text \<open>A child starts with the credentials of its parent, and its trace is added to those of the parent.\<close>

lemma spawn_entries:
  "entries (h\<lparr>children := children h @ (process hc, trace hc) # children hc\<rparr>) = entries h @ entries hc"
  by (simp add: entries_def)

lemma stable_spawn:
  "stable (secure u g) child \<Longrightarrow>
     stable (secure u g) (\<lambda>h. let hc = snd (child (child_host name h)) in (Inr a, h\<lparr>children := children h @ (process hc, trace hc) # children hc\<rparr>))"
  "stable (dropped u g) child \<Longrightarrow>
     stable (dropped u g) (\<lambda>h. let hc = snd (child (child_host name h)) in (Inr a, h\<lparr>children := children h @ (process hc, trace hc) # children hc\<rparr>))"
proof -
  have c: "secure u g h \<Longrightarrow> secure u g (child_host name h)" "dropped u g h \<Longrightarrow> dropped u g (child_host name h)" for h
    by (simp_all add: secure_def dropped_def child_host_def entries_def)
  show "stable (secure u g) child \<Longrightarrow>
      stable (secure u g) (\<lambda>h. let hc = snd (child (child_host name h)) in (Inr a, h\<lparr>children := children h @ (process hc, trace hc) # children hc\<rparr>))"
    using stableD [of "secure u g" child] c(1) by (simp add: triple_def Let_def secure_def spawn_entries)
  show "stable (dropped u g) child \<Longrightarrow>
      stable (dropped u g) (\<lambda>h. let hc = snd (child (child_host name h)) in (Inr a, h\<lparr>children := children h @ (process hc, trace hc) # children hc\<rparr>))"
    using stableD [of "dropped u g" child] c(2) by (simp add: triple_def Let_def dropped_def spawn_entries)
qed

lemma stable_with_child [stable_intros]:
  "stable (secure u g) child \<Longrightarrow> (\<And>a. stable (secure u g) (block a)) \<Longrightarrow> stable (secure u g) (with_child name ns child block)"
  "stable (dropped u g) child \<Longrightarrow> (\<And>a. stable (dropped u g) (block a)) \<Longrightarrow> stable (dropped u g) (with_child name ns child block)"
  unfolding with_child_def clone_def
  by (intro stable_scope stable_bind stable_perform stable_spawn; simp)+

lemma stable_run [stable_intros]: "stable (secure u g) (run command)" "stable (dropped u g) (run command)"
  unfolding run_def by (intro stable_bind stable_pure stable_with_child stable_ezexec stable_perform; simp)+

end
