(* ===== verification/Host_Devices.thy ===== *)
theory Host_Devices
  imports Host_Actions
begin

text \<open>
  The parts of the host that the setuid programs set up: rules of the address translation
  (src/src/util/nat.{hh,cc}), network devices (src/src/util/netdevice.{hh,cc}), temporary files
  (src/src/util/temp_file.{hh,cc}), the name server (src/src/util/dns_server.cc), the web servers of
  the replay shell (src/src/frontend/web_server.{hh,cc}, src/src/httpserver/apache_configuration.hh) and the
  listening sockets of the two proxies (src/src/util/dns_proxy.cc, src/src/httpserver/http_proxy.cc).

  Every class with a destructor is a scope, and an interpretation of the locale \<open>resource\<close>: what its
  constructor acquired, its destructor gives back, unless the system refuses to take it.
\<close>

section \<open>Model\<close>

subsection \<open>Address translation\<close>

definition with_nat_rule :: "tools \<Rightarrow> string list \<Rightarrow> 'a host_m \<Rightarrow> 'a host_m" where
  "with_nat_rule ts arguments block =
     with_resource (run (nat_command ts ''-A'' arguments)) (\<lambda>_. run (nat_command ts ''-D'' arguments)) (\<lambda>_. block)"

definition with_nat :: "tools \<Rightarrow> nat \<Rightarrow> address \<Rightarrow> 'a host_m \<Rightarrow> 'a host_m" where
  "with_nat ts pid ingress_addr block =
     with_nat_rule ts [''PREROUTING'', ''-s'', address_ip ingress_addr, ''-j'', ''CONNMARK'', ''--set-mark'', show_nat pid]
       (with_nat_rule ts [''POSTROUTING'', ''-j'', ''MASQUERADE'', ''-m'', ''connmark'', ''--mark'', show_nat pid] block)"

definition address_str :: "string \<Rightarrow> address \<Rightarrow> string" where
  "address_str port_separator a = address_ip a @ port_separator @ show_nat (unat (address_port a))"

definition with_dnat :: "tools \<Rightarrow> address \<Rightarrow> string \<Rightarrow> 'a host_m \<Rightarrow> 'a host_m" where
  "with_dnat ts listener interface block =
     with_nat_rule ts [''PREROUTING'', ''-p'', ''TCP'', ''-i'', interface, ''-j'', ''DNAT'', ''--to-destination'', address_str '':'' listener] block"

subsection \<open>Devices\<close>

definition interface_ioctl_on :: "string \<Rightarrow> string \<Rightarrow> string \<Rightarrow> unit host_m" where
  "interface_ioctl_on req name setting = call (''ioctl '' @ name) [req, setting]"

definition interface_ioctl :: "string \<Rightarrow> string \<Rightarrow> string \<Rightarrow> unit host_m" where
  "interface_ioctl req name setting = hbind (call ''socket'' []) (\<lambda>_. interface_ioctl_on req name setting)"

definition assign_address :: "string \<Rightarrow> address \<Rightarrow> address \<Rightarrow> unit host_m" where
  "assign_address device_name a peer =
     sequence_m
       [interface_ioctl ''SIOCSIFADDR'' device_name (address_ip a),
        interface_ioctl ''SIOCSIFDSTADDR'' device_name (address_ip peer),
        interface_ioctl ''SIOCSIFNETMASK'' device_name ''255.255.255.255'',
        interface_ioctl ''SIOCSIFFLAGS'' device_name ''IFF_UP'']"

definition tun_device :: "string \<Rightarrow> address \<Rightarrow> address \<Rightarrow> unit host_m" where
  "tun_device name a peer =
     sequence_m
       [call ''open /dev/net/tun'' [],
        interface_ioctl_on ''TUNSETIFF'' name ''IFF_TUN'',
        assign_address name a peer]"

definition name_check :: "string \<Rightarrow> unit host_m" where
  "name_check str =
     (if find_str ''veth-'' str \<noteq> Some 0
      then hthrow (Runtime_error (str @ '': name of veth device must start with \"veth-\"''))
      else hreturn ())"

definition mk_veth_pair :: "tools \<Rightarrow> string \<Rightarrow> string \<Rightarrow> unit host_m" where
  "mk_veth_pair ts outside_name inside_name h =
     sequence_m
       [name_check outside_name, name_check inside_name,
        run [ip_tool ts, ''link'', ''add'', outside_name, ''type'', ''veth'', ''peer'', ''name'', inside_name]]
       (h\<lparr>handed_over := False\<rparr>)"

definition destroy_veth_pair :: "tools \<Rightarrow> string \<Rightarrow> unit host_m" where
  "destroy_veth_pair ts name h =
     (if handed_over h then hreturn () h else run [ip_tool ts, ''link'', ''del'', name] h)"

definition with_veth_pair :: "tools \<Rightarrow> string \<Rightarrow> string \<Rightarrow> 'a host_m \<Rightarrow> 'a host_m" where
  "with_veth_pair ts outside_name inside_name block =
     with_resource (mk_veth_pair ts outside_name inside_name) (\<lambda>_. destroy_veth_pair ts outside_name) (\<lambda>_. block)"

definition set_kernel_will_destroy :: "unit host_m" where
  "set_kernel_will_destroy h = (Inr (), h\<lparr>handed_over := True\<rparr>)"

subsection \<open>Temporary files and web servers\<close>

definition unique_file :: "string \<Rightarrow> string host_m" where
  "unique_file filename_template = hbind (perform (Mkstemp (filename_template @ ''.XXXXXX''))) (\<lambda>a. hreturn (said a))"

definition with_temp_file :: "string \<Rightarrow> (string \<Rightarrow> 'a host_m) \<Rightarrow> 'a host_m" where
  "with_temp_file filename_template block = with_resource (unique_file filename_template) (\<lambda>name. perform (Unlink name)) block"

definition write_file :: "string \<Rightarrow> string \<Rightarrow> unit host_m" where
  "write_file name str = call ''write'' [name, str]"

abbreviation newline :: string where
  "newline \<equiv> [CHR 0x0A]"

definition apache_main_config :: "tools \<Rightarrow> string" where
  "apache_main_config ts =
     ''LoadModule mpm_prefork_module '' @ mod_mpm_prefork ts @ newline @
     ''LoadModule authz_core_module '' @ mod_authz_core ts @ newline @
     ''Mutex pthread'' @ newline @
     ''LoadFile '' @ mod_deepcgi ts @ newline @
     ''LoadModule deepcgi_module '' @ mod_deepcgi ts @ newline @
     ''SetHandler deepcgi-handler'' @ newline"

definition apache_ssl_config :: "tools \<Rightarrow> string" where
  "apache_ssl_config ts =
     ''LoadModule ssl_module '' @ mod_ssl ts @ newline @ ''SSLEngine on'' @ newline @
     ''SSLCertificateFile      '' @ mod_ssl_certificate_file ts @ newline @
     ''SSLCertificateKeyFile '' @ mod_ssl_key ts @ newline"

text \<open>The configuration file, as the list of what is written to it; \<open>n\<close> is the random number of the pid file, which is drawn before the first write.\<close>

definition web_server_config :: "tools \<Rightarrow> nat \<Rightarrow> nat \<Rightarrow> creds \<Rightarrow> address \<Rightarrow> string \<Rightarrow> string \<Rightarrow> string list" where
  "web_server_config ts pid n c a working_directory record_path =
     [apache_main_config ts,
      ''WorkingDir '' @ working_directory @ newline,
      ''RecordingDir '' @ record_path @ newline] @
     (if address_port a = 443 then [apache_ssl_config ts] else []) @
     [''PidFile /tmp/replayshell_apache_pid.'' @ show_nat pid @ ''.'' @ show_nat n @ newline,
      ''ServerName mahimahi.'' @ newline,
      ''ErrorLog /dev/null'' @ newline,
      ''CustomLog /dev/null common'' @ newline,
      ''User #'' @ show_nat (ruid c) @ newline,
      ''Group #'' @ show_nat (rgid c) @ newline,
      ''Listen '' @ address_str '':'' a]"

definition apache_command :: "tools \<Rightarrow> string \<Rightarrow> string \<Rightarrow> string list" where
  "apache_command ts config_file verb = [apache2 ts, ''-f'', config_file, ''-k'', verb]"

definition with_web_server :: "tools \<Rightarrow> nat \<Rightarrow> string \<Rightarrow> string \<Rightarrow> address \<Rightarrow> 'a host_m \<Rightarrow> 'a host_m" where
  "with_web_server ts pid working_directory record_path a block =
     with_temp_file ''/tmp/replayshell_apache_config'' (\<lambda>config_file.
       hbind (perform (Call ''random'' [])) (\<lambda>r.
       hbind (asking (\<lambda>h. sequence_m (map (write_file config_file)
                (web_server_config ts pid (number r) (host_creds h) a working_directory record_path)))) (\<lambda>_.
         with_resource (run (apache_command ts config_file ''start''))
           (\<lambda>_. run (apache_command ts config_file ''graceful-stop'')) (\<lambda>_. block))))"

subsection \<open>Proxies and the name server\<close>

definition no_address :: address where
  "no_address = \<lparr>address_ip = ''0.0.0.0'', address_port = 0\<rparr>"

definition make_bound_socket :: "string \<Rightarrow> address \<Rightarrow> unit host_m" where
  "make_bound_socket kind listen_address =
     sequence_m [call ''socket'' [kind], call ''bind'' [kind, address_str '':'' listen_address]]"

text \<open>The constructor of \<open>DNSProxy\<close> from two sockets returns the addresses they are bound to.\<close>

definition dns_proxy_on :: "(address \<times> address) host_m" where
  "dns_proxy_on =
     hbind (perform (Call ''getsockname'' [''udp''])) (\<lambda>u.
     if addr u = no_address then hthrow (Runtime_error ''DNSProxy internal error: udp_listener must be bound'')
     else
       hbind (perform (Call ''getsockname'' [''tcp''])) (\<lambda>t.
       if addr t = no_address then hthrow (Runtime_error ''DNSProxy internal error: tcp_listener must be bound'')
       else hbind (call ''listen'' []) (\<lambda>_. hreturn (addr u, addr t))))"

definition dns_proxy :: "address \<Rightarrow> (address \<times> address) host_m" where
  "dns_proxy listen_address =
     hbind (make_bound_socket ''udp'' listen_address) (\<lambda>_.
     hbind (make_bound_socket ''tcp'' listen_address) (\<lambda>_. dns_proxy_on))"

definition maybe_proxy :: "address \<Rightarrow> (address \<times> address) option host_m" where
  "maybe_proxy listen_address =
     hcatch (hbind (dns_proxy listen_address) (\<lambda>p. hreturn (Some p)))
       (\<lambda>e. if e = Unix_error ''bind'' then hreturn None else hthrow e)"

definition http_proxy :: "address \<Rightarrow> address host_m" where
  "http_proxy listener_addr =
     hbind (sequence_m [call ''socket'' [''tcp''], call ''SSL_CTX_new'' [''SERVER''], call ''SSL_CTX_new'' [''CLIENT''],
                        call ''bind'' [''tcp'', address_str '':'' listener_addr], call ''listen'' []]) (\<lambda>_.
     hbind (perform (Call ''getsockname'' [''tcp''])) (\<lambda>a. hreturn (addr a)))"

definition dnsmasq_command :: "tools \<Rightarrow> string list \<Rightarrow> string list" where
  "dnsmasq_command ts extra_arguments =
     [dnsmasq ts, ''--keep-in-foreground'', ''--no-resolv'', ''--no-hosts'', ''-C'', ''/dev/null''] @ extra_arguments"

text \<open>The attempts that are left before the twentieth, which gives up.\<close>

fun dnsmasq_attempts :: "nat \<Rightarrow> unit host_m" where
  "dnsmasq_attempts 0 = hthrow (Runtime_error ''dnsmasq: did not start after 20 attempts'')"
| "dnsmasq_attempts (Suc n) =
     hcatch (sequence_m [call ''write'' [''x''], call ''write'' [''x'']])
       (\<lambda>e. if e \<noteq> Unix_error ''write'' then hthrow e else dnsmasq_attempts n)"

definition with_dnsmasq :: "tools \<Rightarrow> string list \<Rightarrow> 'a host_m \<Rightarrow> 'a host_m" where
  "with_dnsmasq ts extra_arguments block =
     with_child ''dnsmasq'' False (ezexec (dnsmasq_command ts extra_arguments) False) (\<lambda>_.
       hbind (sequence_m [call ''socket'' [''udp''], call ''connect'' [''0'', ''domain''], dnsmasq_attempts 19]) (\<lambda>_. block))"

section \<open>What the scopes give back\<close>

interpretation nat_rule: resource ts "run (nat_command ts ''-A'' args)" "\<lambda>_. run (nat_command ts ''-D'' args)" "\<lambda>_. Nat_rule args"
  for ts args
  by (rule command_resource) (simp_all add: nat_command_def command_effect_def)

interpretation apache: resource ts "run (apache_command ts name ''start'')" "\<lambda>_. run (apache_command ts name ''graceful-stop'')"
  "\<lambda>_. Web_server name" for ts name
  by (rule command_resource) (simp_all add: apache_command_def nat_command_def command_effect_def)

interpretation temp_file: resource ts "unique_file template" "\<lambda>name. perform (Unlink name)" Temp_file for ts template
proof
  fix h h' x e
  show "keeps ts (one (Temp_file x)) h h'" if "unique_file template h = (Inr x, h')"
    using that by (auto simp: unique_file_def hbind_def hreturn_def perform_def Let_def keeps_def owed_def gain_def
        effect_of_def one_def children_settled_def split: option.splits)
  show "keeps ts (\<lambda>_. 0) h h'" if "unique_file template h = (Inl e, h')"
    using that by (auto simp: unique_file_def hbind_def hreturn_def perform_def Let_def keeps_def owed_def gain_def
        effect_of_def children_settled_def split: option.splits)
  show "keeps ts (\<lambda>r. - one (Temp_file x) r) h (snd (perform (Unlink x) h))"
    using perform_keeps [of ts "Unlink x" h] by (simp add: gain_def effect_of_def one_def if_distrib cong: if_cong)
qed

lemmas clean_scopes [clean_intros] = nat_rule.scope_clean apache.scope_clean temp_file.scope_clean

lemma clean_nat [clean_intros]:
  "clean ts block \<Longrightarrow> clean ts (with_nat_rule ts args block)"
  "clean ts block \<Longrightarrow> clean ts (with_nat ts pid ingress block)"
  "clean ts block \<Longrightarrow> clean ts (with_dnat ts listener interface block)"
  unfolding with_nat_def with_dnat_def with_nat_rule_def by (intro clean_intros; simp)+

lemma clean_devices [clean_intros]:
  "clean ts (interface_ioctl_on req name setting)" "clean ts (interface_ioctl req name setting)"
  "clean ts (assign_address device a p)" "clean ts (tun_device device a p)" "clean ts (name_check name)"
  unfolding interface_ioctl_on_def interface_ioctl_def assign_address_def tun_device_def name_check_def sequence_m.simps
  by (intro clean_intros)+

lemma clean_files [clean_intros]:
  "clean ts (write_file name str)"
  "(\<And>name. clean ts (b name)) \<Longrightarrow> clean ts (with_temp_file template b)"
  unfolding write_file_def with_temp_file_def by (intro clean_intros; simp)+

lemma clean_web_server [clean_intros]:
  "clean ts block \<Longrightarrow> clean ts (with_web_server ts pid wd path a block)"
  unfolding with_web_server_def by (intro clean_intros) (auto intro: clean_intros)

lemma clean_dnsmasq_attempts [clean_intros]: "clean ts (dnsmasq_attempts n)"
  by (induction n) (auto intro!: clean_intros simp only: dnsmasq_attempts.simps sequence_m.simps)

lemma clean_proxies [clean_intros]:
  "clean ts (make_bound_socket kind a)" "clean ts dns_proxy_on" "clean ts (dns_proxy a)" "clean ts (maybe_proxy a)"
  "clean ts (http_proxy a)" "clean ts block \<Longrightarrow> clean ts (with_dnsmasq ts args block)"
  unfolding make_bound_socket_def dns_proxy_on_def dns_proxy_def maybe_proxy_def http_proxy_def with_dnsmasq_def sequence_m.simps
  by (intro clean_intros; simp)+

text \<open>
  A pair of devices is given back unless it was handed over; then it goes with the namespace of the
  container.
\<close>

lemma stable_handed:
  "stable (\<lambda>h. handed_over h = b) (perform a)"
  "stable (\<lambda>h. handed_over h = b) (clone name ns child)"
  "stable (\<lambda>h. handed_over h = b) (run command)"
proof -
  show p: "stable (\<lambda>h. handed_over h = b) (perform a)" for a
    by (auto simp: triple_def perform_def Let_def split: option.splits)
  show c: "stable (\<lambda>h. handed_over h = b) (clone name ns child)" for name ns and child :: "'c host_m"
    unfolding clone_def by (rule stable_bind [OF p]) (simp add: triple_def Let_def)
  show "stable (\<lambda>h. handed_over h = b) (run command)"
    unfolding run_def with_child_def by (intro stable_intros p c)
qed

lemma veth_pair_keeps:
  fixes outside inside :: string
  assumes "can_fork h" and "clean ts block"
  defines "h' \<equiv> snd (with_veth_pair ts outside inside block h)"
  shows "keeps ts (\<lambda>r. if handed_over h' then one (Veth outside) r else 0) h h'"
proof -
  let ?add = "[ip_tool ts, ''link'', ''add'', outside, ''type'', ''veth'', ''peer'', ''name'', inside]"
  let ?h0 = "h\<lparr>handed_over := False\<rparr>"
  have h0: "can_fork ?h0" "children_settled ts ?h0 = children_settled ts h" using assms(1) by (simp_all add: can_fork_def children_settled_def)
  obtain v h1 where m: "mk_veth_pair ts outside inside h = (v, h1)" by (cases "mk_veth_pair ts outside inside h")
  have "\<not> handed_over h1 \<and> keeps ts (\<lambda>r. if isl v then 0 else one (Veth outside) r) ?h0 h1"
  proof (cases "find_str ''veth-'' outside = Some 0 \<and> find_str ''veth-'' inside = Some 0")
    case False
    with m have "isl v \<and> h1 = ?h0"
      by (auto simp: mk_veth_pair_def hbind_def hthrow_def name_check_def hreturn_def split: if_splits)
    then show ?thesis by (simp add: keeps_def)
  next
    case True
    have "mk_veth_pair ts outside inside h = (map_sum id (\<lambda>_. ()) (fst (run ?add ?h0)), snd (run ?add ?h0))"
      using True by (auto simp: mk_veth_pair_def hbind_def hreturn_def name_check_def split: prod.split sum.split)
    then have v: "isl v = isl (fst (run ?add ?h0))" "h1 = snd (run ?add ?h0)" using m by (auto simp: isl_map_sum)
    have "\<not> handed_over h1" using stableD [OF stable_handed(3), of ?h0 False ?add] v(2) by simp
    moreover have "command_gain ts ?add (\<not> isl v) = (\<lambda>r. if isl v then 0 else one (Veth outside) r)"
      by (auto simp: command_gain_def command_effect_def nat_command_def one_def)
    ultimately show ?thesis using run_keeps [OF h0(1), of ?add ts] v by simp
  qed
  then have k1: "\<not> handed_over h1" "keeps ts (\<lambda>r. if isl v then 0 else one (Veth outside) r) h h1"
    by (simp_all add: keeps_def h0(2))
  show ?thesis
  proof (cases v)
    case (Inl e)
    with m k1 show ?thesis by (simp add: h'_def with_veth_pair_def with_resource_def)
  next
    case (Inr x)
    define h2 where "h2 = snd (block h1)"
    have "can_fork h1" using k1(2) assms(1) keeps_can_fork by blast
    then have k2: "keeps ts (\<lambda>_. 0) h1 h2" unfolding h2_def by (rule cleanD [OF assms(2)])
    then have "can_fork h2" using \<open>can_fork h1\<close> keeps_can_fork by blast
    let ?del = "[ip_tool ts, ''link'', ''del'', outside]"
    have del: "keeps ts (\<lambda>r. - one (Veth outside) r) h2 (snd (run ?del h2))"
      using run_keeps [OF \<open>can_fork h2\<close>, of ?del ts]
      by (simp add: command_gain_def command_effect_def nat_command_def one_def keeps_def)
    have h': "h' = (if handed_over h2 then h2 else snd (run ?del h2))"
      using m Inr by (simp add: h'_def with_veth_pair_def with_resource_def destroy_veth_pair_def hreturn_def h2_def)
    have "handed_over h' = handed_over h2" using stableD [OF stable_handed(3), of h2 False ?del] by (simp add: h')
    with k1(2) k2 del Inr show ?thesis by (simp add: h' keeps_def)
  qed
qed

section \<open>What the scopes do with identities\<close>

text \<open>Pieces of programs that keep the assertions of Host_Actions.thy, before and after the identities are dropped.\<close>

definition harmless :: "'a host_m \<Rightarrow> bool" where
  "harmless m \<longleftrightarrow> (\<forall>u g. stable (secure u g) m \<and> stable (dropped u g) m)"

named_theorems harmless_intros \<open>pieces of programs that keep identities and run no program of the user\<close>

lemma harmless_pure [harmless_intros]:
  "harmless (hreturn x)" "harmless (hthrow e)" "harmless (from_res r)" "harmless (set_environ env)"
  by (simp_all add: harmless_def stable_pure stable_environ)

lemma harmless_compose [harmless_intros]:
  "harmless m \<Longrightarrow> (\<And>x. harmless (f x)) \<Longrightarrow> harmless (hbind m f)"
  "harmless m \<Longrightarrow> (\<And>e. harmless (k e)) \<Longrightarrow> harmless (hcatch m k)"
  "harmless acq \<Longrightarrow> (\<And>x. harmless (rel x)) \<Longrightarrow> (\<And>x. harmless (b x)) \<Longrightarrow> harmless (with_resource acq rel b)"
  "harmless c \<Longrightarrow> (\<And>x. harmless (b' x)) \<Longrightarrow> harmless (with_child name ns c b')"
  "(\<And>h. harmless (q h)) \<Longrightarrow> harmless (asking q)"
  "harmless m \<Longrightarrow> harmless m' \<Longrightarrow> harmless (if cond then m else m')"
  "(\<And>n. n \<in> set ns' \<Longrightarrow> harmless n) \<Longrightarrow> harmless (sequence_m ns')"
  unfolding harmless_def by (auto intro!: stable_intros)

lemma harmless_actions [harmless_intros]:
  "(\<And>command. a \<noteq> Exec command True) \<Longrightarrow> harmless (perform a)" "harmless (call name args)" "harmless (run command)"
  "harmless (ezexec command False)"
  by (simp_all add: harmless_def stable_perform stable_call stable_run stable_ezexec)

lemma harmless_devices [harmless_intros]:
  "harmless (interface_ioctl_on req name setting)" "harmless (interface_ioctl req name setting)"
  "harmless (assign_address device a p)" "harmless (tun_device device a p)" "harmless (name_check name)"
  unfolding interface_ioctl_on_def interface_ioctl_def assign_address_def tun_device_def name_check_def sequence_m.simps
  by (intro harmless_intros)+

lemma harmless_veth [harmless_intros]:
  "harmless (mk_veth_pair ts o' i)" "harmless (destroy_veth_pair ts o')" "harmless set_kernel_will_destroy"
proof -
  have flag: "secure u g (h\<lparr>handed_over := b\<rparr>) = secure u g h" "dropped u g (h\<lparr>handed_over := b\<rparr>) = dropped u g h" for u g h b
    by (simp_all add: secure_def dropped_def entries_def)
  have set_flag: "harmless (\<lambda>h. m (h\<lparr>handed_over := b\<rparr>))" if "harmless m" for m :: "'z host_m" and b
    using that unfolding harmless_def triple_def by (simp add: flag)
  let ?make = "sequence_m [name_check o', name_check i, run [ip_tool ts, ''link'', ''add'', o', ''type'', ''veth'', ''peer'', ''name'', i]]"
  have "harmless ?make" unfolding sequence_m.simps by (intro harmless_intros)
  moreover have "mk_veth_pair ts o' i = (\<lambda>h. ?make (h\<lparr>handed_over := False\<rparr>))"
    by (simp only: mk_veth_pair_def fun_eq_iff) simp
  ultimately show "harmless (mk_veth_pair ts o' i)" using set_flag [of ?make False] by simp
  have "harmless (asking (\<lambda>h. if handed_over h then hreturn () else run [ip_tool ts, ''link'', ''del'', o']))"
    by (intro harmless_intros)
  moreover have "destroy_veth_pair ts o' = asking (\<lambda>h. if handed_over h then hreturn () else run [ip_tool ts, ''link'', ''del'', o'])"
    by (simp add: destroy_veth_pair_def asking_def fun_eq_iff)
  ultimately show "harmless (destroy_veth_pair ts o')" by simp
  show "harmless set_kernel_will_destroy" by (simp add: harmless_def triple_def set_kernel_will_destroy_def flag)
qed

lemma harmless_scopes [harmless_intros]:
  "harmless b \<Longrightarrow> harmless (with_nat_rule ts args b)" "harmless b \<Longrightarrow> harmless (with_nat ts pid a b)"
  "harmless b \<Longrightarrow> harmless (with_dnat ts listener interface b)" "harmless b \<Longrightarrow> harmless (with_veth_pair ts o' i b)"
  "(\<And>name. harmless (f name)) \<Longrightarrow> harmless (with_temp_file template f)"
  "harmless (write_file name str)" "harmless b \<Longrightarrow> harmless (with_web_server ts pid wd path a b)"
  unfolding with_nat_def with_dnat_def with_nat_rule_def with_veth_pair_def with_temp_file_def unique_file_def write_file_def
    with_web_server_def
  by (auto intro!: harmless_intros)

lemma harmless_dnsmasq_attempts [harmless_intros]: "harmless (dnsmasq_attempts n)"
  by (induction n) (auto intro!: harmless_intros simp only: dnsmasq_attempts.simps sequence_m.simps)

lemma harmless_proxies [harmless_intros]:
  "harmless (make_bound_socket kind a)" "harmless dns_proxy_on" "harmless (dns_proxy a)" "harmless (maybe_proxy a)"
  "harmless (http_proxy a)" "harmless b \<Longrightarrow> harmless (with_dnsmasq ts args b)"
  unfolding make_bound_socket_def dns_proxy_on_def dns_proxy_def maybe_proxy_def http_proxy_def with_dnsmasq_def sequence_m.simps
  by (intro harmless_intros; simp)+

end
