(* ===== verification/Raw_Address.thy ===== *)
theory Raw_Address
  imports Mahimahi_Prelude
begin

text \<open>
  \<open>Address\<close> as it is kept in memory, src/src/util/address.{hh,cc}: the size of the socket address and the
  union \<open>raw\<close> of 128 bytes, with the constructors that copy a socket address and the two comparisons,
  which are calls of \<open>memcmp\<close>. \<open>raw_address\<close> is an instance of \<open>linorder\<close> by the order of \<open>memcmp\<close>. An
  IPv4 socket address on Linux is the family 2 in the order of the machine, the port and the four bytes
  of the address in the order of the network, and eight zeros.

  The lemmas show that the order in which a \<open>set<Address>\<close> keeps IPv4 addresses is by port and then by
  address, that equality agrees with it there, and that equality is not symmetric on addresses of
  different size.
\<close>

section \<open>Model\<close>

text \<open>Bytes are compared as unsigned numbers. Of lists of different length, which the code never compares, a prefix is less.\<close>

fun memcmp :: "byte list \<Rightarrow> byte list \<Rightarrow> int" where
  "memcmp [] [] = 0"
| "memcmp [] (y # ys) = - 1"
| "memcmp (x # xs) [] = 1"
| "memcmp (x # xs) (y # ys) = (if x = y then memcmp xs ys else if x < y then - 1 else 1)"

datatype raw_address = Raw (raw_bytes: "byte list")

record sock_addr =
  addr_size :: nat
  addr_raw :: raw_address

definition sizeof_raw :: nat where
  "sizeof_raw = 128"

text \<open>\<open>Address( const sockaddr & addr, const size_t size )\<close>, where \<open>bytes\<close> are those behind the reference.\<close>

definition address_of_sockaddr :: "byte list \<Rightarrow> nat \<Rightarrow> sock_addr res" where
  "address_of_sockaddr bytes sz =
     (if sizeof_raw < sz then Inl (Runtime_error ''invalid sockaddr size'')
      else if length bytes < sz then Inl Undefined_behaviour
      else Inr \<lparr>addr_size = sz, addr_raw = Raw (take sz bytes @ replicate (sizeof_raw - sz) 0)\<rparr>)"

text \<open>\<open>Address( const sockaddr_in & addr )\<close>.\<close>

definition port_bytes :: "u16 \<Rightarrow> byte list" where
  "port_bytes p = [ucast (drop_bit 8 p), ucast p]"

definition ip_bytes :: "u32 \<Rightarrow> byte list" where
  "ip_bytes a = [ucast (drop_bit 24 a), ucast (drop_bit 16 a), ucast (drop_bit 8 a), ucast a]"

definition sockaddr_in :: "u16 \<Rightarrow> u32 \<Rightarrow> byte list" where
  "sockaddr_in port ip = [2, 0] @ port_bytes port @ ip_bytes ip @ replicate 8 0"

definition address_of_in :: "byte list \<Rightarrow> sock_addr res" where
  "address_of_in addr =
     asserting (16 \<le> sizeof_raw) (Inr \<lparr>addr_size = 16, addr_raw = Raw (take 16 addr @ replicate (sizeof_raw - 16) 0)\<rparr>)"

definition addr_equal :: "sock_addr \<Rightarrow> sock_addr \<Rightarrow> bool" where
  "addr_equal a b \<longleftrightarrow> memcmp (take (addr_size a) (raw_bytes (addr_raw a))) (take (addr_size a) (raw_bytes (addr_raw b))) = 0"

definition addr_less :: "sock_addr \<Rightarrow> sock_addr \<Rightarrow> bool" where
  "addr_less a b \<longleftrightarrow> memcmp (raw_bytes (addr_raw a)) (raw_bytes (addr_raw b)) < 0"

section \<open>The order of bytes\<close>

lemma memcmp_0 [simp]: "memcmp xs ys = 0 \<longleftrightarrow> xs = ys"
  by (induction xs ys rule: memcmp.induct) auto

lemma memcmp_self [simp]: "memcmp xs xs = 0"
  by simp

lemma memcmp_Nil: "memcmp [] zs \<le> 0"
  by (cases zs) simp_all

lemma memcmp_swap: "memcmp ys xs = - memcmp xs ys"
  by (induction xs ys rule: memcmp.induct) auto

lemma memcmp_trans: "memcmp xs ys \<le> 0 \<Longrightarrow> memcmp ys zs \<le> 0 \<Longrightarrow> memcmp xs zs \<le> 0"
proof (induction xs ys arbitrary: zs rule: memcmp.induct)
  case (4 x xs y ys)
  then show ?case by (cases zs) (auto split: if_splits)
qed (auto simp: memcmp_Nil)

instantiation raw_address :: linorder
begin

definition less_eq_raw_address :: "raw_address \<Rightarrow> raw_address \<Rightarrow> bool" where
  "less_eq_raw_address a b \<longleftrightarrow> memcmp (raw_bytes a) (raw_bytes b) \<le> 0"

definition less_raw_address :: "raw_address \<Rightarrow> raw_address \<Rightarrow> bool" where
  "less_raw_address a b \<longleftrightarrow> memcmp (raw_bytes a) (raw_bytes b) < 0"

instance
proof
  fix a b c :: raw_address
  note swap = memcmp_swap [of "raw_bytes b" "raw_bytes a"]
  show "a < b \<longleftrightarrow> a \<le> b \<and> \<not> b \<le> a" "a \<le> a" "a \<le> b \<or> b \<le> a"
    using swap by (auto simp: less_eq_raw_address_def less_raw_address_def simp del: memcmp_0)
  show "a \<le> b \<Longrightarrow> b \<le> c \<Longrightarrow> a \<le> c" using memcmp_trans by (simp add: less_eq_raw_address_def)
  show "a = b" if "a \<le> b" "b \<le> a"
  proof -
    have "memcmp (raw_bytes a) (raw_bytes b) = 0" using that swap by (simp add: less_eq_raw_address_def)
    then show ?thesis by (simp add: raw_address.expand)
  qed
qed

end

lemma addr_less_raw: "addr_less a b \<longleftrightarrow> addr_raw a < addr_raw b"
  by (simp add: addr_less_def less_raw_address_def)

section \<open>Numbers in the order of the network\<close>

fun be_value :: "byte list \<Rightarrow> nat" where
  "be_value [] = 0"
| "be_value (b # bs) = unat b * 256 ^ length bs + be_value bs"

lemma be_value_less: "be_value bs < 256 ^ length bs"
proof (induction bs)
  case (Cons b bs)
  have "unat b < 256" by (rule order.strict_trans2 [OF unsigned_less]) simp
  then have "(unat b + 1) * 256 ^ length bs \<le> 256 * 256 ^ length bs" by (intro mult_le_mono1) simp
  then have "unat b * 256 ^ length bs + 256 ^ length bs \<le> 256 * 256 ^ length bs" by (simp only: add_mult_distrib mult_1)
  moreover have "256 ^ length (b # bs) = 256 * (256 ^ length bs :: nat)" by simp
  ultimately show ?case using Cons.IH unfolding be_value.simps by linarith
qed simp

lemma be_value_Cons_less: "unat x < unat y \<Longrightarrow> length xs = length ys \<Longrightarrow> be_value (x # xs) < be_value (y # ys)"
proof -
  assume "unat x < unat y" "length xs = length ys"
  then have "Suc (unat x) * 256 ^ length xs \<le> unat y * 256 ^ length ys" unfolding \<open>length xs = length ys\<close> by (intro mult_le_mono1) simp
  then show ?thesis using be_value_less [of xs] by (simp add: algebra_simps)
qed

lemma memcmp_be_value: "length xs = length ys \<Longrightarrow> memcmp xs ys < 0 \<longleftrightarrow> be_value xs < be_value ys"
proof (induction xs ys rule: memcmp.induct)
  case (4 x xs y ys)
  then have l: "length xs = length ys" by simp
  consider "x = y" | "x < y" | "y < x" by (rule linorder_cases)
  then show ?case
  proof cases
    case 1
    then show ?thesis using "4.IH" l by simp
  next
    case 2
    then have "be_value (x # xs) < be_value (y # ys)" using l by (intro be_value_Cons_less) (simp_all add: word_less_nat_alt)
    then show ?thesis using 2 by (simp add: less_imp_neq)
  next
    case 3
    then have "be_value (y # ys) < be_value (x # xs)" using l by (intro be_value_Cons_less) (simp_all add: word_less_nat_alt)
    then show ?thesis using 3 by (auto simp: less_imp_neq)
  qed
qed simp_all

lemma memcmp_append: "length xs = length ys \<Longrightarrow> memcmp (xs @ us) (ys @ vs) = (if xs = ys then memcmp us vs else memcmp xs ys)"
  by (induction xs ys rule: memcmp.induct) auto

lemma ucast_byte: "unat (ucast w :: byte) = unat w mod 256"
  by (simp add: unsigned_ucast_eq take_bit_eq_mod)

lemma unat_drop_bit_div: "unat (drop_bit n w) = unat w div 2 ^ n"
  unfolding unat_drop_bit_eq by (rule drop_bit_eq_div)

lemma port_bytes_value: "be_value (port_bytes p) = unat p"
proof -
  have "unat p < 65536" by (rule order.strict_trans2 [OF unsigned_less]) simp
  then have "unat p div 256 mod 256 = unat p div 256" by simp
  then show ?thesis by (simp add: port_bytes_def ucast_byte unat_drop_bit_div del: drop_bit_eq_div)
qed

lemma ip_bytes_value: "be_value (ip_bytes a) = unat a"
proof -
  define n1 n2 n3 where n: "n1 = unat a div 256" "n2 = n1 div 256" "n3 = n2 div 256"
  have "unat a < 4294967296" by (rule order.strict_trans2 [OF unsigned_less]) simp
  then have n3: "n3 mod 256 = n3" by (simp add: n)
  have "unat a = n1 * 256 + unat a mod 256" "n1 = n2 * 256 + n1 mod 256" "n2 = n3 * 256 + n2 mod 256"
    by (simp_all add: n)
  then have "n3 * 16777216 + n2 mod 256 * 65536 + n1 mod 256 * 256 + unat a mod 256 = unat a" by linarith
  moreover have "unat a div 65536 = n2" "unat a div 16777216 = n3" by (simp_all add: n flip: div_mult2_eq)
  ultimately show ?thesis using n(1) n3 by (simp add: ip_bytes_def ucast_byte unat_drop_bit_div add.assoc)
qed

section \<open>IPv4 addresses\<close>

definition inet :: "u16 \<Rightarrow> u32 \<Rightarrow> sock_addr" where
  "inet port ip = \<lparr>addr_size = 16, addr_raw = Raw (sockaddr_in port ip @ replicate 112 0)\<rparr>"

lemma sockaddr_in_length [simp]: "length (sockaddr_in port ip) = 16"
  by (simp add: sockaddr_in_def port_bytes_def ip_bytes_def)

text \<open>Both constructors make the same object of an IPv4 socket address.\<close>

lemma inet_constructors:
  "address_of_in (sockaddr_in port ip) = Inr (inet port ip)" "address_of_sockaddr (sockaddr_in port ip @ rest) 16 = Inr (inet port ip)"
  by (simp_all add: address_of_in_def address_of_sockaddr_def inet_def sizeof_raw_def asserting_def)

lemma port_bytes_eq [simp]: "port_bytes p = port_bytes q \<longleftrightarrow> p = q"
  by (metis port_bytes_value word_unat_eq_iff)

lemma ip_bytes_eq [simp]: "ip_bytes a = ip_bytes b \<longleftrightarrow> a = b"
  by (metis ip_bytes_value word_unat_eq_iff)

lemma lengths [simp]: "length (port_bytes p) = 2" "length (ip_bytes a) = 4"
  by (simp_all add: port_bytes_def ip_bytes_def)

text \<open>The order of a set of addresses.\<close>

lemma inet_less: "addr_less (inet p a) (inet q b) \<longleftrightarrow> p < q \<or> p = q \<and> a < b"
proof -
  have "memcmp (port_bytes p) (port_bytes q) < 0 \<longleftrightarrow> p < q" "memcmp (ip_bytes a) (ip_bytes b) < 0 \<longleftrightarrow> a < b"
    by (simp_all add: memcmp_be_value port_bytes_value ip_bytes_value word_less_nat_alt)
  then show ?thesis by (auto simp: addr_less_def inet_def sockaddr_in_def memcmp_append)
qed

lemma inet_equal: "addr_equal (inet p a) (inet q b) \<longleftrightarrow> p = q \<and> a = b"
proof -
  have "sockaddr_in p a = sockaddr_in q b \<longleftrightarrow> p = q \<and> a = b" by (auto simp: sockaddr_in_def append_eq_append_conv)
  then show ?thesis by (simp add: addr_equal_def inet_def)
qed

text \<open>Equality and order agree on IPv4 addresses.\<close>

lemma inet_trichotomy: "addr_equal (inet p a) (inet q b) \<longleftrightarrow> \<not> addr_less (inet p a) (inet q b) \<and> \<not> addr_less (inet q b) (inet p a)"
  by (auto simp: inet_equal inet_less)

text \<open>The comparison looks at as many bytes as the left operand has.\<close>

definition short_address :: sock_addr where
  "short_address = \<lparr>addr_size = 2, addr_raw = Raw ([2, 0] @ replicate 126 0)\<rparr>"

lemma addr_equal_not_symmetric:
  "address_of_sockaddr [2, 0] 2 = Inr short_address" "addr_equal short_address (inet 80 1)" "\<not> addr_equal (inet 80 1) short_address"
  by code_simp+

end
