(* ===== verification/Container_Shells.thy ===== *)
theory Container_Shells
  imports Host_Devices Raw_Address
begin

text \<open>
  The programs that build a container on the host: \<open>PacketShell\<close> (src/src/packet/packetshell.cc), on which
  mm-link, mm-loss, mm-onoff, mm-delay and mm-meter rest, and the programs mm-webrecord and mm-webreplay
  (src/src/frontend/recordshell.cc, replayshell.cc). Each is a \<open>host_m\<close> with the processes it starts; the
  event loop of a process, modelled in Event_Loop.thy and Packet_Shell.thy, is one last action of it here.

  The theorems say what the programs owe the host they run on as root: whatever fails on the way, in
  every process each rule, device, file, server and child that was acquired is given back, or the
  system has refused to take it back; and the user's programs run with the user's identities only.
\<close>

section \<open>Model\<close>

text \<open>What a program finds: its process number, the user's environment, the addresses in use.\<close>

record surroundings =
  built_with :: tools
  pid :: nat
  user_environment :: environment
  interfaces :: "address list res"
  nameservers :: "address list"
  numeric_address :: "string \<Rightarrow> address res"
  login_shell :: "string option"

definition mahimahi_base :: "surroundings \<Rightarrow> address host_m" where
  "mahimahi_base s h =
     (case get_mahimahi_base (numeric_address s) (user_environment s) (environ h) (host_creds h) of
        Inl e \<Rightarrow> (Inl e, h)
      | Inr (r, c) \<Rightarrow> (r, h\<lparr>host_creds := c\<rparr>))"

definition unassigned :: "surroundings \<Rightarrow> address \<Rightarrow> (address \<times> address) host_m" where
  "unassigned s avoid = from_res (res_bind (interfaces s) (\<lambda>used. two_unassigned_addresses used avoid))"

definition first_nameserver :: "address host_m" where
  "first_nameserver = hbind (perform (Call ''res_init'' [])) (\<lambda>a. hreturn (addr a))"

definition prepend_shell_prefix_m :: "string \<Rightarrow> unit host_m" where
  "prepend_shell_prefix_m str =
     hbind (sequence_m [call ''setenv'' [''MAHIMAHI_SHELL_PREFIX''], call ''setenv'' [''PROMPT_COMMAND'']]) (\<lambda>_.
       asking (\<lambda>h. set_environ (map_option (prepend_shell_prefix str) (environ h))))"

definition new_event_loop :: "unit host_m" where
  "new_event_loop = call ''sigprocmask'' []"

definition loop :: "unit host_m" where
  "loop = call ''event loop'' []"

text \<open>\<open>initial_timestamp\<close>: the clock is read; the log of its value is written without looking whether it can be.\<close>

definition start_clock :: "unit host_m" where
  "start_clock = call ''clock_gettime'' []"

text \<open>The construction of the queue of a ferry, one action that may fail; Ferry_Queues.thy has the constructors.\<close>

definition ferry_maker :: "unit host_m" where
  "ferry_maker = call ''ferry queue'' []"

definition up_localhost :: "unit host_m" where
  "up_localhost = interface_ioctl ''SIOCSIFFLAGS'' ''lo'' ''IFF_UP''"

definition default_route :: "address \<Rightarrow> unit host_m" where
  "default_route gateway = sequence_m [call ''socket'' [''udp''], call ''ioctl SIOCADDRT'' [address_ip gateway]]"

subsection \<open>Packet shells\<close>

definition set_mahimahi_base :: "address \<Rightarrow> unit host_m" where
  "set_mahimahi_base egress =
     hbind (call ''setenv'' [''MAHIMAHI_BASE'', address_ip egress]) (\<lambda>_.
       asking (\<lambda>h. set_environ (map_option (\<lambda>env. case env ''MAHIMAHI_BASE'' of
           None \<Rightarrow> env(''MAHIMAHI_BASE'' \<mapsto> address_ip egress) | Some _ \<Rightarrow> env) (environ h))))"

definition user_shell :: "string \<Rightarrow> string list \<Rightarrow> sys_answer host_m" where
  "user_shell prompt command = hbind (prepend_shell_prefix_m prompt) (\<lambda>_. ezexec command True)"

definition uplink_process :: "surroundings \<Rightarrow> string \<Rightarrow> string list \<Rightarrow> address \<Rightarrow> address \<Rightarrow> unit host_m" where
  "uplink_process s prompt command egress ingress =
     hbind (sequence_m [tun_device ''ingress'' ingress egress, up_localhost, default_route egress, new_event_loop,
                        make_bound_socket ''udp'' ingress, call ''socket'' [''tcp'']]) (\<lambda>_.
     hbind (perform (Call ''getsockname'' [''udp''])) (\<lambda>l.
     hbind (sequence_m [call ''bind'' [''tcp'', address_str '':'' (addr l)], call ''getsockname'' [''outside udp''],
                        call ''getsockname'' [''outside tcp'']]) (\<lambda>_.
     hbind dns_proxy_on (\<lambda>dns_inside.
       with_dnsmasq (built_with s) [''-S'', address_str ''#'' (fst dns_inside)]
         (hbind drop_privileges_m (\<lambda>_.
          hbind (set_environ (Some (user_environment s))) (\<lambda>_.
          hbind (set_mahimahi_base egress) (\<lambda>_.
          hbind (from_res (join_words command)) (\<lambda>name.
            with_child name False (user_shell prompt command) (\<lambda>_.
              sequence_m [call ''sendmsg'' [''ingress''], ferry_maker, loop]))))))))))"

definition downlink_process :: "surroundings \<Rightarrow> unit host_m" where
  "downlink_process s =
     hbind drop_privileges_m (\<lambda>_.
     hbind (set_environ (Some (user_environment s))) (\<lambda>_.
       sequence_m [call ''recvmsg'' [], new_event_loop, ferry_maker, loop]))"

definition packet_shell :: "surroundings \<Rightarrow> string \<Rightarrow> string \<Rightarrow> string list \<Rightarrow> unit host_m" where
  "packet_shell s device_prefix prompt command =
     hbind (mahimahi_base s) (\<lambda>base.
     hbind (unassigned s base) (\<lambda>(egress, ingress).
     hbind first_nameserver (\<lambda>nameserver.
     hbind (tun_device (device_prefix @ ''-'' @ show_nat (pid s)) egress ingress) (\<lambda>_.
     hbind (dns_proxy egress) (\<lambda>dns_outside.
       with_nat (built_with s) (pid s) ingress
         (hbind (sequence_m [call ''socketpair'' [], new_event_loop]) (\<lambda>_.
          asking (\<lambda>h.
            if environ h \<noteq> None then hthrow (Runtime_error ''PacketShell: environment was not cleared'')
            else
              hbind start_clock (\<lambda>_.
              with_child ''packetshell'' True (uplink_process s prompt command egress ingress) (\<lambda>_.
              with_child ''downlink'' False (downlink_process s) (\<lambda>_. loop)))))))))))"

subsection \<open>mm-webrecord\<close>

definition directory_name :: "string \<Rightarrow> string" where
  "directory_name dir = (if last dir \<noteq> CHR ''/'' then dir @ ''/'' else dir)"

definition container_process :: "surroundings \<Rightarrow> string list \<Rightarrow> string \<Rightarrow> address \<Rightarrow> address \<Rightarrow> address \<Rightarrow> unit host_m" where
  "container_process s command ingress_name egress ingress nameserver =
     hbind (sequence_m [call ''read'' [], up_localhost, assign_address ingress_name ingress egress, default_route egress]) (\<lambda>_.
     hbind (maybe_proxy nameserver) (\<lambda>dns_inside.
     hbind drop_privileges_m (\<lambda>_.
     hbind new_event_loop (\<lambda>_.
     hbind (from_res (join_words command)) (\<lambda>name.
       with_child name False
         (hbind (set_environ (Some (user_environment s))) (\<lambda>_. user_shell ''[record] '' command)) (\<lambda>_. loop))))))"

definition recorder_process :: "string \<Rightarrow> unit host_m" where
  "recorder_process directory =
     hbind drop_privileges_m (\<lambda>_.
     hbind (asking (\<lambda>h. from_res (make_directory True (host_creds h) directory))) (\<lambda>_.
       sequence_m [call (''mkdir '' @ directory) [], new_event_loop, loop]))"

definition record_container :: "surroundings \<Rightarrow> string list \<Rightarrow> string \<Rightarrow> string \<Rightarrow> address \<Rightarrow> address \<Rightarrow> address \<Rightarrow> string \<Rightarrow> unit host_m" where
  "record_container s command directory ingress_name egress ingress nameserver ns_tool =
     hbind (sequence_m [new_event_loop, call ''socketpair'' []]) (\<lambda>_.
       with_child ''recordshell'' True (container_process s command ingress_name egress ingress nameserver) (\<lambda>a.
       hbind (run [ns_tool, ''link'', ''set'', ''dev'', ingress_name, ''netns'', show_nat (number a)]) (\<lambda>_.
       hbind set_kernel_will_destroy (\<lambda>_.
       hbind (call ''write'' [''x'']) (\<lambda>_.
         with_child ''recorder'' False (recorder_process directory) (\<lambda>_. loop))))))"

definition egress_name :: "surroundings \<Rightarrow> string" where
  "egress_name s = ''veth-'' @ show_nat (pid s)"

definition record_main :: "surroundings \<Rightarrow> unit res \<Rightarrow> string list \<Rightarrow> unit host_m" where
  "record_main s checks argv =
     hbind (from_res checks) (\<lambda>_.
     case argv of
       program # dir # words \<Rightarrow>
         if dir = [] then hthrow (Runtime_error (program @ '': directory name must be non-empty''))
         else
           hbind (from_res (shell_command (login_shell s) words)) (\<lambda>command.
           hbind first_nameserver (\<lambda>nameserver.
           hbind (unassigned s no_address) (\<lambda>(egress, ingress).
             with_veth_pair (built_with s) (egress_name s) (''veth-i'' @ show_nat (pid s))
               (hbind (assign_address (egress_name s) egress ingress) (\<lambda>_.
                hbind (dns_proxy egress) (\<lambda>dns_outside.
                  with_nat (built_with s) (pid s) ingress
                    (hbind (http_proxy egress) (\<lambda>listener.
                      with_dnat (built_with s) listener (egress_name s)
                        (record_container s command (directory_name dir) (''veth-i'' @ show_nat (pid s)) egress ingress nameserver
                           (ip_tool (built_with s)))))))))))
     | _ \<Rightarrow> from_res (usage (hd argv) '' directory [command...]''))"

subsection \<open>mm-webreplay\<close>

text \<open>
  The addresses and names to serve. A \<open>set<Address>\<close> is a list without duplicates in the order of
  the bytes of the addresses, which \<open>sockaddr_bytes\<close> gives; \<open>operator<\<close> is the order of Raw_Address.thy.
\<close>

record to_serve =
  unique_ip :: "address list"
  unique_ip_and_port :: "address list"
  hostname_to_ip :: "(string \<times> address) list"

definition emplace :: "(address \<Rightarrow> raw_address) \<Rightarrow> address \<Rightarrow> address list \<Rightarrow> address list" where
  "emplace sockaddr_bytes a as = insort_insert_key sockaddr_bytes a as"

definition serve_record :: "(address \<Rightarrow> raw_address) \<Rightarrow> (string \<Rightarrow> address res) \<Rightarrow> request_response \<Rightarrow> to_serve \<Rightarrow> to_serve res" where
  "serve_record bytes numeric r t =
     res_bind (numeric (rr_ip r)) (\<lambda>a0.
     let a = a0\<lparr>address_port := ucast (rr_port r)\<rparr> in
     res_bind (numeric (address_ip a)) (\<lambda>ip0.
     res_bind (get_header_value ''Host'' (from_protobuf (rr_request r))) (\<lambda>host_name.
       Inr \<lparr>unique_ip = emplace bytes (ip0\<lparr>address_port := 0\<rparr>) (unique_ip t),
            unique_ip_and_port = emplace bytes a (unique_ip_and_port t),
            hostname_to_ip = hostname_to_ip t @ [(host_name, a)]\<rparr>)))"

fun collect :: "(address \<Rightarrow> raw_address) \<Rightarrow> (string \<Rightarrow> address res) \<Rightarrow> filesystem \<Rightarrow> string list \<Rightarrow> to_serve \<Rightarrow> to_serve res" where
  "collect bytes numeric fs [] t = Inr t"
| "collect bytes numeric fs (filename # files) t =
     (case fs_file fs filename of
        Open_fails \<Rightarrow> Inl (Unix_error ''open'')
      | Unparsable \<Rightarrow> Inl (Runtime_error (filename @ '': invalid HTTP request/response''))
      | Stored r \<Rightarrow> res_bind (serve_record bytes numeric r t) (collect bytes numeric fs files))"

definition read_records :: "(address \<Rightarrow> raw_address) \<Rightarrow> surroundings \<Rightarrow> filesystem \<Rightarrow> string \<Rightarrow> to_serve host_m" where
  "read_records bytes s fs directory h =
     (case temporarily_unprivileged (\<lambda>c.
          res_bind (list_directory_contents (runs_as_root c) fs directory) (\<lambda>files.
            collect bytes (numeric_address s) fs files \<lparr>unique_ip = [], unique_ip_and_port = [], hostname_to_ip = []\<rparr>)) (host_creds h) of
        Inl e \<Rightarrow> (Inl e, h)
      | Inr (r, c) \<Rightarrow> (r, h\<lparr>host_creds := c\<rparr>))"

definition add_dummy_interface :: "tools \<Rightarrow> string \<Rightarrow> address \<Rightarrow> unit host_m" where
  "add_dummy_interface ts name a =
     sequence_m [run [ip_tool ts, ''link'', ''add'', name, ''type'', ''dummy''],
                 interface_ioctl ''SIOCSIFFLAGS'' name ''IFF_UP'', interface_ioctl ''SIOCSIFADDR'' name (address_ip a)]"

definition add_dummy_interfaces :: "tools \<Rightarrow> string \<Rightarrow> address list \<Rightarrow> unit host_m" where
  "add_dummy_interfaces ts prefix_name as =
     sequence_m (map (\<lambda>(i, a). add_dummy_interface ts (prefix_name @ show_nat i) a) (zip [0..<length as] as))"

fun with_web_servers :: "tools \<Rightarrow> nat \<Rightarrow> string \<Rightarrow> string \<Rightarrow> address list \<Rightarrow> 'a host_m \<Rightarrow> 'a host_m" where
  "with_web_servers ts n wd path [] block = block"
| "with_web_servers ts n wd path (a # as) block = with_web_server ts n wd path a (with_web_servers ts n wd path as block)"

definition hosts_line :: "string \<times> address \<Rightarrow> string" where
  "hosts_line mapping = address_ip (snd mapping) @ '' '' @ fst mapping @ newline"

definition replay_container :: "surroundings \<Rightarrow> string list \<Rightarrow> string \<Rightarrow> string \<Rightarrow> to_serve \<Rightarrow> unit host_m" where
  "replay_container s command working_directory directory t =
     hbind (add_dummy_interfaces (built_with s) ''sharded'' (unique_ip t)) (\<lambda>_.
       with_web_servers (built_with s) (pid s) working_directory directory (unique_ip_and_port t)
         (with_temp_file ''/tmp/replayshell_hosts'' (\<lambda>dnsmasq_hosts.
            hbind (sequence_m (map (\<lambda>m. write_file dnsmasq_hosts (hosts_line m)) (hostname_to_ip t))) (\<lambda>_.
            hbind (sequence_m [new_event_loop, call ''res_init'' []]) (\<lambda>_.
            hbind (add_dummy_interfaces (built_with s) ''nameserver'' (nameservers s)) (\<lambda>_.
              with_dnsmasq (built_with s) [''-H'', dnsmasq_hosts]
                (hbind (from_res (join_words command)) (\<lambda>name.
                   with_child name False
                     (hbind drop_privileges_m (\<lambda>_.
                      hbind (set_environ (Some (user_environment s))) (\<lambda>_. user_shell ''[replay] '' command))) (\<lambda>_. loop)))))))))"

definition replay_main :: "(address \<Rightarrow> raw_address) \<Rightarrow> surroundings \<Rightarrow> filesystem \<Rightarrow> unit res \<Rightarrow> string list \<Rightarrow> unit host_m" where
  "replay_main bytes s fs checks argv =
     hbind (from_res checks) (\<lambda>_.
     case argv of
       program # dir # words \<Rightarrow>
         if dir = [] then hthrow (Runtime_error (program @ '': directory name must be non-empty''))
         else
           hbind (perform (Call ''getcwd'' [])) (\<lambda>cwd.
           hbind (call ''chdir'' [said cwd]) (\<lambda>_.
           hbind (from_res (shell_command (login_shell s) words)) (\<lambda>command.
           hbind (sequence_m [call ''unshare'' [], up_localhost]) (\<lambda>_.
           hbind (read_records bytes s fs (directory_name dir)) (\<lambda>t.
             replay_container s command (said cwd) (directory_name dir) t)))))
     | _ \<Rightarrow> from_res (usage (hd argv) '' directory [command...]''))"

section \<open>Everything is given back\<close>

lemma clean_split [clean_intros]: "(\<And>a b. clean ts (f a b)) \<Longrightarrow> clean ts (case x of (a, b) \<Rightarrow> f a b)"
  by (simp split: prod.split)

lemma clean_small [clean_intros]:
  "clean ts (mahimahi_base s)" "clean ts (unassigned s a)" "clean ts first_nameserver" "clean ts new_event_loop" "clean ts loop"
  "clean ts up_localhost" "clean ts start_clock" "clean ts ferry_maker" "clean ts (default_route a)" "clean ts set_kernel_will_destroy" "clean ts (read_records bytes s fs dir)"
proof -
  show "clean ts (mahimahi_base s)" "clean ts set_kernel_will_destroy" "clean ts (read_records bytes s fs dir)"
    by (auto simp: clean_def keeps_def children_settled_def mahimahi_base_def set_kernel_will_destroy_def read_records_def
        split: sum.splits prod.splits)
  show "clean ts (unassigned s a)" "clean ts first_nameserver" "clean ts new_event_loop" "clean ts loop"
    "clean ts up_localhost" "clean ts start_clock" "clean ts ferry_maker" "clean ts (default_route a)"
    unfolding unassigned_def first_nameserver_def new_event_loop_def loop_def up_localhost_def start_clock_def ferry_maker_def
      default_route_def sequence_m.simps
    by (intro clean_intros)+
qed

lemma clean_user_shell [clean_intros]: "clean ts (user_shell prompt command)" "clean ts (set_mahimahi_base e)"
  unfolding user_shell_def prepend_shell_prefix_m_def set_mahimahi_base_def sequence_m.simps by (intro clean_intros)+

lemma clean_processes [clean_intros]:
  "clean (built_with s) (uplink_process s prompt command e i)" "clean ts (downlink_process s)"
  "clean ts (container_process s command name e i n)" "clean ts (recorder_process dir)"
  unfolding uplink_process_def downlink_process_def container_process_def recorder_process_def sequence_m.simps
  by (intro clean_intros)+

lemma clean_packet_shell: "clean (built_with s) (packet_shell s device prompt command)"
  unfolding packet_shell_def sequence_m.simps by (intro clean_intros)

lemma clean_ip_commands [clean_intros]:
  "clean ts (run [ip_tool ts, ''link'', ''add'', name, ''type'', ''dummy''])"
  "clean ts (run [tool, ''link'', ''set'', ''dev'', name, ''netns'', str])"
  by (rule clean_run; simp add: command_effect_def nat_command_def)+

lemma clean_dummy [clean_intros]: "clean ts (add_dummy_interface ts name a)" "clean ts (add_dummy_interfaces ts name as)"
  unfolding add_dummy_interfaces_def add_dummy_interface_def sequence_m.simps
  by (auto intro!: clean_intros)

lemma clean_web_servers [clean_intros]: "clean ts block \<Longrightarrow> clean ts (with_web_servers ts n wd path as block)"
  by (induction as) (simp_all add: clean_web_server)

lemma clean_replay: "clean (built_with s) (replay_container s command wd dir t)"
  unfolding replay_container_def sequence_m.simps by (auto intro!: clean_intros)

lemma clean_replay_main: "clean (built_with s) (replay_main bytes s fs checks argv)"
  unfolding replay_main_def sequence_m.simps
  by (intro clean_bind clean_pure) (auto intro!: clean_intros clean_replay split: list.split)

lemma clean_record_container [clean_intros]: "clean ts (record_container s command dir ingress_name e i n tool)"
  unfolding record_container_def sequence_m.simps by (intro clean_intros)

text \<open>
  The pair of devices of mm-webrecord is the one resource that may outlive the program: when it has
  been handed over.
\<close>

definition keeps_but_handed :: "tools \<Rightarrow> string \<Rightarrow> 'a host_m \<Rightarrow> bool" where
  "keeps_but_handed ts name m \<longleftrightarrow>
     (\<forall>h. can_fork h \<longrightarrow> \<not> handed_over h \<longrightarrow>
        keeps ts (\<lambda>r. if handed_over (snd (m h)) then one (Veth name) r else 0) h (snd (m h)))"

lemma keeps_but_handed_veth: "clean ts block \<Longrightarrow> keeps_but_handed ts name (with_veth_pair ts name inside block)"
  using veth_pair_keeps unfolding keeps_but_handed_def by blast

lemma keeps_but_handed_bind:
  assumes "clean ts m" and "stable (\<lambda>h. handed_over h = False) m" and "\<And>x. keeps_but_handed ts name (f x)"
  shows "keeps_but_handed ts name (hbind m f)"
  unfolding keeps_but_handed_def
proof (intro allI impI)
  fix h
  assume h: "can_fork h" "\<not> handed_over h"
  obtain v h1 where m: "m h = (v, h1)" by (cases "m h")
  have k: "keeps ts (\<lambda>_. 0) h h1" using cleanD [OF assms(1) h(1)] m by simp
  then have "can_fork h1" using h(1) keeps_can_fork by blast
  moreover have "\<not> handed_over h1" using stableD [OF assms(2)] h(2) m by fastforce
  ultimately show "keeps ts (\<lambda>r. if handed_over (snd (hbind m f h)) then one (Veth name) r else 0) h (snd (hbind m f h))"
    using assms(3) k m unfolding keeps_but_handed_def by (cases v) (auto simp: hbind_def intro: keeps_0_trans)
qed

lemma keeps_but_handed_pure:
  "keeps_but_handed ts name (hthrow e)" "keeps_but_handed ts name (from_res r)"
  by (simp_all add: keeps_but_handed_def keeps_def hthrow_def from_res_def)

lemma keeps_but_handed_split: "(\<And>a b. keeps_but_handed ts name (f a b)) \<Longrightarrow> keeps_but_handed ts name (case x of (a, b) \<Rightarrow> f a b)"
  by (simp split: prod.split)

lemma record_main_keeps: "keeps_but_handed (built_with s) (egress_name s) (record_main s checks argv)"
proof -
  let ?b = "\<lambda>h. handed_over h = False"
  have st: "stable ?b (from_res r)" "stable ?b first_nameserver" "stable ?b (unassigned s a)" for r :: "'z res" and a
    unfolding first_nameserver_def unassigned_def by (intro stable_intros stable_handed)+
  show ?thesis
    unfolding record_main_def
    by (intro keeps_but_handed_bind st clean_intros)
      (auto intro!: keeps_but_handed_bind st clean_intros keeps_but_handed_pure keeps_but_handed_split keeps_but_handed_veth split: list.split)
qed

section \<open>The user's programs\<close>

definition tame :: "'a host_m \<Rightarrow> bool" where
  "tame m \<longleftrightarrow> (\<forall>u g. stable (dropped u g) m)"

named_theorems tame_intros \<open>pieces of programs that run after the identities are dropped\<close>

lemma harmless_tame: "harmless m \<Longrightarrow> tame m"
  by (simp add: harmless_def tame_def)

lemma tame_compose [tame_intros]:
  "tame m \<Longrightarrow> (\<And>x. tame (f x)) \<Longrightarrow> tame (hbind m f)"
  "tame c \<Longrightarrow> (\<And>x. tame (b x)) \<Longrightarrow> tame (with_child name ns c b)"
  "tame (ezexec command search)"
  unfolding tame_def by (auto intro!: stable_intros)

lemma harmless_after_drop:
  assumes "\<And>x. tame (f x)"
  shows "harmless (hbind drop_privileges_m f)"
proof -
  have "stable (dropped u g) drop_privileges_m" for u g
    using drop_privileges_settled by (auto simp: triple_def drop_privileges_m_def dropped_def)
  with assms show ?thesis unfolding harmless_def tame_def by (auto intro!: stable_bind stable_after_drop)
qed

lemma harmless_split [harmless_intros]: "(\<And>a b. harmless (f a b)) \<Longrightarrow> harmless (case x of (a, b) \<Rightarrow> f a b)"
  by (simp split: prod.split)

text \<open>The unprivileged scopes leave the credentials as they were.\<close>

lemma unprivileged_creds:
  assumes "setuid_root c \<or> settled_as u g c" and "temporarily_unprivileged k c = Inr (r, c')"
  shows "c' = c"
  using assms(1)
proof
  assume "setuid_root c"
  from unprivileged_scope [OF this, of k] assms(2) show ?thesis by auto
next
  assume "settled_as u g c"
  then show ?thesis using assms(2)
    by (cases c) (auto simp: settled_as_iff temporarily_unprivileged_def enter_unprivileged_def leave_unprivileged_def
        system_call_def own_uids_def own_gids_def assert_not_root_def split: if_splits)
qed

lemma harmless_unprivileged:
  "harmless (\<lambda>h. case temporarily_unprivileged (k h) (host_creds h) of Inl e \<Rightarrow> (Inl e, h) | Inr (r, c) \<Rightarrow> (r, h\<lparr>host_creds := c\<rparr>))"
proof -
  have step: "case (case temporarily_unprivileged (k h) (host_creds h) of Inl e \<Rightarrow> (Inl e, h) | Inr (r, c) \<Rightarrow> (r, h\<lparr>host_creds := c\<rparr>)) of
      (Inl e, h') \<Rightarrow> P h' | (Inr x, h') \<Rightarrow> P h'"
    if "P h" "setuid_root (host_creds h) \<or> settled_as u g (host_creds h)" for P :: "host \<Rightarrow> bool" and h u g
  proof (cases "temporarily_unprivileged (k h) (host_creds h)")
    case (Inr rc)
    obtain r c where "rc = (r, c)" by (cases rc)
    moreover from this Inr have "c = host_creds h" using unprivileged_creds [OF that(2)] by blast
    ultimately show ?thesis using that(1) Inr by (simp split: sum.split)
  qed (use that in simp)
  have s: "secure u g h \<Longrightarrow> setuid_root (host_creds h) \<or> settled_as u g (host_creds h)" for u g h by (auto simp: secure_def)
  have d: "dropped u g h \<Longrightarrow> setuid_root (host_creds h) \<or> settled_as u g (host_creds h)" for u g h by (simp add: dropped_def)
  show ?thesis unfolding harmless_def triple_def by (intro allI conjI impI) (rule step; (assumption | erule s | erule d))+
qed

lemma harmless_small [harmless_intros]:
  "harmless (mahimahi_base s)" "harmless (read_records bytes s fs dir)" "harmless (unassigned s a)" "harmless first_nameserver"
  "harmless new_event_loop" "harmless loop" "harmless up_localhost" "harmless start_clock" "harmless ferry_maker"
  "harmless (default_route a)" "harmless (prepend_shell_prefix_m prompt)" "harmless (set_mahimahi_base a)"
proof -
  show "harmless (mahimahi_base s)"
    using harmless_unprivileged [of "\<lambda>h c1. res_bind (enter_environment (user_environment s) (environ h)) (\<lambda>environ1.
        numeric_address s (case user_environment s ''MAHIMAHI_BASE'' of None \<Rightarrow> ''0'' | Some b \<Rightarrow> b))"]
    by (simp add: mahimahi_base_def [abs_def] get_mahimahi_base_def)
  show "harmless (read_records bytes s fs dir)"
    using harmless_unprivileged [of "\<lambda>h c. res_bind (list_directory_contents (runs_as_root c) fs dir) (\<lambda>files.
        collect bytes (numeric_address s) fs files \<lparr>unique_ip = [], unique_ip_and_port = [], hostname_to_ip = []\<rparr>)"]
    by (simp add: read_records_def [abs_def])
  show "harmless (unassigned s a)" "harmless first_nameserver"
    "harmless new_event_loop" "harmless loop" "harmless up_localhost" "harmless start_clock" "harmless ferry_maker"
    "harmless (default_route a)" "harmless (prepend_shell_prefix_m prompt)" "harmless (set_mahimahi_base a)"
    unfolding unassigned_def first_nameserver_def new_event_loop_def loop_def up_localhost_def start_clock_def ferry_maker_def
      default_route_def prepend_shell_prefix_m_def set_mahimahi_base_def sequence_m.simps
    by (intro harmless_intros; simp)+
qed

lemma tame_user_shell [tame_intros]: "tame (user_shell prompt command)"
  unfolding user_shell_def by (intro tame_intros harmless_tame harmless_intros)

lemma harmless_processes [harmless_intros]:
  "harmless (uplink_process s prompt command e i)" "harmless (downlink_process s)"
  "harmless (container_process s command name e i n)" "harmless (recorder_process dir)"
  unfolding uplink_process_def downlink_process_def container_process_def recorder_process_def sequence_m.simps
  by (rule harmless_after_drop | rule tame_intros | rule harmless_tame | rule harmless_intros | simp)+

lemma harmless_packet_shell: "harmless (packet_shell s device prompt command)"
  unfolding packet_shell_def sequence_m.simps by (intro harmless_intros)

lemma harmless_record_main: "harmless (record_main s checks argv)"
  unfolding record_main_def record_container_def sequence_m.simps
  by (intro harmless_compose(1) harmless_pure) (auto intro!: harmless_intros split: list.split)

lemma harmless_web_servers [harmless_intros]: "harmless block \<Longrightarrow> harmless (with_web_servers ts n wd path as block)"
  by (induction as) (simp_all add: harmless_scopes)

lemma harmless_dummy [harmless_intros]: "harmless (add_dummy_interfaces ts name as)"
  unfolding add_dummy_interfaces_def add_dummy_interface_def sequence_m.simps by (auto intro!: harmless_intros)

lemma harmless_replay_container [harmless_intros]: "harmless (replay_container s command wd dir t)"
proof -
  have "harmless (hbind drop_privileges_m (\<lambda>_. hbind (set_environ (Some (user_environment s))) (\<lambda>_. user_shell ''[replay] '' command)))"
    by (intro harmless_after_drop tame_intros harmless_tame harmless_intros)
  then show ?thesis unfolding replay_container_def sequence_m.simps by (auto intro!: harmless_intros)
qed

lemma harmless_replay_main: "harmless (replay_main bytes s fs checks argv)"
  unfolding replay_main_def sequence_m.simps
  by (intro harmless_compose(1) harmless_pure) (auto intro!: harmless_intros split: list.split)

text \<open>The processes a program starts are those of a secure start.\<close>

lemma harmless_entries:
  assumes "harmless m" and "setuid_root (host_creds h)" and "trace h = []" and "children h = []"
  shows "list_all (safe_entry (ruid (host_creds h)) (rgid (host_creds h))) (entries (snd (m h)))"
proof -
  let ?s = "secure (ruid (host_creds h)) (rgid (host_creds h))"
  have "?s h" using assms(2-4) by (simp add: secure_def entries_def)
  moreover have "stable ?s m" using assms(1) by (simp add: harmless_def)
  ultimately have "?s (snd (m h))" using stableD by blast
  then show ?thesis by (simp add: secure_def)
qed

section \<open>Properties\<close>

definition traces :: "host \<Rightarrow> (string list \<times> entry list) list" where
  "traces h = (process h, trace h) # children h"

lemma keeps_traces:
  assumes "keeps ts (\<lambda>_. 0) h h'" and "trace h = []" and "children h = []" and "c \<in> set (traces h')"
  shows "owed ts (snd c) r = 0"
  using assms by (auto simp: traces_def keeps_def children_settled_def owed_def)

lemma balanced_trace: "owed ts t r = 0 \<Longrightarrow> acquired ts r t = given_back ts r t + refused ts r t"
  by (simp add: owed_counts)

lemma counts_eq: "int a - int b - int c = (if P then 1 else 0) \<Longrightarrow> a = b + c + (if P then 1 else 0)"
  by (cases P) auto

lemma balanced_traces:
  assumes "keeps ts (\<lambda>_. 0) h h'" and "trace h = []" and "children h = []"
  shows "\<forall>c \<in> set (traces h'). \<forall>r. acquired ts r (snd c) = given_back ts r (snd c) + refused ts r (snd c)"
  using balanced_trace keeps_traces [OF assms] by blast

text \<open>
  C5: However the system answers, also when a program ends with an exception half way through its setup, a packet shell,
  mm-webrecord and mm-webreplay, and every process they start, keep nothing that they could give back.
  At the end of each process, the rules of the address translation, temporary files, web servers, pairs of devices and
  child processes it has acquired are as many as it has given back successfully and was refused to give back: every acquisition is matched by
  a destructor that ran, and what remains on the host is exactly what the system refused to take
  back (a failing \<open>iptables -D\<close>, \<open>unlink\<close>, \<open>graceful-stop\<close> or \<open>waitid\<close>, which the destructors only report).
  One more thing may
  remain, the pair of devices of mm-webrecord, and only when it was handed over to the container,
  with which it disappears. The system must be able to start processes, since commands run in processes of their
  own; a process counts as ended when its procedure has run to its end, so one that is killed by \<open>SIGKILL\<close> is not
  covered.
\<close>

theorem shells_give_back:
  assumes "can_fork h" and "\<not> handed_over h" and "trace h = []" and "children h = []"
  shows "(\<forall>c \<in> set (traces (snd (packet_shell s device prompt command h))). \<forall>r.
       acquired (built_with s) r (snd c) = given_back (built_with s) r (snd c) + refused (built_with s) r (snd c)) \<and>
     (\<forall>c \<in> set (traces (snd (replay_main bytes s fs checks argv h))). \<forall>r.
       acquired (built_with s) r (snd c) = given_back (built_with s) r (snd c) + refused (built_with s) r (snd c)) \<and>
     (let h' = snd (record_main s checks argv h) in
       (\<forall>r. acquired (built_with s) r (trace h') = given_back (built_with s) r (trace h') + refused (built_with s) r (trace h') +
          (if handed_over h' \<and> r = Veth (egress_name s) then 1 else 0)) \<and>
       (\<forall>c \<in> set (children h'). \<forall>r.
          acquired (built_with s) r (snd c) = given_back (built_with s) r (snd c) + refused (built_with s) r (snd c)))"
proof -
  have p: "keeps (built_with s) (\<lambda>_. 0) h (snd (packet_shell s device prompt command h))"
    by (rule cleanD [OF clean_packet_shell assms(1)])
  have w: "keeps (built_with s) (\<lambda>_. 0) h (snd (replay_main bytes s fs checks argv h))"
    by (rule cleanD [OF clean_replay_main assms(1)])
  let ?h = "snd (record_main s checks argv h)"
  have r: "keeps (built_with s) (\<lambda>r. if handed_over ?h then one (Veth (egress_name s)) r else 0) h ?h"
    using record_main_keeps [of s checks argv] assms(1,2) by (simp add: keeps_but_handed_def)
  have "owed (built_with s) (trace h) r = 0" for r using assms(3) by (simp add: owed_def)
  then have o: "owed (built_with s) (trace ?h) r = (if handed_over ?h \<and> r = Veth (egress_name s) then 1 else 0)" for r
    using r by (auto simp: keeps_def one_def)
  have "acquired (built_with s) r (trace ?h) = given_back (built_with s) r (trace ?h) + refused (built_with s) r (trace ?h) +
      (if handed_over ?h \<and> r = Veth (egress_name s) then 1 else 0)" for r
    using o [of r] unfolding owed_counts by (rule counts_eq)
  moreover have "\<forall>c \<in> set (children ?h). \<forall>r. owed (built_with s) (snd c) r = 0"
    using r assms(4) by (simp add: keeps_def children_settled_def)
  ultimately show ?thesis
    using balanced_traces [OF p assms(3,4)] balanced_traces [OF w assms(3,4)] unfolding Let_def
    by (blast intro: balanced_trace)
qed

definition sample_tools :: tools where
  "sample_tools = \<lparr>iptables = ''iptables'', ip_tool = ''ip'', apache2 = ''apache2'', dnsmasq = ''dnsmasq'', mod_mpm_prefork = [],
     mod_authz_core = [], mod_deepcgi = [], mod_ssl = [], mod_ssl_certificate_file = [], mod_ssl_key = []\<rparr>"

definition sample_surroundings :: surroundings where
  "sample_surroundings = \<lparr>built_with = sample_tools, pid = 7, user_environment = Map.empty, interfaces = Inr [], nameservers = [],
     numeric_address = (\<lambda>ip. Inr \<lparr>address_ip = ip, address_port = 0\<rparr>), login_shell = Some ''/bin/sh''\<rparr>"

definition replay_fs :: filesystem where
  "replay_fs = \<lparr>fs_chdir = (\<lambda>_. True), fs_readdir = (\<lambda>_. Some [''a'']),
     fs_file = (\<lambda>_. Stored \<lparr>rr_ip = ''10.0.0.1'', rr_port = 80, rr_scheme = Scheme_HTTP,
       rr_request = \<lparr>proto_first_line = ''GET / HTTP/1.1'', proto_header = [(''Host'', ''example.org'')], proto_body = []\<rparr>,
       rr_response = \<lparr>proto_first_line = [], proto_header = [], proto_body = []\<rparr>\<rparr>)\<rparr>"

definition sample_host :: host where
  "sample_host = \<lparr>process = [], answers = (\<lambda>p n a. \<lparr>failure = None, said = ''/tmp/x'', number = 9,
       addr = \<lparr>address_ip = ''100.64.0.9'', address_port = 53\<rparr>\<rparr>),
     host_creds = \<lparr>ruid = 1000, euid = 0, suid = 0, rgid = 1000, egid = 1000, sgid = 1000\<rparr>,
     environ = None, trace = [], children = [], handed_over = False\<rparr>"

text \<open>The system of \<open>sample_host\<close> refuses to delete a rule.\<close>

definition refusing_host :: host where
  "refusing_host = sample_host\<lparr>answers := (\<lambda>p n a.
     if \<exists>arguments. a = Run_command (nat_command sample_tools ''-D'' arguments)
     then answers sample_host p n a\<lparr>failure := Some (Runtime_error ''iptables'')\<rparr> else answers sample_host p n a)\<rparr>"

theorem shells_give_back_witness:
  "list_all (\<lambda>c. \<forall>r. acquired sample_tools r (snd c) = given_back sample_tools r (snd c) + refused sample_tools r (snd c))
     (traces (snd (packet_shell sample_surroundings ''delay'' ''[delay 20 ms] '' [''ls''] refusing_host)))"
  unfolding list_all_iff
  using shells_give_back [of refusing_host sample_surroundings "''delay''" "''[delay 20 ms] ''" "[''ls'']" "\<lambda>a. Raw []" replay_fs "Inr ()"
      "[''mm-webreplay'', ''dir'']"]
  by (simp add: refusing_host_def sample_host_def can_fork_def sample_surroundings_def)

text \<open>
  C6: The programs of the user, those that are searched along the user's path, run with the user's
  identities only: in every process that a packet shell, mm-webrecord or mm-webreplay starts, however
  the system answers, such a program is executed only when the real, the effective and the saved
  identities of the process are all those of the user who started the shell.
\<close>

theorem user_programs_unprivileged:
  assumes "setuid_root (host_creds h)" and "trace h = []" and "children h = []"
    and "m \<in> {packet_shell s device prompt command, record_main s checks argv, replay_main bytes s fs checks argv}"
  shows "list_all (safe_entry (ruid (host_creds h)) (rgid (host_creds h))) (entries (snd (m h)))"
proof -
  have "harmless m" using assms(4) harmless_packet_shell harmless_record_main harmless_replay_main by auto
  then show ?thesis by (rule harmless_entries [OF _ assms(1-3)])
qed

theorem user_programs_unprivileged_witness:
  "list_all (safe_entry 1000 1000) (entries (snd (record_main sample_surroundings (Inr ()) [''mm-webrecord'', ''dir''] sample_host)))"
  using user_programs_unprivileged [of sample_host "record_main sample_surroundings (Inr ()) [''mm-webrecord'', ''dir'']"
      sample_surroundings "[]" "[]" "[]" "Inr ()" "[''mm-webrecord'', ''dir'']"]
  by (simp add: sample_host_def setuid_root_def)

subsection \<open>What is served\<close>

lemma emplace_props:
  "set (emplace bytes a as) \<subseteq> insert a (set as)" "set as \<subseteq> set (emplace bytes a as)"
  "bytes a \<in> bytes ` set (emplace bytes a as)"
  "distinct (map bytes as) \<Longrightarrow> distinct (map bytes (emplace bytes a as))"
  by (auto simp: emplace_def insort_insert_key_def set_insort_key distinct_insort_key)

definition served_as :: "(string \<Rightarrow> address res) \<Rightarrow> request_response \<Rightarrow> string \<times> address \<Rightarrow> bool" where
  "served_as numeric r m \<longleftrightarrow>
     get_header_value ''Host'' (from_protobuf (rr_request r)) = Inr (fst m) \<and>
     (\<exists>a. numeric (rr_ip r) = Inr a \<and> snd m = a\<lparr>address_port := ucast (rr_port r)\<rparr>)"

text \<open>The addresses that need an interface: those of the records, without a port.\<close>

definition interface_addresses :: "(string \<Rightarrow> address res) \<Rightarrow> to_serve \<Rightarrow> address set" where
  "interface_addresses numeric t =
     {a\<lparr>address_port := 0\<rparr> | m a. m \<in> set (hostname_to_ip t) \<and> numeric (address_ip (snd m)) = Inr a}"

lemma mem_interface_addresses:
  "x \<in> interface_addresses numeric t \<longleftrightarrow>
     (\<exists>m \<in> set (hostname_to_ip t). \<exists>a. numeric (address_ip (snd m)) = Inr a \<and> x = a\<lparr>address_port := 0\<rparr>)"
  unfolding interface_addresses_def by blast

definition serve_inv :: "(address \<Rightarrow> raw_address) \<Rightarrow> (string \<Rightarrow> address res) \<Rightarrow> to_serve \<Rightarrow> bool" where
  "serve_inv bytes numeric t \<longleftrightarrow>
     distinct (map bytes (unique_ip t)) \<and> distinct (map bytes (unique_ip_and_port t)) \<and>
     bytes ` set (unique_ip_and_port t) = bytes ` snd ` set (hostname_to_ip t) \<and>
     (\<forall>m \<in> set (hostname_to_ip t). \<exists>a. numeric (address_ip (snd m)) = Inr a) \<and>
     bytes ` set (unique_ip t) = bytes ` interface_addresses numeric t"

lemma serve_record_inv:
  assumes "serve_record bytes numeric r t = Inr t'" and "serve_inv bytes numeric t"
  shows "serve_inv bytes numeric t' \<and> (\<exists>m. hostname_to_ip t' = hostname_to_ip t @ [m] \<and> served_as numeric r m)"
proof -
  obtain a0 ip0 name where r: "numeric (rr_ip r) = Inr a0" "numeric (address_ip a0) = Inr ip0"
      "get_header_value ''Host'' (from_protobuf (rr_request r)) = Inr name"
      "t' = \<lparr>unique_ip = emplace bytes (ip0\<lparr>address_port := 0\<rparr>) (unique_ip t),
             unique_ip_and_port = emplace bytes (a0\<lparr>address_port := ucast (rr_port r)\<rparr>) (unique_ip_and_port t),
             hostname_to_ip = hostname_to_ip t @ [(name, a0\<lparr>address_port := ucast (rr_port r)\<rparr>)]\<rparr>"
    using assms(1) by (auto simp: serve_record_def Let_def)
  let ?a = "a0\<lparr>address_port := ucast (rr_port r)\<rparr>"
  have e: "bytes ` set (emplace bytes b as) = insert (bytes b) (bytes ` set as)" for b as
    using emplace_props(1) [of bytes b as] emplace_props(2) [of as bytes b] emplace_props(3) [of bytes b as] by blast
  have "interface_addresses numeric t' = insert (ip0\<lparr>address_port := 0\<rparr>) (interface_addresses numeric t)"
    by (rule set_eqI) (use r(2) in \<open>simp add: mem_interface_addresses r(4) disj_commute\<close>)
  then have "serve_inv bytes numeric t'"
    using assms(2) r by (auto simp: serve_inv_def e emplace_props(4))
  then show ?thesis using r by (auto simp: served_as_def)
qed

lemma collect_serves:
  assumes "collect bytes numeric fs files t = Inr t'" and "serve_inv bytes numeric t"
  shows "serve_inv bytes numeric t' \<and> (\<exists>recs ms. map (fs_file fs) files = map Stored recs \<and>
     hostname_to_ip t' = hostname_to_ip t @ ms \<and> list_all2 (served_as numeric) recs ms)"
  using assms
proof (induction files arbitrary: t)
  case (Cons f files)
  then obtain r t1 where r: "fs_file fs f = Stored r" "serve_record bytes numeric r t = Inr t1" "collect bytes numeric fs files t1 = Inr t'"
    by (auto split: stored_file.splits)
  obtain m where m: "serve_inv bytes numeric t1" "hostname_to_ip t1 = hostname_to_ip t @ [m]" "served_as numeric r m"
    using serve_record_inv [OF r(2) Cons.prems(2)] by blast
  obtain recs ms where "serve_inv bytes numeric t'" "map (fs_file fs) files = map Stored recs"
      "hostname_to_ip t' = hostname_to_ip t1 @ ms" "list_all2 (served_as numeric) recs ms"
    using Cons.IH [OF r(3) m(1)] by blast
  with r(1) m(2,3) have "map (fs_file fs) (f # files) = map Stored (r # recs)" "hostname_to_ip t' = hostname_to_ip t @ m # ms"
    "list_all2 (served_as numeric) (r # recs) (m # ms)" "serve_inv bytes numeric t'" by simp_all
  then show ?case by blast
qed (auto intro: exI [of _ "[]"])

text \<open>
  C40: What mm-webreplay collects from a directory of records is what has to be served: the names for
  the name server are those of the records, in order, each with the address the record was made at;
  the addresses with a web server are exactly the addresses of the records, each once; and the addresses that
  get an interface are exactly the addresses of the records without their ports, each once: no record is left without
  an interface, and no interface is made that no record asks for. The order of addresses is that of their bytes in memory, in which
  different addresses differ.
\<close>

theorem replay_serves_recorded:
  assumes "collect bytes numeric fs files \<lparr>unique_ip = [], unique_ip_and_port = [], hostname_to_ip = []\<rparr> = Inr t" and "inj bytes"
  shows "\<exists>recs. map (fs_file fs) files = map Stored recs \<and> list_all2 (served_as numeric) recs (hostname_to_ip t) \<and>
     distinct (unique_ip_and_port t) \<and> set (unique_ip_and_port t) = snd ` set (hostname_to_ip t) \<and>
     distinct (unique_ip t) \<and> set (unique_ip t) = interface_addresses numeric t \<and>
     (\<forall>m \<in> set (hostname_to_ip t). \<exists>a. numeric (address_ip (snd m)) = Inr a \<and> a\<lparr>address_port := 0\<rparr> \<in> set (unique_ip t))"
proof -
  have "serve_inv bytes numeric \<lparr>unique_ip = [], unique_ip_and_port = [], hostname_to_ip = []\<rparr>"
    by (simp add: serve_inv_def interface_addresses_def)
  from collect_serves [OF assms(1) this] obtain recs where r: "serve_inv bytes numeric t" "map (fs_file fs) files = map Stored recs"
      "list_all2 (served_as numeric) recs (hostname_to_ip t)" by auto
  from r(1) assms(2) have "distinct (unique_ip_and_port t)" "set (unique_ip_and_port t) = snd ` set (hostname_to_ip t)"
      and i: "distinct (unique_ip t)" "set (unique_ip t) = interface_addresses numeric t"
    by (auto simp: serve_inv_def distinct_map inj_image_eq_iff)
  moreover have "\<forall>m \<in> set (hostname_to_ip t). \<exists>a. numeric (address_ip (snd m)) = Inr a \<and> a\<lparr>address_port := 0\<rparr> \<in> set (unique_ip t)"
    using r(1) unfolding i(2) by (fastforce simp: serve_inv_def interface_addresses_def)
  ultimately show ?thesis using r by blast
qed

definition sample_bytes :: "address \<Rightarrow> raw_address" where
  "sample_bytes a = Raw (port_bytes (address_port a) @ map (\<lambda>c. of_nat (of_char c)) (address_ip a))"

lemma sample_bytes_inj: "inj sample_bytes"
proof (rule injI)
  fix a b
  assume "sample_bytes a = sample_bytes b"
  moreover have "inj (\<lambda>c. of_nat (of_char c) :: byte)"
    by (rule injI) (simp add: word_of_nat_eq_iff take_bit_nat_eq_self)
  ultimately have "address_port a = address_port b" "address_ip a = address_ip b"
    by (simp_all add: sample_bytes_def append_eq_append_conv inj_map_eq_map)
  then show "a = b" by simp
qed

theorem replay_serves_recorded_witness:
  "\<exists>t. collect sample_bytes (\<lambda>ip. Inr \<lparr>address_ip = ip, address_port = 0\<rparr>) replay_fs [''dir/a'']
      \<lparr>unique_ip = [], unique_ip_and_port = [], hostname_to_ip = []\<rparr> = Inr t \<and>
    set (unique_ip_and_port t) = snd ` set (hostname_to_ip t) \<and> hostname_to_ip t = [(''example.org'', \<lparr>address_ip = ''10.0.0.1'', address_port = 80\<rparr>)] \<and>
    set (unique_ip t) = {\<lparr>address_ip = ''10.0.0.1'', address_port = 0\<rparr>}"
proof -
  have "equivalent_strings ''Host'' ''Host''" by (simp add: equivalent_strings_def list.rel_refl)
  then obtain t where t: "collect sample_bytes (\<lambda>ip. Inr \<lparr>address_ip = ip, address_port = 0\<rparr>) replay_fs [''dir/a'']
      \<lparr>unique_ip = [], unique_ip_and_port = [], hostname_to_ip = []\<rparr> = Inr t"
      "hostname_to_ip t = [(''example.org'', \<lparr>address_ip = ''10.0.0.1'', address_port = 80\<rparr>)]"
    by (auto simp: replay_fs_def serve_record_def Let_def get_header_value_def from_protobuf_def mk_http_message_def)
  from replay_serves_recorded [OF t(1) sample_bytes_inj]
  have "set (unique_ip_and_port t) = snd ` set (hostname_to_ip t)"
    "set (unique_ip t) = interface_addresses (\<lambda>ip. Inr \<lparr>address_ip = ip, address_port = 0\<rparr>) t" by blast+
  with t show ?thesis by (auto simp: interface_addresses_def)
qed

end
