(* ===== verification/System_Wrappers.thy ===== *)
theory System_Wrappers
  imports Event_Loop Net_Addresses
begin

text \<open>
  Small wrappers of the system that the larger components rest on: the base of the clock
  (src/src/util/timestamp.cc), signal masks (src/src/util/signalfd.cc), the child's side of a fork
  (src/src/util/child_process.cc), the names and the ownership of temporary files
  (src/src/util/temp_file.cc), name servers and the working directory (src/src/util/util.cc). The readings of
  the clock and the answers of the system are inputs.

  The lemmas show when a timestamp is the time since the base and when it wraps around, that
  processes forked after the base was read agree on the time, what the comparison of masks does not
  see, and that a temporary file is removed once, by the object it was moved to.
\<close>

section \<open>The base of the clock\<close>

text \<open>
  The two static variables of \<open>initial_timestamp\<close>, and what was written to its log file. The first call
  reads the clock.
\<close>

record clock_base =
  initial_value :: "u64 option"
  is_initiated :: bool
  init_log :: "string list"

definition mk_clock_base :: clock_base where
  "mk_clock_base = \<lparr>initial_value = None, is_initiated = False, init_log = []\<rparr>"

definition initial_timestamp :: "u64 \<Rightarrow> clock_base \<Rightarrow> u64 \<times> clock_base" where
  "initial_timestamp reading b =
     (let v = (case initial_value b of None \<Rightarrow> reading | Some v \<Rightarrow> v);
          b1 = b\<lparr>initial_value := Some v\<rparr>;
          b2 = (if \<not> is_initiated b1 then b1\<lparr>init_log := init_log b1 @ [show_nat (unat v)]\<rparr> else b1)
      in (v, b2\<lparr>is_initiated := True\<rparr>))"

definition initial_microtimestamp :: "u64 \<Rightarrow> u64 option \<Rightarrow> u64 \<times> u64 option" where
  "initial_microtimestamp reading b = (let v = (case b of None \<Rightarrow> reading | Some v \<Rightarrow> v) in (v, Some v))"

text \<open>
  \<open>timestamp()\<close> is a difference of two calls, and C++ does not say which is made first. \<open>earlier\<close> and \<open>later\<close>
  are the readings of the clock; the second one is used by the first call of a process only.
\<close>

definition timestamp_call :: "bool \<Rightarrow> u64 \<Rightarrow> u64 \<Rightarrow> clock_base \<Rightarrow> u64 \<times> clock_base" where
  "timestamp_call raw_first earlier later b =
     (if initial_value b \<noteq> None then let (v, b') = initial_timestamp later b in (timestamp v earlier, b')
      else if raw_first then let (v, b') = initial_timestamp later b in (timestamp v earlier, b')
      else let (v, b') = initial_timestamp earlier b in (timestamp v later, b'))"

lemma initial_timestamp_fixed: "initial_value b = Some v \<Longrightarrow> fst (initial_timestamp r b) = v \<and> initial_value (snd (initial_timestamp r b)) = Some v"
  by (simp add: initial_timestamp_def Let_def)

lemma initial_timestamp_logs_once:
  "init_log (snd (initial_timestamp r' (snd (initial_timestamp r mk_clock_base)))) = [show_nat (unat r)]"
  by (simp add: initial_timestamp_def mk_clock_base_def Let_def)

text \<open>
  Once the base has been read, a timestamp is the time since then, in any process that was forked
  afterwards; the difference of two timestamps is that of the readings.
\<close>

lemma timestamp_since_base:
  assumes "initial_value b = Some v" and "v \<le> r"
  shows "unat (fst (timestamp_call f r r' b)) = unat r - unat v"
  using assms by (simp add: timestamp_call_def timestamp_def initial_timestamp_def Let_def unat_sub)

lemma timestamps_of_forks:
  assumes "initial_value b = Some v" and "v \<le> r" and "r \<le> s"
  shows "fst (timestamp_call f r r' b) \<le> fst (timestamp_call g s s' b) \<and>
    unat (fst (timestamp_call g s s' b)) - unat (fst (timestamp_call f r r' b)) = unat s - unat r"
proof -
  have "v \<le> s" using assms(2,3) by (rule order.trans)
  moreover have "unat r \<le> unat s" "unat v \<le> unat r" using assms(2,3) by (simp_all add: word_le_nat_alt)
  ultimately show ?thesis using assms by (simp add: word_le_nat_alt [of "fst _"] timestamp_since_base)
qed

text \<open>
  The first call, made without reading the base before, may evaluate \<open>raw_timestamp()\<close> first; if the clock
  ticks before the base is read, the result is \<open>2\<close> to the power 64 less the tick. A clock that is set
  back below the base has the same effect in every call.
\<close>

lemma timestamp_wraps:
  assumes "initial_value b = None" and "r < r'"
  shows "unat (fst (timestamp_call True r r' b)) = 2 ^ 64 - (unat r' - unat r)"
proof -
  have "unat r < unat r'" using assms(2) by (simp add: word_less_nat_alt)
  then have "unat (r - r') = unat r + 2 ^ 64 - unat r'" by (simp add: unat_sub_if')
  then show ?thesis using assms(1) \<open>unat r < unat r'\<close>
    by (simp add: timestamp_call_def timestamp_def initial_timestamp_def Let_def)
qed

section \<open>Signal masks\<close>

text \<open>\<open>valid\<close> is what \<open>sigaddset\<close> accepts.\<close>

fun add_signals :: "(int \<Rightarrow> bool) \<Rightarrow> int list \<Rightarrow> signal_mask \<Rightarrow> signal_mask res" where
  "add_signals valid [] m = Inr m"
| "add_signals valid (s # ss) m = (if valid s then add_signals valid ss (insert s m) else Inl (Unix_error ''sigaddset''))"

definition mk_signal_mask :: "(int \<Rightarrow> bool) \<Rightarrow> int list \<Rightarrow> signal_mask res" where
  "mk_signal_mask valid signals = add_signals valid signals {}"

definition current_mask :: "bool \<Rightarrow> signal_mask \<Rightarrow> signal_mask res" where
  "current_mask ok blocked = (if ok then Inr blocked else Inl (Unix_error ''sigprocmask''))"

definition set_as_mask :: "bool \<Rightarrow> signal_mask \<Rightarrow> signal_mask \<Rightarrow> signal_mask res" where
  "set_as_mask ok m blocked = (if ok then Inr m else Inl (Unix_error ''sigprocmask''))"

lemma mk_signal_mask_set: "list_all valid signals \<Longrightarrow> mk_signal_mask valid signals = Inr (set signals)"
proof -
  have "list_all valid ss \<Longrightarrow> add_signals valid ss m = Inr (m \<union> set ss)" for ss m
    by (induction ss arbitrary: m) auto
  from this [of signals "{}"] show "list_all valid signals \<Longrightarrow> ?thesis" by (simp add: mk_signal_mask_def)
qed

lemma loop_signals_mask:
  "mk_signal_mask (\<lambda>s. 0 < s \<and> s \<le> 64) [SIGCHLD, SIGCONT, SIGHUP, SIGTERM, SIGQUIT, SIGINT] = Inr loop_signals"
  by (subst mk_signal_mask_set) (simp_all add: loop_signals_def SIGCHLD_def SIGCONT_def SIGHUP_def SIGTERM_def SIGQUIT_def SIGINT_def)

text \<open>The comparison of masks is equality but for \<open>SIGRTMAX\<close> itself, which the loop does not reach.\<close>

lemma mask_equal_spec:
  assumes "a \<subseteq> {1..64}" and "b \<subseteq> {1..64}"
  shows "mask_equal a b \<longleftrightarrow> a - {64} = b - {64}"
proof
  assume e: "mask_equal a b"
  have "x \<in> a \<longleftrightarrow> x \<in> b" if "x \<in> {1..63}" for x
    using e that unfolding mask_equal_def list_all_iff by (auto dest: bspec [of _ _ "nat x"])
  then show "a - {64} = b - {64}" using assms by fastforce
next
  assume "a - {64} = b - {64}"
  then show "mask_equal a b" unfolding mask_equal_def list_all_iff by fastforce
qed

section \<open>The child's side of a fork\<close>

text \<open>The status the child exits with: that of its procedure, and 1 for an exception.\<close>

definition child_side :: "bool \<Rightarrow> int res \<Rightarrow> int" where
  "child_side mask_ok procedure =
     (case res_bind (set_as_mask mask_ok {} {}) (\<lambda>_. procedure) of Inl e \<Rightarrow> 1 | Inr status \<Rightarrow> status)"

section \<open>Temporary files\<close>

text \<open>The name is kept as characters with a final NUL, for \<open>mkstemp\<close> to change in place.\<close>

record temp_object =
  mutable_temp_filename :: string
  temp_fd :: file_desc
  temp_moved_away :: bool

definition to_mutable :: "string \<Rightarrow> string" where
  "to_mutable str = foldl (\<lambda>ret ch. ret @ [ch]) [] str @ [CHR 0x00]"

text \<open>\<open>renamed\<close> is what \<open>mkstemp\<close> makes of the last six characters, and \<open>fd\<close> the descriptor it opens.\<close>

definition mk_temp_object :: "string \<Rightarrow> string \<Rightarrow> file_desc res \<Rightarrow> temp_object res" where
  "mk_temp_object filename_template renamed fd =
     (let v = to_mutable (filename_template @ ''.XXXXXX'') in
      res_bind fd (\<lambda>fd.
        Inr \<lparr>mutable_temp_filename = take (length v - 7) v @ renamed @ [CHR 0x00], temp_fd = fd, temp_moved_away = False\<rparr>))"

definition temp_name :: "temp_object \<Rightarrow> string res" where
  "temp_name t = asserting (1 < length (mutable_temp_filename t)) (Inr (butlast (mutable_temp_filename t)))"

definition temp_write :: "byte list \<Rightarrow> temp_object \<Rightarrow> temp_object res" where
  "temp_write contents' t =
     asserting (\<not> temp_moved_away t) (res_bind (write_all contents' (temp_fd t)) (\<lambda>fd. Inr (t\<lparr>temp_fd := fd\<rparr>)))"

text \<open>The move constructor: the new object and what is left of the old one.\<close>

definition temp_move :: "temp_object \<Rightarrow> temp_object \<times> temp_object" where
  "temp_move t =
     (let (fd, old) = fd_move (temp_fd t)
      in (\<lparr>mutable_temp_filename = mutable_temp_filename t, temp_fd = fd, temp_moved_away = False\<rparr>,
          t\<lparr>temp_fd := old, temp_moved_away := True\<rparr>))"

text \<open>The destructor of \<open>TempFile\<close>: the names it unlinks. A failed assertion in \<open>name\<close> ends the program.\<close>

definition temp_destroy :: "temp_object \<Rightarrow> string list res" where
  "temp_destroy t = (if temp_moved_away t then Inr [] else res_bind (temp_name t) (\<lambda>n. Inr [n]))"

lemma to_mutable_spec: "to_mutable str = str @ [CHR 0x00]"
proof -
  have "foldl (\<lambda>ret ch. ret @ [ch]) xs str = xs @ str" for xs by (induction str arbitrary: xs) simp_all
  then show ?thesis by (simp add: to_mutable_def)
qed

lemma mk_temp_object_name:
  "mk_temp_object template renamed fd = Inr t \<Longrightarrow> temp_name t = Inr (template @ ''.'' @ renamed)"
  by (auto simp: mk_temp_object_def temp_name_def to_mutable_spec Let_def asserting_def butlast_append)

text \<open>However often an object is moved, the file is unlinked once: by the last object, and not by those moved away.\<close>

fun moves :: "nat \<Rightarrow> temp_object \<Rightarrow> temp_object \<times> temp_object list" where
  "moves 0 t = (t, [])"
| "moves (Suc n) t = (let (new, old) = temp_move t; (last_one, olds) = moves n new in (last_one, old # olds))"

lemma moves_unlink_once:
  assumes "\<not> temp_moved_away t" and "moves n t = (t', olds)"
  shows "temp_destroy t' = res_bind (temp_name t) (\<lambda>m. Inr [m]) \<and> (\<forall>old \<in> set olds. temp_destroy old = Inr [])"
  using assms
proof (induction n arbitrary: t olds)
  case 0
  then show ?case by (simp add: temp_destroy_def)
next
  case (Suc n)
  obtain new old where m: "temp_move t = (new, old)" by (cases "temp_move t")
  obtain olds' where r: "moves n new = (t', olds')" "olds = old # olds'" using Suc.prems(2) m by (auto simp: Let_def split: prod.splits)
  have "\<not> temp_moved_away new" "temp_moved_away old" "temp_name new = temp_name t"
    using m by (auto simp: temp_move_def temp_name_def Let_def split: prod.splits)
  then show ?case using Suc.IH [OF _ r(1)] r(2) by (simp add: temp_destroy_def)
qed

section \<open>Name servers and the working directory\<close>

text \<open>The table of the resolver has three places, of which those without a port are empty.\<close>

definition all_nameservers :: "bool \<Rightarrow> address list \<Rightarrow> address list res" where
  "all_nameservers res_init_ok nsaddr_list =
     (if \<not> res_init_ok then Inl (Unix_error ''res_init'') else Inr (filter (\<lambda>a. address_port a \<noteq> 0) (take 3 nsaddr_list)))"

definition get_working_directory :: "string option \<Rightarrow> string res" where
  "get_working_directory cwd = (case cwd of None \<Rightarrow> Inl (Unix_error ''getcwd'') | Some d \<Rightarrow> Inr d)"

end
