(* ===== verification/Spec2Isabelle.thy ===== *)
theory Spec2Isabelle
  imports Packet_Shell Dns_Proxy Http_Proxy Deep_Cgi Live_Animation X_Window Text_Placement Container_Shells System_Wrappers
begin

text \<open>
  Mahimahi with the Octopus queues: programs that run a command in a container whose network they
  emulate, and programs that record HTTP traffic and replay it. This library models the programs under
  src/src and proves what makes them correct. It is about the code as it is written: where the code
  fails, the theorems say so.

  \<^bold>\<open>The programs and how their parts interact.\<close>
  mm-link, mm-delay, mm-loss, mm-onoff and mm-meter (src/src/frontend) are instances of \<open>PacketShell\<close>
  (packet/packetshell.cc). As root it chooses two free addresses, makes a TUN device, a rule for address
  translation and a DNS proxy, and forks two processes, one of them in a network namespace of its own,
  in which the command of the user runs after root has been given up. Each of the two runs a \<open>Ferry\<close>: an event
  loop that reads packets from one device, gives them to a queue and writes what the queue hands out to the other
  device. The queue of mm-link is \<open>LinkQueue\<close> (frontend/link_queue.cc), which replays a trace of delivery
  opportunities over one of seven packet queues (packet/*_queue.*). mm-webrecord puts a transparent HTTP
  proxy (httpserver/http_proxy.cc) in front of the container, which parses the traffic (http/) and saves
  requests with their responses; mm-webreplay starts web servers on the recorded addresses, whose
  module (frontend/mod_deepcgi.c) asks frontend/replayserver.cc for the best record. Event loops, sockets,
  descriptors and child processes are src/src/util; the meters are drawn by src/src/graphing.

  \<^bold>\<open>Conventions.\<close>
  A struct or class is a record, a method a function that takes the object and returns it updated, a
  failure a value of \<open>error\<close> in \<open>'a res\<close>. Machine integers are words; a byte string is a list of
  words, a text a list of characters. What a call of the system or of a library returns is an input: an
  argument that is quantified in the theorems (\<open>accepts\<close> and \<open>offers\<close> of a descriptor, the answers to
  \<open>poll\<close>, \<open>waitid\<close>, OpenSSL, the X server, the actions of \<open>host_m\<close>), so a theorem covers every way in which the
  system can answer. Objects with a destructor are scopes of \<open>host_m\<close>. Threads are sequences of steps.

  \<^bold>\<open>Theories\<close>, with the sources they model, from the bottom up.
  \<^item> Mahimahi_Prelude: words, errors, strings, \<open>myatoi\<close> (util/ezio.cc), clock readings (util/timestamp.cc).
  \<^item> Packet_Header: packet/packet_header.hh, packet/queued_packet.hh. Packet_Queue:
    packet/abstract_packet_queue.hh and packet/dropping_packet_queue.*, with the locales \<open>packet_queue\<close>, the contract every
    queue owes to the link, and \<open>reliable_packet_queue\<close>, whose calls return besides. Basic_Queues
    (infinite, drop-tail, drop-head), Codel_Queue, Pie_Queue, Bitrate_Queue (the Octopus queue) and Activenet_Queue
    interpret them. Queue_Factory: the choice of a queue (frontend/linkshell.cc) with its dynamic dispatch, again an
    interpretation, and sequences of calls.
  \<^item> Link_Queue: the definitions of frontend/link_queue.*. Link_Emulation: its lemmas, for every queue that
    meets the contract. Link_Properties: the constructor and whole runs, over the queues of the program.
    Live_Graph: the bins of the meters (graphing/binned_livegraph.*), as one thread uses them.
  \<^item> File_Desc, Ferry_Queues, Bytestream_Queue, Poller, Child_Process, Event_Loop, Sockets, Raw_Address and
    System_Wrappers: src/src/util and the queues of the other shells (frontend/delay_queue.*, loss_queue.*,
    meter_queue.*); Sockets also has httpserver/secure_socket.*. The locales are \<open>ferry_queue\<close> and \<open>lossless_ferry\<close>, what a shell relies on in its
    queue; \<open>byte_fifo\<close>, the ring buffer as a queue of bytes; \<open>handlers\<close>, what the callbacks of a poller keep;
    and \<open>byte_stream\<close>, plain and TLS sockets.
  \<^item> Packet_Shell: the loop of a ferry (packet/packetshell.cc) for every queue. Dns_Proxy: util/dns_proxy.cc.
  \<^item> Chunked_Parser, Http_Message, Http_Parser: src/src/http; the locale \<open>body_reader\<close> is what the message
    sequence needs of requests and of responses. Http_Proxy: httpserver/http_proxy.cc. Record_Replay:
    http/backing_store.* and frontend/replayserver.cc. Deep_Cgi: frontend/mod_deepcgi.c.
  \<^item> Net_Addresses: the choice of addresses (util/interfaces.*). Privileges: root and how it is given up
    (util/util.cc, util/system_runner.cc). Shell_Frontends: command lines to launches (frontend/*shell.cc,
    frontend/meter.cc). Host_Actions, Host_Devices, Container_Shells: what the setuid programs do to the host
    (util/nat.*, util/netdevice.*, util/temp_file.*, util/dns_server.*, frontend/web_server.*, packetshell.cc, recordshell.cc,
    replayshell.cc); the locale \<open>resource\<close> is what a constructor and its destructor owe each other.
  \<^item> Graph_Drawing, Live_Animation, X_Objects, X_Window, Text_Placement: src/src/graphing. Live_Animation has
    the two threads of a meter as state machines whose single steps interleave.
  \<^item> This theory composes the recording proxy, the web server and the replay server.

  \<^bold>\<open>What the lemmas show.\<close>
  \<^item> Delivery: over any queue of the program a link writes a subsequence of what it read, in order and
    unaltered; it sends \<open>PACKET_SIZE\<close> bytes per opportunity while it has packets, sleeps until the
    next one, and is ready to run for every valid trace, with meters or without, unless it runs as root. mm-delay loses nothing. The event loops preserve
    these facts, and a poll serves every ready action.
  \<^item> Queues: each stays in its class with its counters right; what CoDel, PIE, Octopus and ActiveNet drop and
    why, and the inputs on which drop-head, ActiveNet and Octopus do not do what they mean to.
  \<^item> Messages: parsing does not depend on how a stream is cut, printed requests parse back, and chunked bodies
    end where they end. The proxy forwards exactly what was sent and saves every response with
    its request; what was recorded is served again byte for byte.
  \<^item> The host: in every process, whatever was acquired is given back by the destructor that owes it, or the
    system refused to take it back; programs of the user run without
    privileges, which cannot be regained; free addresses are found exactly when there are two.
  \<^item> The graphs: whatever the two threads of a meter do in between, a frame is drawn without a failing assertion, one frame is in flight at a time, and every
    pixmap has one owner.

  \<^bold>\<open>Bounds and fuel.\<close>
  \<open>rationalize_fuel\<close>, one more than the readings up to now times the length of the trace, bounds the
  opportunities a link can have missed; Link_Properties proves that it is enough for every link that
  is ready to run. The switches of mm-onoff have fuel too; \<open>switching_wait_time_spec\<close> gives an amount that
  suffices. The other loops of the code are functions with a termination proof. A loop that waits for events runs over a finite list of answers and
  ends with \<open>Out_of_fuel\<close>, or still running, when the list ends, so the theorems hold after any number of events. The
  theorems on queues ask for less than \<open>2\<close> to the power 31 bytes, where the counters are read as signed; those
  on links with a throughput meter ask that no bin of it can exceed the largest \<open>int\<close>. The labels of a
  chart keep the 32 bits of an \<open>int\<close>: the frames that are shown to be drawn are those of the first 68 years of a program.

  \<^bold>\<open>Not modelled.\<close>
  Floating-point numbers are real numbers, so rounding is not seen; random numbers are inputs without a
  distribution. The parts of the libraries and of the system are inputs, not models: nothing is
  shown about the kernel, OpenSSL, Apache, dnsmasq, protobuf, cairo or the X server. The wrappers of pointers
  to cairo and pango objects, the connection to the X server that its objects share, the certificate
  (httpserver/certificate.hh), the workaround for parameter packs (packet/bindworkaround.hh), the variant of
  the packet header that is not compiled, and the Perl scripts have no definitions. The handlers of the DNS proxies that share the event loop of a ferry are modelled with the proxies,
  not in that loop. A link and the animation threads of its meters do not run against each other in the
  model: the thread of the packets works on the meters as if alone, and Live_Animation has the runs in which it
  is not alone. The time between steps of
  different processes is not modelled, nor are signals that arrive while a callback runs: a signal is read from its
  descriptor by the loop, as the code does.
\<close>

section \<open>Recording and replaying\<close>

text \<open>
  C2: What was recorded is replayed. Take any run of a connection of the recording proxy, plain or TLS,
  and any record \<open>r\<close> it has saved. When the files of the recording can be read, in any order, and a client
  repeats the request of the record, with the same request line, host and user agent over the same
  scheme, to a web server whose process has not seen other requests, then it is sent the text of the
  recorded response, all of it and nothing else, however Apache cuts the writes; and that text is, byte
  for byte, the piece that the client of the recording was sent after the responses before it and
  before the responses after it. The hypothesis on the other records is needed because the replay
  server tells records with the same request line, host and user agent apart by nothing else.
\<close>

theorem record_then_replay:
  assumes "proxy_thread (disk_save c z) polls ans browser [] = Inr (x, po, s)" and "list_all honest polls"
    and "fd_got browser = []" and "fd_sent browser = []" and "\<And>server. server_socket ans = Inr server \<Longrightarrow> fd_sent server = []"
    and "\<forall>fd i. ssl_write_answers ans fd i \<noteq> 0"
    and "backing_store s = earlier @ r # later" and "serves cfg fs recs" and "set recs = set (backing_store s)"
    and "req_handler req = Some ''deepcgi-handler''" and "repeats req (from_protobuf (rr_request r))"
    and "rr_scheme r = (if is_https req then Scheme_HTTPS else Scheme_HTTP)"
    and "fresh env" and "request_environment cfg req env = Inr env'" and "length (proto_first_line (rr_request r)) < 2 ^ 32"
    and "\<forall>q \<in> set recs. env_score env' (proto_first_line (rr_request r)) q = of_nat (length (proto_first_line (rr_request r))) \<longrightarrow>
           rr_response q = rr_response r"
    and "list_all takes_bytes ks" and "length (printed (from_protobuf (rr_response r))) \<le> length ks"
  shows "\<exists>res. deepcgi_handler connection_filter cfg True (\<lambda>e. fst (replayserver describe e False fs)) ks req env = Inr res \<and>
    cgi_status res = CGI_OK \<and> keepalive res \<and> \<not> left_open res \<and>
    chars_of (concat (fd_sent (proxy_client s))) = concat (stored_responses earlier) @ cgi_sent res @ concat (stored_responses later)"
proof -
  obtain ms where ms: "recorded_faithfully s ms" using thread_records [OF assms(1,2,3,4,5,6)] by blast
  have "r \<in> set recs" using assms(7,9) by simp
  from record_served [OF assms(8) this assms(10-18)] show ?thesis
    using ms by (simp add: recorded_faithfully_def assms(7) stored_responses_def)
qed

text \<open>A recording of one exchange: a request arrives and is forwarded, its response arrives and is sent back.\<close>

definition asked_text :: string where
  "asked_text = ''GET /a HTTP/1.1'' @ CRLF @ ''Host: example.org'' @ CRLF @ CRLF"

definition answer_text :: string where
  "answer_text = ''HTTP/1.1 200 OK'' @ CRLF @ ''Content-Length: 2'' @ CRLF @ CRLF @ ''ok''"

definition asked_message :: http_message where
  "asked_message =
     mk_http_message\<lparr>first_line := ''GET /a HTTP/1.1'', headers := [\<lparr>header_key = ''Host'', header_value = ''example.org''\<rparr>],
       expected_size := (True, 0), message_state := COMPLETE\<rparr>"

definition answer_message :: http_response where
  "answer_message =
     \<lparr>expected_size = (True, 2), first_line = ''HTTP/1.1 200 OK'', headers = [\<lparr>header_key = ''Content-Length'', header_value = ''2''\<rparr>],
      body = ''ok'', message_state = COMPLETE, request = asked_message, body_parser = None\<rparr>"

definition recording_client :: file_desc where
  "recording_client = sample_client\<lparr>offers := (\<lambda>i n. Some (if i = 0 then bytes_of asked_text else []))\<rparr>"

definition recording_server :: file_desc where
  "recording_server = sample_server\<lparr>offers := (\<lambda>i n. Some (if i = 0 then bytes_of answer_text else []))\<rparr>"

definition recording_thread :: thread_answers where
  "recording_thread = sample_thread\<lparr>server_socket := Inr recording_server\<rparr>"

definition recording_polls :: "(pollfd list \<Rightarrow> int \<Rightarrow> int \<times> u16 list) list" where
  "recording_polls = map answering [[0, 1, 0, 0], [0, 0, 4, 0], [1, 0, 0, 0], [0, 0, 0, 4]]"

definition sample_recording :: "(u32 option \<times> request_response list proxy_world poller \<times> request_response list proxy_world) res" where
  "sample_recording = proxy_thread (disk_save True True) recording_polls recording_thread recording_client []"

lemma asked_parses: "parse_requests asked_text mk_request_parser = Inr (mk_request_parser\<lparr>complete_messages := [asked_message]\<rparr>)"
  by code_simp

lemma answer_parses:
  "parse_responses answer_text (new_request_arrived asked_message mk_response_parser) =
     Inr (mk_response_parser\<lparr>complete_messages := [answer_message]\<rparr>)"
  by code_simp

lemma write_accepting:
  assumes "accepts fd = (\<lambda>i n. int n)" and "s \<noteq> []"
  shows "write_all s fd = Inr (register_write (fd\<lparr>fd_sent := fd_sent fd @ [s]\<rparr>))"
proof -
  have "write_some s fd = Inr ([], register_write (fd\<lparr>fd_sent := fd_sent fd @ [s]\<rparr>))"
    using assms by (cases fd) (simp add: write_some_def register_write_def)
  then show ?thesis by (subst write_all.simps) simp
qed

lemma sample_recording_saves:
  "\<exists>x po s r. sample_recording = Inr (x, po, s) \<and> disk_save True True answer_message sample_address [] = Inr [r] \<and> backing_store s = [r]"
proof -
  obtain r where r: "disk_save True True answer_message sample_address [] = Inr [r]"
    by (auto simp: disk_save_def toprotobuf_def answer_message_def asked_message_def)
  have n: "fd_num recording_client = 5" "fd_num recording_server = 6" "\<not> fd_eof recording_client" "\<not> fd_eof recording_server"
    "read_count recording_client = 0" "write_count recording_server = 0" "write_count recording_client = 0" "read_count recording_server = 0"
    "offers recording_client 0 k = Some (bytes_of asked_text)" "offers recording_server 0 k = Some (bytes_of answer_text)"
    "accepts recording_client = (\<lambda>i n. int n)" "accepts recording_server = (\<lambda>i n. int n)" for k
    by (simp_all add: recording_client_def recording_server_def sample_client_def sample_server_def sample_fd_def)
  have l: "length (bytes_of asked_text) = 38" "bytes_of asked_text \<noteq> []" "length (bytes_of answer_text) = 40" "bytes_of answer_text \<noteq> []"
    by (simp_all add: bytes_of_def asked_text_def answer_text_def CRLF_def)
  have p: "printed asked_message = asked_text" "printed answer_message = answer_text" "message_state asked_message = COMPLETE" "message_state answer_message = COMPLETE"
    by (simp_all add: printed_def asked_text_def answer_text_def asked_message_def answer_message_def mk_http_message_def header_str_def)
  show ?thesis
    using r
    by (simp add: sample_recording_def recording_polls_def recording_thread_def proxy_thread_def proxy_loop_def sample_thread_def sample_address_def
        original_dest_def getsockopt_def address_of_raw_def socket_connect_def sys_def tcp_socket_def Let_def poll_def asserting_def
        add_action_def mk_poller_def proxy_actions_def mk_action_def wanted_def poll_bits_def store_revents_def answering_def fd_read_def
        BUFFER_SIZE_def register_read_def register_write_def n l p write_accepting asked_parses answer_parses
        sequence_front_def sequence_pop_def sequence_empty_def service_count_def poll_error_bits_def)
qed

theorem record_then_replay_witness:
  "\<exists>x po s res fs. sample_recording = Inr (x, po, s) \<and>
    deepcgi_handler 50 replay_config True (\<lambda>e. fst (replayserver (\<lambda>e. []) e False fs)) (replicate 100 int) sample_request_rec Map.empty = Inr res \<and>
    cgi_status res = CGI_OK \<and> cgi_sent res = chars_of (concat (fd_sent (proxy_client s)))"
proof -
  obtain x po s r where run: "sample_recording = Inr (x, po, s)" and sv: "disk_save True True answer_message sample_address [] = Inr [r]"
      and st: "backing_store s = [r]"
    using sample_recording_saves by blast
  have rq: "rr_request r = \<lparr>proto_first_line = ''GET /a HTTP/1.1'', proto_header = [(''Host'', ''example.org'')], proto_body = []\<rparr>"
      "rr_response r = \<lparr>proto_first_line = ''HTTP/1.1 200 OK'', proto_header = [(''Content-Length'', ''2'')], proto_body = ''ok''\<rparr>"
      "rr_scheme r = Scheme_HTTP"
    using sv by (auto simp: disk_save_def toprotobuf_def mk_record_def answer_message_def asked_message_def mk_http_message_def sample_address_def)
  obtain env' where e: "request_environment replay_config sample_request_rec Map.empty = Inr env'" using sample_request_environment by blast
  define fs where "fs = sample_fs\<lparr>fs_file := (\<lambda>f. Stored r)\<rparr>"
  have sv: "serves replay_config fs [r]"
    by (simp add: serves_def replay_config_def deepcgi_set_workingdir_def deepcgi_set_recordingdir_def fs_def sample_fs_def
        list_directory_contents_def assert_not_root_def)
  have rp: "repeats sample_request_rec (from_protobuf (rr_request r))" unfolding rq by code_simp
  have "length (printed (from_protobuf (rr_response r) :: http_message)) = 40" unfolding rq by code_simp
  then have len: "length (printed (from_protobuf (rr_response r) :: http_message)) \<le> length (replicate 100 int)" by simp
  have ks: "list_all honest recording_polls" "list_all takes_bytes (replicate 100 int)"
    by (simp add: recording_polls_def answering_honest, simp add: takes_bytes_def list_all_length)
  have fds: "fd_got recording_client = []" "fd_sent recording_client = []"
    and server: "\<And>server. server_socket recording_thread = Inr server \<Longrightarrow> fd_sent server = []"
    and ssl: "\<forall>fd i. ssl_write_answers recording_thread fd i \<noteq> 0"
    by (auto simp: recording_client_def recording_server_def recording_thread_def sample_thread_def sample_client_def sample_server_def sample_fd_def)
  have req: "req_handler sample_request_rec = Some ''deepcgi-handler''" "rr_scheme r = (if is_https sample_request_rec then Scheme_HTTPS else Scheme_HTTP)"
    by (simp_all add: sample_request_rec_def rq)
  have st': "backing_store s = [] @ r # []" "set [r] = set (backing_store s)" using st by simp_all
  have fr: "fresh Map.empty" by (simp add: fresh_def)
  have le: "length (proto_first_line (rr_request r)) < 2 ^ 32" by (simp add: rq)
  have "\<exists>res. deepcgi_handler 50 replay_config True (\<lambda>e. fst (replayserver (\<lambda>e. []) e False fs)) (replicate 100 int) sample_request_rec
      Map.empty = Inr res \<and> cgi_status res = CGI_OK \<and> keepalive res \<and> \<not> left_open res \<and>
      chars_of (concat (fd_sent (proxy_client s))) = concat (stored_responses []) @ cgi_sent res @ concat (stored_responses [])"
    by (rule record_then_replay [OF run [unfolded sample_recording_def] ks(1) fds server ssl st'(1) sv st'(2) req(1) rp req(2) fr e le _ ks(2) len]) simp_all
  then obtain res where "deepcgi_handler 50 replay_config True (\<lambda>e. fst (replayserver (\<lambda>e. []) e False fs)) (replicate 100 int) sample_request_rec
      Map.empty = Inr res" "cgi_status res = CGI_OK" "cgi_sent res = chars_of (concat (fd_sent (proxy_client s)))"
    by (auto simp: stored_responses_def)
  with run show ?thesis by blast
qed

end
